(* ===== verification/Prelude.thy ===== *)
theory Prelude
  imports Main "HOL-Library.Word" "HOL-Library.Sublist" "HOL-Library.Multiset"
begin

text \<open>
  What every component of the development shares: names for the machine integers, the
  iterator and vector operations of Rust's standard library that the code is written
  with (\<open>position\<close>, \<open>rposition\<close>, \<open>max_by_key\<close>, \<open>min_by_key\<close>, \<open>Vec::remove\<close>,
  \<open>Vec::insert\<close>, \<open>saturating_add\<close>), each with the lemmas that carry the component
  proofs, and the collection \<open>vec_simps\<close> those lemmas are gathered in.
\<close>

section \<open>Names\<close>

named_theorems vec_simps \<open>facts about the vector operations of the standard library\<close>

type_synonym u8 = "8 word"
type_synonym u16 = "16 word"
type_synonym u32 = "32 word"
type_synonym u64 = "64 word"

text \<open>\<open>usize\<close> and \<open>u64\<close> counters that the code keeps far below their width are \<open>nat\<close>;
  where the code saturates, the width appears.\<close>

abbreviation usize_max :: nat where
  "usize_max \<equiv> 2 ^ 64 - 1"

definition saturating_add :: "nat \<Rightarrow> nat \<Rightarrow> nat" where
  "saturating_add a b = min usize_max (a + b)"

definition saturating_mul :: "nat \<Rightarrow> nat \<Rightarrow> nat" where
  "saturating_mul a b = min usize_max (a * b)"

text \<open>The \<open>?\<close> operator: an error (\<open>Inl\<close>) ends the function, a value goes on.\<close>

fun sbind :: "'e + 'a \<Rightarrow> ('a \<Rightarrow> 'e + 'b) \<Rightarrow> 'e + 'b" where
  "sbind (Inl e) f = Inl e"
| "sbind (Inr a) f = f a"

lemma sbind_Inr [simp]: "sbind x f = Inr b \<longleftrightarrow> (\<exists>a. x = Inr a \<and> f a = Inr b)"
  by (cases x) auto

lemma sbind_Inl: "sbind x f = Inl e \<longleftrightarrow> x = Inl e \<or> (\<exists>a. x = Inr a \<and> f a = Inl e)"
  by (cases x) auto

text \<open>The \<open>?\<close> of a method that changes its receiver: an error keeps the state reached so far.\<close>

definition tbind :: "('e + 'a) \<times> 's \<Rightarrow> ('a \<Rightarrow> 's \<Rightarrow> ('e + 'b) \<times> 's) \<Rightarrow> ('e + 'b) \<times> 's" where
  "tbind m f = (case m of (Inl e, s) \<Rightarrow> (Inl e, s) | (Inr a, s) \<Rightarrow> f a s)"

lemma tbind_Inr: "tbind m f = (Inr b, s') \<longleftrightarrow> (\<exists>a s. m = (Inr a, s) \<and> f a s = (Inr b, s'))"
  by (auto simp: tbind_def split: prod.splits sum.splits)

lemma tbind_simps [simp]: "tbind (Inl e, s) f = (Inl e, s)" "tbind (Inr a, s) f = f a s"
  by (simp_all add: tbind_def)

text \<open>The computation returns a value.\<close>

definition returns :: "('e + 'a) \<times> 's \<Rightarrow> bool" where
  "returns m \<longleftrightarrow> (case fst m of Inl _ \<Rightarrow> False | Inr _ \<Rightarrow> True)"

lemma returns_simps [simp]: "returns (Inr a, s)" "\<not> returns (Inl e, s)"
  by (simp_all add: returns_def)

lemma returnsE:
  assumes "returns m" obtains a s where "m = (Inr a, s)"
  using assms by (cases m; cases "fst m") (auto simp: returns_def)

lemma returns_tbind: "returns m \<Longrightarrow> (\<And>a s. returns (f a s)) \<Longrightarrow> returns (tbind m f)"
  by (auto elim!: returnsE)

text \<open>A relation that steps may be chained in: what every step of a computation keeps, whether it
  returns or fails, the whole computation keeps.\<close>

locale state_frame =
  fixes keeps :: "'s \<Rightarrow> 's \<Rightarrow> bool"
  assumes keeps_refl: "keeps s s"
    and keeps_trans: "keeps s s1 \<Longrightarrow> keeps s1 s2 \<Longrightarrow> keeps s s2"
begin

lemma tbind_keeps:
  assumes "keeps s (snd m)" "\<And>a s1. m = (Inr a, s1) \<Longrightarrow> keeps s1 (snd (f a s1))"
  shows "keeps s (snd (tbind m f))"
proof (cases m)
  case (Pair r s1)
  then show ?thesis
    using assms keeps_trans [of s s1] by (cases r) (simp_all add: tbind_def)
qed

lemma tbind_run:
  assumes "tbind m f = (r, s')" "\<And>r1 s1. m = (r1, s1) \<Longrightarrow> keeps s s1"
    and "\<And>a s1 r2 s2. m = (Inr a, s1) \<Longrightarrow> f a s1 = (r2, s2) \<Longrightarrow> keeps s1 s2"
  shows "keeps s s'"
proof -
  obtain r1 s1 where m: "m = (r1, s1)" by fastforce
  have "keeps s (snd (tbind m f))"
    by (rule tbind_keeps) (use assms(2,3) m in \<open>auto intro: prod.collapse [symmetric]\<close>)
  then show ?thesis using assms(1) by simp
qed

end

text \<open>A machine whose every step keeps an invariant keeps it over every run.\<close>

locale state_machine =
  fixes step :: "'s \<Rightarrow> 's \<Rightarrow> bool" and inv :: "'s \<Rightarrow> bool"
  assumes step_inv: "step s s' \<Longrightarrow> inv s \<Longrightarrow> inv s'"
begin

lemma run_inv: "step\<^sup>*\<^sup>* s s' \<Longrightarrow> inv s \<Longrightarrow> inv s'"
  by (induction rule: rtranclp_induct) (auto intro: step_inv)

end

definition ok_or :: "'a option \<Rightarrow> 'e \<Rightarrow> 'e + 'a" where
  "ok_or x e = (case x of Some a \<Rightarrow> Inr a | None \<Rightarrow> Inl e)"

lemma ok_or_Inr [simp]: "ok_or x e = Inr a \<longleftrightarrow> x = Some a"
  by (auto simp: ok_or_def split: option.splits)

section \<open>Iterator searches\<close>

text \<open>\<open>Iterator::position\<close>: the index of the first element that satisfies the predicate.\<close>

fun position :: "('a \<Rightarrow> bool) \<Rightarrow> 'a list \<Rightarrow> nat option" where
  "position p [] = None"
| "position p (x # xs) = (if p x then Some 0 else map_option Suc (position p xs))"

text \<open>\<open>Iterator::rposition\<close>: the index of the last one.\<close>

fun rposition :: "('a \<Rightarrow> bool) \<Rightarrow> 'a list \<Rightarrow> nat option" where
  "rposition p [] = None"
| "rposition p (x # xs) =
     (case rposition p xs of
        Some i \<Rightarrow> Some (Suc i)
      | None \<Rightarrow> if p x then Some 0 else None)"

lemma position_Some:
  "position p xs = Some i \<longleftrightarrow> i < length xs \<and> p (xs ! i) \<and> (\<forall>j < i. \<not> p (xs ! j))"
proof (induction xs arbitrary: i)
  case Nil
  then show ?case by simp
next
  case (Cons x xs)
  show ?case
    by (cases i) (auto simp: Cons.IH less_Suc_eq_0_disj)
qed

lemma position_None: "position p xs = None \<longleftrightarrow> (\<forall>x \<in> set xs. \<not> p x)"
  by (induction xs) auto

lemma rposition_None: "rposition p xs = None \<longleftrightarrow> (\<forall>x \<in> set xs. \<not> p x)"
  by (induction xs) (auto split: option.splits)

lemma rposition_SomeD:
  assumes "rposition p xs = Some i"
  shows "i < length xs" "p (xs ! i)" "i < j \<Longrightarrow> j < length xs \<Longrightarrow> \<not> p (xs ! j)"
proof -
  have "i < length xs \<and> p (xs ! i) \<and> (\<forall>j. i < j \<and> j < length xs \<longrightarrow> \<not> p (xs ! j))"
    using assms
  proof (induction xs arbitrary: i)
    case Nil
    then show ?case by simp
  next
    case (Cons x xs)
    then show ?case
      by (cases "rposition p xs")
        (auto simp: rposition_None nth_Cons split: nat.splits if_splits)
  qed
  then show "i < length xs" "p (xs ! i)" "i < j \<Longrightarrow> j < length xs \<Longrightarrow> \<not> p (xs ! j)"
    by auto
qed

lemma position_SomeD:
  assumes "position p xs = Some i"
  shows "i < length xs" "p (xs ! i)" "j < i \<Longrightarrow> \<not> p (xs ! j)"
  using assms by (auto simp: position_Some)

text \<open>\<open>Iterator::max_by_key\<close> gives the last of several greatest elements and
  \<open>min_by_key\<close> the first of several least ones.\<close>

fun max_by_key :: "('a \<Rightarrow> 'k::linorder) \<Rightarrow> 'a list \<Rightarrow> 'a option" where
  "max_by_key f [] = None"
| "max_by_key f (x # xs) =
     (case max_by_key f xs of
        None \<Rightarrow> Some x
      | Some y \<Rightarrow> if f y < f x then Some x else Some y)"

fun min_by_key :: "('a \<Rightarrow> 'k::linorder) \<Rightarrow> 'a list \<Rightarrow> 'a option" where
  "min_by_key f [] = None"
| "min_by_key f (x # xs) =
     (case min_by_key f xs of
        None \<Rightarrow> Some x
      | Some y \<Rightarrow> if f y < f x then Some y else Some x)"

lemma max_by_key_None [simp]: "max_by_key f xs = None \<longleftrightarrow> xs = []"
  by (cases xs) (auto split: option.splits)

lemma min_by_key_None [simp]: "min_by_key f xs = None \<longleftrightarrow> xs = []"
  by (cases xs) (auto split: option.splits)

lemma max_by_key_SomeD:
  assumes "max_by_key f xs = Some m"
  shows "m \<in> set xs" "x \<in> set xs \<Longrightarrow> f x \<le> f m"
proof -
  have "m \<in> set xs \<and> (\<forall>x \<in> set xs. f x \<le> f m)"
    using assms
  proof (induction xs arbitrary: m)
    case Nil
    then show ?case by simp
  next
    case (Cons x xs)
    then show ?case
      by (cases "max_by_key f xs") (force split: if_splits)+
  qed
  then show "m \<in> set xs" "x \<in> set xs \<Longrightarrow> f x \<le> f m" by auto
qed

lemma min_by_key_SomeD:
  assumes "min_by_key f xs = Some m"
  shows "m \<in> set xs" "x \<in> set xs \<Longrightarrow> f m \<le> f x"
proof -
  have "m \<in> set xs \<and> (\<forall>x \<in> set xs. f m \<le> f x)"
    using assms
  proof (induction xs arbitrary: m)
    case Nil
    then show ?case by simp
  next
    case (Cons x xs)
    then show ?case
      by (cases "min_by_key f xs") (force split: if_splits)+
  qed
  then show "m \<in> set xs" "x \<in> set xs \<Longrightarrow> f m \<le> f x" by auto
qed

lemma set_map_filter: "set (List.map_filter f xs) = {y. \<exists>x\<in>set xs. f x = Some y}"
  by (force simp: List.map_filter_def)

section \<open>Vectors\<close>

text \<open>\<open>Vec::remove\<close> and \<open>Vec::insert\<close>, at an index the caller has checked.\<close>

definition vec_remove :: "nat \<Rightarrow> 'a list \<Rightarrow> 'a list" where
  "vec_remove i xs = take i xs @ drop (Suc i) xs"

definition vec_insert :: "nat \<Rightarrow> 'a \<Rightarrow> 'a list \<Rightarrow> 'a list" where
  "vec_insert i x xs = take i xs @ x # drop i xs"

lemma vec_remove_simps [simp]:
  "vec_remove 0 (x # xs) = xs"
  "vec_remove (Suc i) (x # xs) = x # vec_remove i xs"
  "vec_remove i [] = []"
  by (simp_all add: vec_remove_def)

lemma length_vec_remove [simp, vec_simps]:
  "i < length xs \<Longrightarrow> length (vec_remove i xs) = length xs - 1"
  by (simp add: vec_remove_def)

lemma set_vec_remove [vec_simps]: "set (vec_remove i xs) \<subseteq> set xs"
  by (auto simp: vec_remove_def dest: in_set_takeD in_set_dropD)

lemma mset_vec_remove:
  "i < length xs \<Longrightarrow> mset xs = add_mset (xs ! i) (mset (vec_remove i xs))"
  by (induction xs arbitrary: i) (auto simp: nth_Cons vec_remove_def split: nat.splits)

lemma set_vec_remove_distinct:
  "distinct xs \<Longrightarrow> i < length xs \<Longrightarrow> set (vec_remove i xs) = set xs - {xs ! i}"
proof (induction xs arbitrary: i)
  case Nil
  then show ?case by simp
next
  case (Cons x xs)
  then show ?case by (cases i) (auto simp: nth_eq_iff_index_eq)
qed

lemma distinct_vec_remove [vec_simps]: "distinct xs \<Longrightarrow> distinct (vec_remove i xs)"
  by (auto simp: vec_remove_def distinct_append set_take_disj_set_drop_if_distinct)

lemma sorted_vec_remove: "sorted xs \<Longrightarrow> sorted (vec_remove i xs)"
proof (induction xs arbitrary: i)
  case Nil
  then show ?case by simp
next
  case (Cons x xs)
  then show ?case using set_vec_remove [of _ xs] by (cases i) auto
qed

lemma vec_insert_remove:
  "i < length xs \<Longrightarrow> vec_insert i (xs ! i) (vec_remove i xs) = xs"
  by (simp add: vec_insert_def vec_remove_def id_take_nth_drop [symmetric])

lemma sum_list_vec_remove:
  fixes f :: "'a \<Rightarrow> nat"
  shows "i < length xs \<Longrightarrow>
    sum_list (map f xs) = f (xs ! i) + sum_list (map f (vec_remove i xs))"
  by (induction xs arbitrary: i) (auto simp: nth_Cons split: nat.splits)

end
