(* ===== verification/Ngram.thy ===== *)
theory Ngram
  imports Prelude "HOL-Library.Product_Lexorder"
begin

text \<open>
  Suffix-lookup drafting (\<open>local-engine/src/bonsai_ngram.rs\<close>): the rolling-hash index of
  one token sequence (\<open>Anchors\<close>), the bounded store of remembered requests
  (\<open>SuffixStore\<close>), the lookup of a draft (\<open>SuffixSession::find\<close>) and the two length
  policies.  The index is shown to list exactly the occurrences of an anchor, so the
  lookup equals an exhaustive scan; drafts are shown to be verbatim continuations of true
  matches of greatest length.
\<close>

unbundle bit_operations_syntax

section \<open>Constants and settings\<close>

definition MAX_NGRAM_MAX :: nat where "MAX_NGRAM_MAX = 63"
definition MAX_STORED_REQUESTS :: nat where "MAX_STORED_REQUESTS = 8"
definition MAX_STORED_TOKENS :: nat where "MAX_STORED_TOKENS = 131072"

record ngram_settings =
  ns_enabled :: bool
  ns_max_drafts :: nat
  ns_min_match :: nat

definition default_ngram_settings :: ngram_settings where
  "default_ngram_settings = \<lparr>ns_enabled = True, ns_max_drafts = 63, ns_min_match = 12\<rparr>"

definition max_lookup_drafts :: nat where
  "max_lookup_drafts = MAX_NGRAM_MAX"

text \<open>Token ids at or above the text vocabulary name rows of an image.\<close>

definition is_image_token :: "u32 \<Rightarrow> bool" where
  "is_image_token token \<longleftrightarrow> 248320 \<le> token"

section \<open>The anchor index\<close>

definition NO_ANCHOR :: u32 where "NO_ANCHOR = - 1"

definition HASH_BASE :: u64 where "HASH_BASE = 0x9e3779b97f4a7c15"

definition mix :: "u64 \<Rightarrow> u64" where
  "mix value0 =
     (let value1 = (value0 XOR drop_bit 30 value0) * 0xbf58476d1ce4e5b9;
          value2 = (value1 XOR drop_bit 27 value1) * 0x94d049bb133111eb
      in value2 XOR drop_bit 31 value2)"

record anchors =
  an_tokens :: "u32 list"
  an_min_match :: nat
  an_newest :: "u64 \<Rightarrow> u32 option"
  an_previous :: "u32 list"
  an_hash :: u64
  an_drop_factor :: u64

definition anchors_unindexed :: "u32 list \<Rightarrow> anchors" where
  "anchors_unindexed tokens =
     \<lparr>an_tokens = tokens, an_min_match = usize_max, an_newest = Map.empty,
      an_previous = [], an_hash = 0, an_drop_factor = 0\<rparr>"

definition anchors_push :: "anchors \<Rightarrow> u32 \<Rightarrow> anchors" where
  "anchors_push a token =
     (let a1 = a\<lparr>an_tokens := an_tokens a @ [token]\<rparr> in
      if an_min_match a1 = 0 then a1
      else
        let end = length (an_tokens a1);
            h1 = an_hash a1 * HASH_BASE + (ucast token + 1);
            h2 = (if end > an_min_match a1
                  then h1 - (ucast (an_tokens a1 ! (end - 1 - an_min_match a1)) + 1)
                              * an_drop_factor a1
                  else h1);
            a2 = a1\<lparr>an_hash := h2\<rparr>
        in if end \<ge> an_min_match a2 then
             a2\<lparr>an_newest := (an_newest a2)(mix (an_hash a2) \<mapsto> of_nat end),
                an_previous := an_previous a2 @
                  [case an_newest a2 (mix (an_hash a2)) of Some p \<Rightarrow> p | None \<Rightarrow> NO_ANCHOR]\<rparr>
           else a2)"

definition anchors_empty :: "nat \<Rightarrow> anchors" where
  "anchors_empty min_match =
     \<lparr>an_tokens = [], an_min_match = min_match, an_newest = Map.empty, an_previous = [],
      an_hash = 0, an_drop_factor = foldl (\<lambda>power _. power * HASH_BASE) 1 [0..<min_match]\<rparr>"

definition anchors_new :: "u32 list \<Rightarrow> nat \<Rightarrow> anchors" where
  "anchors_new tokens min_match = foldl anchors_push (anchors_empty min_match) tokens"

text \<open>The successor chain of \<open>ends\<close>; one unit of fuel per end of the index, which the
  completeness theorem below shows to be enough.\<close>

fun anchor_chain :: "nat \<Rightarrow> anchors \<Rightarrow> u32 \<Rightarrow> nat list" where
  "anchor_chain 0 a end = []"
| "anchor_chain (Suc fuel) a end =
     (if end = NO_ANCHOR then []
      else unat end # anchor_chain fuel a (an_previous a ! (unat end - an_min_match a)))"

definition anchor_ends :: "anchors \<Rightarrow> u64 \<Rightarrow> u32 list \<Rightarrow> nat list" where
  "anchor_ends a key anchor =
     filter (\<lambda>end. take (an_min_match a) (drop (end - an_min_match a) (an_tokens a)) = anchor)
       (anchor_chain (length (an_previous a)) a
          (case an_newest a key of Some first \<Rightarrow> first | None \<Rightarrow> NO_ANCHOR))"

section \<open>The store and the session\<close>

record suffix_store =
  ss_requests :: "anchors list"
  ss_tokens :: nat

record suffix_session =
  sn_stored :: "anchors list"
  sn_current :: anchors

definition store_session :: "suffix_store \<Rightarrow> u32 list \<Rightarrow> nat \<Rightarrow> suffix_store \<times> suffix_session" where
  "store_session s prompt min_match =
     (let requests = map (\<lambda>request. if an_min_match request \<noteq> min_match
                                     then anchors_new (an_tokens request) min_match
                                     else request) (ss_requests s)
      in (s\<lparr>ss_requests := requests\<rparr>,
          \<lparr>sn_stored = rev requests, sn_current = anchors_new prompt min_match\<rparr>))"

text \<open>The trimming loop of \<open>remember\<close>, as written: with no request left and a token count
  above the bound it would not end, which is the value \<open>None\<close>.\<close>

partial_function (option) remember_trim :: "suffix_store \<Rightarrow> suffix_store option" where
  "remember_trim s =
     (if length (ss_requests s) > MAX_STORED_REQUESTS \<or> ss_tokens s > MAX_STORED_TOKENS then
        (case ss_requests s of
           [] \<Rightarrow> remember_trim s
         | removed # rest \<Rightarrow>
             remember_trim (s\<lparr>ss_requests := rest,
                              ss_tokens := ss_tokens s - length (an_tokens removed)\<rparr>))
      else Some s)"

definition remember :: "suffix_store \<Rightarrow> u32 list \<Rightarrow> suffix_store option" where
  "remember s request0 =
     (let request = (if length request0 > MAX_STORED_TOKENS
                     then drop (length request0 - MAX_STORED_TOKENS) request0
                     else request0)
      in remember_trim (s\<lparr>ss_tokens := ss_tokens s + length request,
                          ss_requests := ss_requests s @ [anchors_unindexed request]\<rparr>))"

definition default_session :: suffix_session where
  "default_session = \<lparr>sn_stored = [], sn_current = anchors_new [] 0\<rparr>"

definition session_append :: "suffix_session \<Rightarrow> u32 \<Rightarrow> suffix_session" where
  "session_append s token = s\<lparr>sn_current := anchors_push (sn_current s) token\<rparr>"

definition session_history :: "suffix_session \<Rightarrow> u32 list" where
  "session_history s = an_tokens (sn_current s)"

section \<open>Finding a draft\<close>

record lookup_draft =
  ld_tokens :: "u32 list"
  ld_match_len :: nat
  ld_occurrences :: nat

function extend_match :: "u32 list \<Rightarrow> nat \<Rightarrow> u32 list \<Rightarrow> nat \<Rightarrow> nat \<Rightarrow> nat" where
  "extend_match source end current available matched =
     (if matched < available \<and>
         source ! (end - matched - 1) = current ! (length current - matched - 1)
      then extend_match source end current available (matched + 1)
      else matched)"
  by pat_completeness auto
termination
  by (relation "measure (\<lambda>(_, _, _, available, matched). available - matched)") auto

declare extend_match.simps [simp del]

type_synonym location = "bool \<times> u32 list \<times> nat"

text \<open>What one location contributes: its match length and its continuation, or nothing
  (the four \<open>continue\<close>s).\<close>

definition location_candidate ::
  "nat \<Rightarrow> u32 list \<Rightarrow> nat \<Rightarrow> location \<Rightarrow> (nat \<times> u32 list) option" where
  "location_candidate min_match current max_drafts loc =
     (case loc of (own, source, end) \<Rightarrow>
        if end \<ge> length source \<or> (own \<and> end = length current) then None
        else
          let available = min end (length current);
              matched = extend_match source end current available min_match;
              end1 = min (end + max_drafts) (length source);
              end2 = (if own then min end1 (length current - matched) else end1)
          in if end2 \<le> end then None
             else
               (case position is_image_token (take (end2 - end) (drop end source)) of
                  Some img \<Rightarrow>
                    if img = 0 then None
                    else Some (matched, take img (drop end source))
                | None \<Rightarrow> Some (matched, take (end2 - end) (drop end source))))"

fun collect_candidates :: "(nat \<times> u32 list) option list \<Rightarrow> nat \<times> u32 list list \<Rightarrow> nat \<times> u32 list list"
where
  "collect_candidates [] acc = acc"
| "collect_candidates (None # rest) acc = collect_candidates rest acc"
| "collect_candidates (Some (matched, continuation) # rest) (best, candidates) =
     (let (best1, candidates1) =
            (if matched > best then (matched, []) else (best, candidates))
      in collect_candidates rest
           (best1, if matched = best1 then candidates1 @ [continuation] else candidates1))"

definition candidate_counts :: "u32 list list \<Rightarrow> u32 list \<Rightarrow> nat option" where
  "candidate_counts candidates =
     foldl (\<lambda>counts c. counts(c \<mapsto> (case counts c of Some n \<Rightarrow> n + 1 | None \<Rightarrow> 1)))
       Map.empty candidates"

definition choose_candidate :: "nat \<times> u32 list list \<Rightarrow> lookup_draft option" where
  "choose_candidate bc =
     (case bc of (best, candidates) \<Rightarrow>
        let counts = candidate_counts candidates in
        map_option
          (\<lambda>(index, tokens).
             \<lparr>ld_tokens = tokens, ld_match_len = best,
              ld_occurrences = (case counts tokens of Some n \<Rightarrow> n | None \<Rightarrow> 1)\<rparr>)
          (max_by_key
             (\<lambda>(index, candidate).
                (case counts candidate of Some n \<Rightarrow> n | None \<Rightarrow> 0, length candidate, index))
             (List.enumerate 0 candidates)))"

definition session_locations :: "suffix_session \<Rightarrow> u64 \<Rightarrow> u32 list \<Rightarrow> location list" where
  "session_locations s key anchor =
     concat (map (\<lambda>(own, sequence).
                    map (\<lambda>end. (own, an_tokens sequence, end)) (anchor_ends sequence key anchor))
       ((True, sn_current s) # map (Pair False) (sn_stored s)))"

definition find_draft :: "suffix_session \<Rightarrow> nat \<Rightarrow> lookup_draft option" where
  "find_draft s max_drafts =
     (let min_match = an_min_match (sn_current s);
          current = an_tokens (sn_current s) in
      if min_match = 0 \<or> max_drafts = 0 \<or> length current < min_match then None
      else
        let anchor = drop (length current - min_match) current;
            key = mix (an_hash (sn_current s))
        in choose_candidate
             (collect_candidates
               (map (location_candidate min_match current max_drafts)
                 (session_locations s key anchor))
               (0, [])))"

section \<open>Length policies\<close>

definition DEFAULT_SMALL_BATCH_MAX :: nat where "DEFAULT_SMALL_BATCH_MAX = 128"

definition fill_verify_tile :: "nat \<Rightarrow> nat \<Rightarrow> nat" where
  "fill_verify_tile depth available =
     (let rows = depth + 1 in
      if rows \<le> DEFAULT_SMALL_BATCH_MAX then depth
      else let tile = (if rows \<le> 32 then 32 else 64)
           in min available (max (tile - 1) depth))"

record lookup_policy =
  lp_limit :: nat

definition policy_new :: "nat \<Rightarrow> lookup_policy" where
  "policy_new max_drafts = \<lparr>lp_limit = min max_drafts max_lookup_drafts\<rparr>"

definition policy_depth :: "lookup_policy \<Rightarrow> nat \<Rightarrow> nat \<Rightarrow> nat" where
  "policy_depth p matched configured_max = min (min (lp_limit p) configured_max) (matched div 2)"

definition policy_observe :: "lookup_policy \<Rightarrow> nat \<Rightarrow> nat \<Rightarrow> nat \<Rightarrow> lookup_policy" where
  "policy_observe p accepted proposed configured_max =
     (if accepted = proposed
      then p\<lparr>lp_limit := min (min (lp_limit p * 2) configured_max) max_lookup_drafts\<rparr>
      else p\<lparr>lp_limit := max (max (accepted + 1) (lp_limit p div 2)) 1\<rparr>)"

section \<open>The rolling hash\<close>

text \<open>The polynomial hash the rolling hash maintains.\<close>

definition poly_hash :: "u32 list \<Rightarrow> u64" where
  "poly_hash ts = foldl (\<lambda>h t. h * HASH_BASE + (ucast t + 1)) 0 ts"

lemma poly_hash_snoc: "poly_hash (ts @ [t]) = poly_hash ts * HASH_BASE + (ucast t + 1)"
  by (simp add: poly_hash_def)

lemma poly_hash_Cons: "poly_hash (t # ts) = (ucast t + 1) * HASH_BASE ^ length ts + poly_hash ts"
proof (induction ts rule: rev_induct)
  case Nil
  then show ?case by (simp add: poly_hash_def)
next
  case (snoc x xs)
  have "poly_hash (t # xs @ [x]) = poly_hash (t # xs) * HASH_BASE + (ucast x + 1)"
    using poly_hash_snoc [of "t # xs" x] by simp
  then show ?case using snoc by (simp add: poly_hash_snoc algebra_simps)
qed

lemma drop_factor_power:
  "foldl (\<lambda>power _. power * HASH_BASE) p [0..<m] = p * HASH_BASE ^ m"
  by (induction m) (simp_all add: algebra_simps)

text \<open>The last \<open>m\<close> tokens, the anchor that ends at \<open>e\<close>, and its hash key.\<close>

definition suffix_of :: "nat \<Rightarrow> 'a list \<Rightarrow> 'a list" where
  "suffix_of m xs = drop (length xs - m) xs"

definition anchor_at :: "nat \<Rightarrow> 'a list \<Rightarrow> nat \<Rightarrow> 'a list" where
  "anchor_at m ts e = take m (drop (e - m) ts)"

abbreviation key_at :: "nat \<Rightarrow> u32 list \<Rightarrow> nat \<Rightarrow> u64" where
  "key_at m ts e \<equiv> mix (poly_hash (anchor_at m ts e))"

lemma length_anchor_at [simp]: "m \<le> e \<Longrightarrow> e \<le> length ts \<Longrightarrow> length (anchor_at m ts e) = m"
  by (simp add: anchor_at_def)

lemma anchor_at_append: "m \<le> e \<Longrightarrow> e \<le> length ts \<Longrightarrow> anchor_at m (ts @ us) e = anchor_at m ts e"
  by (simp add: anchor_at_def)

lemma anchor_at_length: "m \<le> length ts \<Longrightarrow> anchor_at m ts (length ts) = suffix_of m ts"
  by (simp add: anchor_at_def suffix_of_def)

lemma suffix_of_snoc_short: "length ts < m \<Longrightarrow> suffix_of m (ts @ [t]) = suffix_of m ts @ [t]"
  by (simp add: suffix_of_def)

lemma suffix_of_snoc_long:
  assumes "m \<le> length ts" "0 < m"
  shows "suffix_of m ts @ [t] = (ts @ [t]) ! (length ts - m) # suffix_of m (ts @ [t])"
proof -
  have l: "length ts - m < length ts" using assms by simp
  then have "drop (length ts - m) ts = ts ! (length ts - m) # drop (Suc (length ts - m)) ts"
    by (simp add: Cons_nth_drop_Suc)
  then show ?thesis using assms l by (simp add: suffix_of_def nth_append Suc_diff_le)
qed

section \<open>What the index holds\<close>

text \<open>The ends whose anchor has a key, newest first, up to a last end; the index must hold
  the head of this list for each key and, for each end, the head of the list before it.\<close>

definition keyed_ends :: "nat \<Rightarrow> u32 list \<Rightarrow> u64 \<Rightarrow> nat \<Rightarrow> nat list" where
  "keyed_ends m ts k n = rev (filter (\<lambda>e. key_at m ts e = k) [m..<Suc n])"

definition head_end :: "nat list \<Rightarrow> u32 option" where
  "head_end es = (case es of [] \<Rightarrow> None | e # _ \<Rightarrow> Some (of_nat e))"

definition anchors_wf :: "anchors \<Rightarrow> bool" where
  "anchors_wf a \<longleftrightarrow>
     (let m = an_min_match a; ts = an_tokens a; n = length ts in
      0 < m \<longrightarrow>
        an_drop_factor a = HASH_BASE ^ m \<and>
        an_hash a = poly_hash (suffix_of m ts) \<and>
        length (an_previous a) = Suc n - m \<and>
        (\<forall>k. an_newest a k = head_end (keyed_ends m ts k n)) \<and>
        (\<forall>e. m \<le> e \<and> e \<le> n \<longrightarrow>
           an_previous a ! (e - m) =
             (case head_end (keyed_ends m ts (key_at m ts e) (e - 1)) of
                Some p \<Rightarrow> p | None \<Rightarrow> NO_ANCHOR)))"

lemma keyed_ends_Suc:
  "m \<le> Suc n \<Longrightarrow>
     keyed_ends m ts k (Suc n) =
       (if key_at m ts (Suc n) = k then Suc n # keyed_ends m ts k n else keyed_ends m ts k n)"
  by (simp add: keyed_ends_def)

lemma keyed_ends_short: "n < m \<Longrightarrow> keyed_ends m ts k n = []"
  by (simp add: keyed_ends_def)

lemma keyed_ends_append:
  "n \<le> length ts \<Longrightarrow> keyed_ends m (ts @ us) k n = keyed_ends m ts k n"
  by (auto simp: keyed_ends_def anchor_at_append intro!: filter_cong)

lemma head_end_simps [simp]: "head_end [] = None" "head_end (e # es) = Some (of_nat e)"
  by (simp_all add: head_end_def)

lemma anchors_push_tokens [simp]:
  "an_tokens (anchors_push a t) = an_tokens a @ [t]"
  "an_min_match (anchors_push a t) = an_min_match a"
  by (auto simp: anchors_push_def Let_def)

lemma anchors_push_hash:
  assumes "anchors_wf a" "0 < an_min_match a"
  shows "an_hash (anchors_push a t) = poly_hash (suffix_of (an_min_match a) (an_tokens a @ [t]))"
    and "an_drop_factor (anchors_push a t) = an_drop_factor a"
proof -
  let ?m = "an_min_match a" and ?ts = "an_tokens a"
  have h: "an_hash a = poly_hash (suffix_of ?m ?ts)" and d: "an_drop_factor a = HASH_BASE ^ ?m"
    using assms by (simp_all add: anchors_wf_def Let_def)
  show "an_drop_factor (anchors_push a t) = an_drop_factor a"
    by (auto simp: anchors_push_def Let_def)
  show "an_hash (anchors_push a t) = poly_hash (suffix_of ?m (?ts @ [t]))"
  proof (cases "?m \<le> length ?ts")
    case True
    have l: "length (suffix_of ?m (?ts @ [t])) = ?m" using True by (simp add: suffix_of_def)
    have "an_hash a * HASH_BASE + (ucast t + 1) = poly_hash (suffix_of ?m ?ts @ [t])"
      by (simp add: h poly_hash_snoc)
    also have "\<dots> = (ucast ((?ts @ [t]) ! (length ?ts - ?m)) + 1) * HASH_BASE ^ ?m
                     + poly_hash (suffix_of ?m (?ts @ [t]))"
      by (subst suffix_of_snoc_long [OF True assms(2)]) (simp add: poly_hash_Cons l)
    finally show ?thesis using assms(2) True d by (simp add: anchors_push_def Let_def)
  next
    case False
    then show ?thesis using assms(2)
      by (simp add: anchors_push_def Let_def h poly_hash_snoc suffix_of_snoc_short)
  qed
qed

lemma anchors_push_wf:
  assumes wf: "anchors_wf a"
  shows "anchors_wf (anchors_push a t)"
proof (cases "an_min_match a = 0")
  case True
  then show ?thesis by (simp add: anchors_wf_def)
next
  case False
  let ?m = "an_min_match a" and ?ts = "an_tokens a" and ?a = "anchors_push a t"
  let ?n = "length ?ts"
  note W = wf [unfolded anchors_wf_def Let_def, rule_format]
  have m: "0 < ?m" using False by simp
  have hash: "an_hash ?a = poly_hash (suffix_of ?m (?ts @ [t]))"
    and drop: "an_drop_factor ?a = HASH_BASE ^ ?m"
    using anchors_push_hash [OF wf m] W m by simp_all
  have keys: "keyed_ends ?m (?ts @ [t]) k ?n = keyed_ends ?m ?ts k ?n" for k
    by (simp add: keyed_ends_append)
  have newest: "an_newest a k = head_end (keyed_ends ?m ?ts k ?n)" for k using W m by blast
  have prev: "an_previous a ! (e - ?m) =
       (case head_end (keyed_ends ?m ?ts (key_at ?m ?ts e) (e - 1)) of
          Some p \<Rightarrow> p | None \<Rightarrow> NO_ANCHOR)" if "?m \<le> e" "e \<le> ?n" for e
    using W m that by blast
  have lenp: "length (an_previous a) = Suc ?n - ?m" using W m by blast
  show ?thesis
  proof (cases "?m \<le> Suc ?n")
    case True
    let ?k = "mix (an_hash ?a)"
    have kat: "key_at ?m (?ts @ [t]) (Suc ?n) = ?k"
      using anchor_at_length [of ?m "?ts @ [t]"] True hash by simp
    have upd: "an_newest ?a = (an_newest a)(?k \<mapsto> of_nat (Suc ?n))"
      "an_previous ?a = an_previous a @
         [case an_newest a ?k of Some p \<Rightarrow> p | None \<Rightarrow> NO_ANCHOR]"
      using m True by (auto simp: anchors_push_def Let_def)
    have N: "an_newest ?a k = head_end (keyed_ends ?m (?ts @ [t]) k (Suc ?n))" for k
      using True by (simp add: upd keyed_ends_Suc kat keys newest)
    have P: "an_previous ?a ! (e - ?m) =
         (case head_end (keyed_ends ?m (?ts @ [t]) (key_at ?m (?ts @ [t]) e) (e - 1)) of
            Some p \<Rightarrow> p | None \<Rightarrow> NO_ANCHOR)" if e: "?m \<le> e" "e \<le> Suc ?n" for e
    proof (cases "e = Suc ?n")
      case True
      then show ?thesis using e by (simp add: upd kat lenp keys newest nth_append)
    next
      case False
      then have "e \<le> ?n" "e - ?m < Suc ?n - ?m" using e by simp_all
      then show ?thesis using e m
        by (simp add: upd nth_append lenp prev keyed_ends_append anchor_at_append)
    qed
    show ?thesis using hash drop N P lenp True upd(2) by (simp add: anchors_wf_def Suc_diff_le)
  next
    case False
    then have upd: "an_newest ?a = an_newest a" "an_previous ?a = an_previous a"
      by (auto simp: anchors_push_def Let_def)
    show ?thesis using hash drop lenp newest False
      by (auto simp: anchors_wf_def Let_def upd keyed_ends_short)
  qed
qed

lemma foldl_push_wf:
  "anchors_wf a \<Longrightarrow> anchors_wf (foldl anchors_push a ts)"
  by (induction ts arbitrary: a) (simp_all add: anchors_push_wf)

lemma foldl_push_tokens [simp]:
  "an_tokens (foldl anchors_push a ts) = an_tokens a @ ts"
  "an_min_match (foldl anchors_push a ts) = an_min_match a"
  by (induction ts arbitrary: a) simp_all

lemma anchors_new_wf: "anchors_wf (anchors_new ts m)"
  unfolding anchors_new_def
  by (rule foldl_push_wf)
    (auto simp: anchors_wf_def Let_def anchors_empty_def drop_factor_power suffix_of_def
      poly_hash_def keyed_ends_def)

lemma anchors_new_tokens [simp]:
  "an_tokens (anchors_new ts m) = ts" "an_min_match (anchors_new ts m) = m"
  by (simp_all add: anchors_new_def anchors_empty_def)

section \<open>The chain lists every anchor with the key\<close>

lemma keyed_ends_bounds: "e \<in> set (keyed_ends m ts k n) \<Longrightarrow> m \<le> e \<and> e \<le> n \<and> key_at m ts e = k"
  by (auto simp: keyed_ends_def)

lemma keyed_ends_tail: "keyed_ends m ts k n = e # es \<Longrightarrow> 0 < m \<Longrightarrow> es = keyed_ends m ts k (e - 1)"
proof (induction n)
  case 0
  then show ?case by (simp add: keyed_ends_short)
next
  case (Suc n)
  then show ?case
    by (cases "m \<le> Suc n") (auto simp: keyed_ends_Suc keyed_ends_short split: if_splits)
qed

lemma length_keyed_ends: "length (keyed_ends m ts k n) \<le> Suc n - m"
  unfolding keyed_ends_def length_rev
  by (rule order_trans [OF length_filter_le]) (simp del: upt_Suc)

lemma unat_small: "n < 2 ^ 32 \<Longrightarrow> unat (of_nat n :: u32) = n"
  by (simp add: unat_of_nat take_bit_nat_eq_self)

lemma of_nat_no_anchor: "n < 2 ^ 32 - 1 \<Longrightarrow> (of_nat n :: u32) \<noteq> NO_ANCHOR"
proof
  assume n: "n < 2 ^ 32 - 1" and "(of_nat n :: u32) = NO_ANCHOR"
  then have "unat (of_nat n :: u32) = unat (- 1 :: u32)" by (simp add: NO_ANCHOR_def)
  moreover have "unat (of_nat n :: u32) = n" using n by (intro unat_small) simp
  moreover have "unat (- 1 :: u32) = 2 ^ 32 - 1" by (simp add: unsigned_minus_1_eq_mask mask_eq_exp_minus_1)
  ultimately show False using n by simp
qed

lemma anchor_chain_keyed:
  assumes wf: "anchors_wf a" and m: "0 < an_min_match a"
    and small: "length (an_tokens a) < 2 ^ 32 - 1" and n: "n \<le> length (an_tokens a)"
    and fuel: "length (keyed_ends (an_min_match a) (an_tokens a) k n) \<le> fuel"
  shows "anchor_chain fuel a
      (case head_end (keyed_ends (an_min_match a) (an_tokens a) k n) of
         Some p \<Rightarrow> p | None \<Rightarrow> NO_ANCHOR)
    = keyed_ends (an_min_match a) (an_tokens a) k n"
  using n fuel
proof (induction fuel arbitrary: n)
  case 0
  then show ?case by simp
next
  case (Suc fuel)
  let ?m = "an_min_match a" and ?ts = "an_tokens a"
  show ?case
  proof (cases "keyed_ends ?m ?ts k n")
    case Nil
    then show ?thesis by simp
  next
    case (Cons e es)
    have e: "?m \<le> e" "e \<le> n" "key_at ?m ?ts e = k"
      using keyed_ends_bounds [of e ?m ?ts k n] Cons by auto
    have es: "es = keyed_ends ?m ?ts k (e - 1)" using keyed_ends_tail Cons m by blast
    have le: "e < 2 ^ 32 - 1" using e Suc.prems small by linarith
    have u: "unat (of_nat e :: u32) = e" using le by (intro unat_small) simp
    have "an_previous a ! (e - ?m) =
        (case head_end (keyed_ends ?m ?ts k (e - 1)) of Some p \<Rightarrow> p | None \<Rightarrow> NO_ANCHOR)"
      using wf m e Suc.prems by (simp add: anchors_wf_def Let_def)
    moreover have "anchor_chain fuel a
        (case head_end (keyed_ends ?m ?ts k (e - 1)) of Some p \<Rightarrow> p | None \<Rightarrow> NO_ANCHOR)
        = keyed_ends ?m ?ts k (e - 1)"
      using Suc.prems Cons e es by (intro Suc.IH) auto
    ultimately show ?thesis using Cons es of_nat_no_anchor [OF le] u by simp
  qed
qed

text \<open>Every place an anchor occurs, by an exhaustive scan, newest first.\<close>

definition occurrences :: "u32 list \<Rightarrow> u32 list \<Rightarrow> nat list" where
  "occurrences ts anchor =
     rev (filter (\<lambda>e. anchor_at (length anchor) ts e = anchor) [length anchor..<Suc (length ts)])"

lemma anchor_ends_occurrences:
  assumes "anchors_wf a" "0 < an_min_match a" "length (an_tokens a) < 2 ^ 32 - 1"
    "length anchor = an_min_match a"
  shows "anchor_ends a (mix (poly_hash anchor)) anchor = occurrences (an_tokens a) anchor"
proof -
  let ?m = "an_min_match a" and ?ts = "an_tokens a" and ?k = "mix (poly_hash anchor)"
  have "an_newest a ?k = head_end (keyed_ends ?m ?ts ?k (length ?ts))"
    and "length (an_previous a) = Suc (length ?ts) - ?m"
    using assms by (simp_all add: anchors_wf_def Let_def)
  then have "anchor_ends a ?k anchor =
      filter (\<lambda>e. anchor_at ?m ?ts e = anchor) (keyed_ends ?m ?ts ?k (length ?ts))"
    using anchor_chain_keyed [OF assms(1-3) le_refl, of ?k] length_keyed_ends
    by (simp add: anchor_ends_def anchor_at_def)
  also have "\<dots> = occurrences ?ts anchor"
    unfolding keyed_ends_def occurrences_def assms(4) rev_filter filter_filter
    by (rule filter_cong) auto
  finally show ?thesis .
qed

section \<open>Lookup by exhaustive scan\<close>

text \<open>The specification of the lookup, over token lists only: the same choice among the
  candidates of every occurrence of the anchor, found by scanning every position.\<close>

definition find_scan :: "nat \<Rightarrow> u32 list \<Rightarrow> u32 list list \<Rightarrow> nat \<Rightarrow> lookup_draft option" where
  "find_scan m current stored k =
     (if m = 0 \<or> k = 0 \<or> length current < m then None
      else choose_candidate (collect_candidates
        (map (location_candidate m current k)
          (concat (map (\<lambda>(own, ts). map (\<lambda>e. (own, ts, e)) (occurrences ts (suffix_of m current)))
            ((True, current) # map (Pair False) stored))))
        (0, [])))"

text \<open>What the lookup relies on of an index, whatever its layout.\<close>

locale anchor_index =
  fixes tokens :: "'i \<Rightarrow> u32 list"
    and indexed :: "nat \<Rightarrow> 'i \<Rightarrow> bool"
    and ends :: "'i \<Rightarrow> u32 list \<Rightarrow> nat list"
  assumes ends_occurrences:
    "indexed (length anchor) i \<Longrightarrow> ends i anchor = occurrences (tokens i) anchor"
begin

lemma locations_scan:
  assumes "\<forall>(own, i) \<in> set is. indexed (length anchor) i"
  shows "concat (map (\<lambda>(own, i). map (\<lambda>e. (own, tokens i, e)) (ends i anchor)) is) =
    concat (map (\<lambda>(own, ts). map (\<lambda>e. (own, ts, e)) (occurrences ts anchor))
      (map (map_prod id tokens) is))"
  using assms by (induction "is") (auto simp: ends_occurrences)

lemma ends_sound:
  assumes "indexed (length anchor) i" "e \<in> set (ends i anchor)"
  shows "length anchor \<le> e \<and> e \<le> length (tokens i) \<and> anchor_at (length anchor) (tokens i) e = anchor"
  using assms by (auto simp: ends_occurrences occurrences_def)

lemma ends_newest_first:
  "indexed (length anchor) i \<Longrightarrow> sorted_wrt (>) (ends i anchor)"
  by (simp add: ends_occurrences occurrences_def sorted_wrt_rev sorted_wrt_filter del: upt_Suc)

end

definition indexed_for :: "nat \<Rightarrow> anchors \<Rightarrow> bool" where
  "indexed_for m a \<longleftrightarrow>
     anchors_wf a \<and> 0 < m \<and> an_min_match a = m \<and> length (an_tokens a) < 2 ^ 32 - 1"

interpretation rolling: anchor_index an_tokens indexed_for
  "\<lambda>a anchor. anchor_ends a (mix (poly_hash anchor)) anchor"
  by unfold_locales (simp add: anchor_ends_occurrences indexed_for_def)

definition session_ok :: "nat \<Rightarrow> suffix_session \<Rightarrow> bool" where
  "session_ok m s \<longleftrightarrow>
     an_min_match (sn_current s) = m \<and> anchors_wf (sn_current s) \<and>
     length (an_tokens (sn_current s)) < 2 ^ 32 - 1 \<and>
     (0 < m \<longrightarrow> list_all (indexed_for m) (sn_stored s))"

lemma find_draft_scan:
  assumes ok: "session_ok m s"
  shows "find_draft s k =
    find_scan m (an_tokens (sn_current s)) (map an_tokens (sn_stored s)) k"
proof (cases "m = 0 \<or> k = 0 \<or> length (an_tokens (sn_current s)) < m")
  case True
  then show ?thesis using ok by (auto simp: find_draft_def find_scan_def session_ok_def Let_def)
next
  case False
  let ?c = "an_tokens (sn_current s)"
  let ?anchor = "suffix_of m ?c"
  have len: "length ?anchor = m" using False by (simp add: suffix_of_def)
  have key: "mix (an_hash (sn_current s)) = mix (poly_hash ?anchor)"
    using ok False by (simp add: session_ok_def anchors_wf_def Let_def)
  have "\<forall>(own, i) \<in> set ((True, sn_current s) # map (Pair False) (sn_stored s)).
          indexed_for (length ?anchor) i"
    using ok False len by (auto simp: session_ok_def indexed_for_def list_all_iff)
  from rolling.locations_scan [OF this]
  have "session_locations s (mix (poly_hash ?anchor)) ?anchor =
      concat (map (\<lambda>(own, ts). map (\<lambda>e. (own, ts, e)) (occurrences ts ?anchor))
        ((True, ?c) # map (Pair False) (map an_tokens (sn_stored s))))"
    by (simp add: session_locations_def comp_def)
  then show ?thesis using False ok key
    by (simp add: find_draft_def find_scan_def session_ok_def Let_def suffix_of_def)
qed

section \<open>Matches\<close>

text \<open>The last \<open>l\<close> tokens of \<open>current\<close> end at \<open>e\<close> in \<open>source\<close>.\<close>

definition matches :: "u32 list \<Rightarrow> nat \<Rightarrow> u32 list \<Rightarrow> nat \<Rightarrow> bool" where
  "matches source e current l \<longleftrightarrow>
     l \<le> e \<and> e \<le> length source \<and> l \<le> length current \<and>
     (\<forall>i < l. source ! (e - i - 1) = current ! (length current - i - 1))"

lemma matches_anchor:
  assumes "m \<le> e" "e \<le> length source" "m \<le> length current"
  shows "matches source e current m \<longleftrightarrow> anchor_at m source e = suffix_of m current"
proof
  assume M: "matches source e current m"
  show "anchor_at m source e = suffix_of m current"
  proof (rule nth_equalityI)
    show "length (anchor_at m source e) = length (suffix_of m current)"
      using assms by (simp add: suffix_of_def)
    fix i assume "i < length (anchor_at m source e)"
    then have i: "i < m" using assms by simp
    have "source ! (e - (m - i - 1) - 1) = current ! (length current - (m - i - 1) - 1)"
      using M i unfolding matches_def by (meson diff_less_Suc diff_less zero_less_one le_less_trans
          diff_le_self less_le_trans zero_less_diff)
    moreover have "e - (m - i - 1) - 1 = e - m + i"
      "length current - (m - i - 1) - 1 = length current - m + i"
      using i assms by linarith+
    ultimately show "anchor_at m source e ! i = suffix_of m current ! i"
      using i assms by (simp add: anchor_at_def suffix_of_def)
  qed
next
  assume A: "anchor_at m source e = suffix_of m current"
  show "matches source e current m" unfolding matches_def
  proof (intro conjI allI impI assms)
    fix i assume i: "i < m"
    have "anchor_at m source e ! (m - i - 1) = suffix_of m current ! (m - i - 1)"
      using A by simp
    moreover have "e - m + (m - i - 1) = e - i - 1"
      "length current - m + (m - i - 1) = length current - i - 1"
      using i assms by linarith+
    ultimately show "source ! (e - i - 1) = current ! (length current - i - 1)"
      using i assms by (simp add: anchor_at_def suffix_of_def)
  qed
qed

lemma matches_Suc:
  "matches source e current l \<Longrightarrow> l < e \<Longrightarrow> l < length current \<Longrightarrow>
   source ! (e - l - 1) = current ! (length current - l - 1) \<Longrightarrow> matches source e current (Suc l)"
  by (auto simp: matches_def less_Suc_eq)

lemma matches_mono: "matches source e current l \<Longrightarrow> l' \<le> l \<Longrightarrow> matches source e current l'"
  by (auto simp: matches_def)

text \<open>The extension loop finds the longest match that ends at \<open>e\<close>.\<close>

lemma extend_match_longest:
  assumes "matches source e current l" "available = min e (length current)"
  shows "matches source e current (extend_match source e current available l) \<and>
    l \<le> extend_match source e current available l \<and>
    (\<forall>l'. matches source e current l' \<longrightarrow> l' \<le> extend_match source e current available l)"
  using assms
proof (induction source e current available l rule: extend_match.induct)
  case (1 source e current available l)
  show ?case
  proof (cases "l < available \<and> source ! (e - l - 1) = current ! (length current - l - 1)")
    case True
    then have "matches source e current (l + 1)" using 1 by (simp add: matches_Suc)
    then show ?thesis using 1 True by (subst (1 2 3) extend_match.simps) force
  next
    case False
    have "l' \<le> l" if "matches source e current l'" for l'
    proof (rule ccontr)
      assume "\<not> l' \<le> l"
      then have "l < l'" by simp
      then show False using that False 1(3) by (auto simp: matches_def)
    qed
    then show ?thesis using 1 False by (subst (1 2 3) extend_match.simps) auto
  qed
qed

section \<open>Candidates\<close>

text \<open>A continuation the verifier may be given: it follows a match of length \<open>l\<close>, has at
  most \<open>k\<close> tokens and no image token.\<close>

definition continuation_of :: "u32 list \<Rightarrow> u32 list \<Rightarrow> nat \<Rightarrow> nat \<Rightarrow> u32 list \<Rightarrow> bool" where
  "continuation_of source current k l c \<longleftrightarrow>
     (\<exists>e. matches source e current l \<and> prefix c (drop e source) \<and> c \<noteq> [] \<and> length c \<le> k \<and>
          (\<forall>t \<in> set c. \<not> is_image_token t))"

lemma location_candidate_sound:
  assumes "matches source e current m"
    and "location_candidate m current k (own, source, e) = Some (l, c)"
  shows "m \<le> l" "continuation_of source current k l c"
    "matches source e current l' \<Longrightarrow> l' \<le> l"
proof -
  define l0 where "l0 = extend_match source e current (min e (length current)) m"
  define e1 where "e1 = min (e + k) (length source)"
  define e2 where "e2 = (if own then min e1 (length current - l0) else e1)"
  have ext: "matches source e current l0" "m \<le> l0" "\<And>l'. matches source e current l' \<Longrightarrow> l' \<le> l0"
    using extend_match_longest [OF assms(1) refl] by (auto simp: l0_def)
  have e2: "e2 \<le> e + k" "e2 \<le> length source" by (auto simp: e2_def e1_def)
  have eq: "location_candidate m current k (own, source, e) =
      (if e \<ge> length source \<or> (own \<and> e = length current) then None
       else if e2 \<le> e then None
       else case position is_image_token (take (e2 - e) (drop e source)) of
          Some img \<Rightarrow> if img = 0 then None else Some (l0, take img (drop e source))
        | None \<Rightarrow> Some (l0, take (e2 - e) (drop e source)))"
    by (simp only: location_candidate_def Let_def l0_def e1_def e2_def prod.case)
  have C: "e < e2 \<and> l = l0 \<and> (\<exists>n. n \<le> e2 - e \<and> 0 < n \<and> c = take n (drop e source) \<and>
      (\<forall>t \<in> set c. \<not> is_image_token t))"
  proof (cases "position is_image_token (take (e2 - e) (drop e source))")
    case None
    then have "e < e2 \<and> l = l0 \<and> c = take (e2 - e) (drop e source)"
      using assms(2) by (auto simp: eq split: if_splits)
    then show ?thesis using None unfolding position_None by (metis order_refl zero_less_diff)
  next
    case (Some img)
    then have R: "e < e2 \<and> l = l0 \<and> 0 < img \<and> c = take img (drop e source)"
      using assms(2) by (auto simp: eq split: if_splits)
    have "img < e2 - e" using position_SomeD(1) [OF Some] by simp
    moreover have "\<not> is_image_token t" if t: "t \<in> set c" for t
    proof -
      obtain i where "i < img" "t = take (e2 - e) (drop e source) ! i"
        using t R \<open>img < e2 - e\<close> unfolding in_set_conv_nth by auto
      then show ?thesis using position_SomeD(3) [OF Some] by blast
    qed
    ultimately show ?thesis using R by (metis less_imp_le)
  qed
  then obtain n where n: "n \<le> e2 - e" "0 < n" "c = take n (drop e source)" by blast
  have "prefix c (drop e source)" by (simp add: n take_is_prefix)
  moreover have "c \<noteq> []" "length c \<le> k" using n C e2 by auto
  ultimately show "continuation_of source current k l c"
    using ext(1) C unfolding continuation_of_def by blast
  show "m \<le> l" "matches source e current l' \<Longrightarrow> l' \<le> l" using C ext by blast+
qed

lemma location_candidate_stored:
  assumes "e < length source" "0 < k" "\<not> is_image_token (source ! e)"
  shows "\<exists>c. location_candidate m current k (False, source, e) =
    Some (extend_match source e current (min e (length current)) m, c)"
proof -
  let ?w = "take (min (e + k) (length source) - e) (drop e source)"
  have e2: "\<not> min (e + k) (length source) \<le> e" using assms by simp
  have "position is_image_token ?w \<noteq> Some 0"
    using assms e2 by (auto simp: position_Some)
  then show ?thesis using assms e2
    by (cases "position is_image_token ?w") (simp_all add: location_candidate_def Let_def)
qed

definition somes :: "'a option list \<Rightarrow> 'a list" where
  "somes xs = List.map_filter id xs"

lemma somes_simps [simp]:
  "somes [] = []" "somes (None # xs) = somes xs" "somes (Some x # xs) = x # somes xs"
  by (simp_all add: somes_def List.map_filter_def)

lemma set_somes: "set (somes xs) = {x. Some x \<in> set xs}"
  by (auto simp: somes_def List.map_filter_def intro!: image_eqI)

text \<open>The loop over the locations keeps the candidates of greatest match length.\<close>

lemma foldl_max_ge: "b \<le> foldl max (b::nat) xs"
  by (induction xs arbitrary: b) (auto intro: order_trans [rotated] max.cobounded1)

lemma foldl_max_mem: "x \<in> set xs \<Longrightarrow> x \<le> foldl max (b::nat) xs"
proof (induction xs arbitrary: b)
  case Nil
  then show ?case by simp
next
  case (Cons y ys)
  then show ?case using foldl_max_ge [of "max b y" ys] by auto
qed

lemma collect_candidates_best:
  "collect_candidates xs (b, cs) =
     (let best = foldl max b (map fst (somes xs)) in
      (best, (if best = b then cs else []) @ map snd (filter (\<lambda>p. fst p = best) (somes xs))))"
proof (induction xs arbitrary: b cs)
  case Nil
  then show ?case by simp
next
  case (Cons x xs)
  show ?case
  proof (cases x)
    case None
    then show ?thesis using Cons by simp
  next
    case (Some p)
    obtain l c where p: "p = (l, c)" by (cases p)
    show ?thesis
    proof (cases "b < l")
      case True
      then have "max b l = l" by simp
      then show ?thesis using True foldl_max_ge [of l "map fst (somes xs)"]
        by (simp add: Some p Cons Let_def)
    next
      case False
      then have "max b l = b" by simp
      then show ?thesis using False foldl_max_ge [of b "map fst (somes xs)"]
        by (auto simp: Some p Cons Let_def)
    qed
  qed
qed

lemma candidate_counts_list:
  "candidate_counts cs c = (if c \<in> set cs then Some (count_list cs c) else None)"
proof (induction cs rule: rev_induct)
  case Nil
  then show ?case by (simp add: candidate_counts_def)
next
  case (snoc x xs)
  have "candidate_counts (xs @ [x]) c =
      ((candidate_counts xs)(x \<mapsto> (case candidate_counts xs x of Some n \<Rightarrow> n + 1 | None \<Rightarrow> 1))) c"
    by (simp add: candidate_counts_def)
  moreover have "candidate_counts xs x = (if x \<in> set xs then Some (count_list xs x) else None)"
    if "x = c" using snoc that by simp
  ultimately show ?case using snoc by (auto simp: count_notin)
qed

lemma choose_candidate_None: "choose_candidate (b, cs) = None \<longleftrightarrow> cs = []"
  by (simp add: choose_candidate_def Let_def enumerate_eq_zip)

lemma choose_candidate_SomeD:
  assumes "choose_candidate (b, cs) = Some d"
  shows "ld_match_len d = b" "ld_tokens d \<in> set cs"
    "ld_occurrences d = count_list cs (ld_tokens d)"
    "c \<in> set cs \<Longrightarrow> (count_list cs c, length c) \<le> (ld_occurrences d, length (ld_tokens d))"
proof -
  let ?key = "\<lambda>(i, c). (case candidate_counts cs c of Some n \<Rightarrow> n | None \<Rightarrow> 0, length c, i :: nat)"
  obtain i t where m: "max_by_key ?key (List.enumerate 0 cs) = Some (i, t)"
    and d: "d = \<lparr>ld_tokens = t, ld_match_len = b,
      ld_occurrences = (case candidate_counts cs t of Some n \<Rightarrow> n | None \<Rightarrow> 1)\<rparr>"
    using assms by (auto simp: choose_candidate_def Let_def)
  have t: "t \<in> set cs" using max_by_key_SomeD(1) [OF m] by (auto simp: in_set_enumerate_eq)
  then show "ld_match_len d = b" "ld_tokens d \<in> set cs"
    "ld_occurrences d = count_list cs (ld_tokens d)"
    by (simp_all add: d candidate_counts_list)
  assume "c \<in> set cs"
  then obtain j where "j < length cs" "cs ! j = c" by (auto simp: in_set_conv_nth)
  then have "(j, c) \<in> set (List.enumerate 0 cs)" by (auto simp: in_set_enumerate_eq)
  from max_by_key_SomeD(2) [OF m this]
  show "(count_list cs c, length c) \<le> (ld_occurrences d, length (ld_tokens d))"
    using t \<open>c \<in> set cs\<close> by (auto simp: d candidate_counts_list less_eq_prod_def less_prod_def)
qed

section \<open>The lookup is sound and finds the longest match\<close>

lemma find_scan_cases:
  assumes "m \<noteq> 0" "k \<noteq> 0" "m \<le> length current"
  obtains best cs where
    "find_scan m current stored k = choose_candidate (best, cs)"
    "\<And>c. c \<in> set cs \<Longrightarrow> \<exists>source \<in> insert current (set stored).
       m \<le> best \<and> continuation_of source current k best c"
    "\<And>source e l. source \<in> set stored \<Longrightarrow> e < length source \<Longrightarrow> \<not> is_image_token (source ! e) \<Longrightarrow>
       matches source e current l \<Longrightarrow> m \<le> l \<Longrightarrow> l \<le> best \<and> cs \<noteq> []"
proof -
  let ?anchor = "suffix_of m current"
  define locs where "locs = concat (map (\<lambda>(own, ts). map (\<lambda>e. (own, ts, e)) (occurrences ts ?anchor))
            ((True, current) # map (Pair False) stored))"
  define found where "found = somes (map (location_candidate m current k) locs)"
  define best where "best = foldl max 0 (map fst found)"
  define cs where "cs = map snd (filter (\<lambda>p. fst p = best) found)"
  have len: "length ?anchor = m" using assms by (simp add: suffix_of_def)
  have occ: "e \<in> set (occurrences ts ?anchor) \<longleftrightarrow> matches ts e current m" for ts e
  proof -
    have "e \<in> set (occurrences ts ?anchor) \<longleftrightarrow> m \<le> e \<and> e \<le> length ts \<and> anchor_at m ts e = ?anchor"
      by (auto simp: occurrences_def len)
    then show ?thesis using matches_anchor [of m e ts current] assms(3) matches_def by metis
  qed
  have locs: "(own, ts, e) \<in> set locs \<longleftrightarrow>
      matches ts e current m \<and> (own \<and> ts = current \<or> \<not> own \<and> ts \<in> set stored)" for own ts e
    by (auto simp: locs_def occ image_iff)
  have eq: "find_scan m current stored k = choose_candidate (best, cs)"
    using assms
    unfolding find_scan_def locs_def [symmetric] collect_candidates_best Let_def
      found_def [symmetric] best_def [symmetric]
    by (simp add: cs_def)
  have sound: "\<exists>source \<in> insert current (set stored). m \<le> best \<and> continuation_of source current k best c"
    if c: "c \<in> set cs" for c
  proof -
    obtain own ts e where "(own, ts, e) \<in> set locs"
      "location_candidate m current k (own, ts, e) = Some (best, c)"
      using c by (auto simp: cs_def found_def set_somes image_iff)
    then show ?thesis using location_candidate_sound [of ts e current m k own best c] locs by blast
  qed
  have longest: "l \<le> best \<and> cs \<noteq> []"
    if s: "source \<in> set stored" "e < length source" "\<not> is_image_token (source ! e)"
      "matches source e current l" "m \<le> l" for source e l
  proof -
    have M: "matches source e current m" using matches_mono s by blast
    obtain l0 c where c: "location_candidate m current k (False, source, e) = Some (l0, c)"
      using location_candidate_stored [of e source k] s assms by blast
    then have "l \<le> l0" using location_candidate_sound(3) [OF M c] s by blast
    moreover have "(l0, c) \<in> set found" using c M s locs
      by (force simp: found_def set_somes image_iff)
    then have "l0 \<in> fst ` set found" "found \<noteq> []" by force+
    moreover have "best \<in> set (map fst found)"
    proof -
      have "foldl max b xs = b \<or> foldl max b xs \<in> set xs" for b :: nat and xs
        by (induction xs arbitrary: b) (auto simp: max_def)
      moreover have "0 < best" using \<open>l \<le> l0\<close> \<open>l0 \<in> fst ` set found\<close> s(5) assms(1)
          foldl_max_mem [of l0 "map fst found" 0] by (simp add: best_def)
      ultimately show ?thesis unfolding best_def by (metis less_irrefl)
    qed
    ultimately show ?thesis using foldl_max_mem [of l0 "map fst found" 0]
      by (auto simp: best_def [symmetric] cs_def filter_empty_conv)
  qed
  show ?thesis using that eq sound longest by blast
qed

lemma find_scan_sound:
  assumes "find_scan m current stored k = Some d"
  shows "\<exists>source \<in> insert current (set stored).
     continuation_of source current k (ld_match_len d) (ld_tokens d)"
    and "m \<le> ld_match_len d" "1 \<le> ld_occurrences d"
proof -
  have "m \<noteq> 0" "k \<noteq> 0" "m \<le> length current" using assms by (auto simp: find_scan_def split: if_splits)
  then obtain best cs where
    *: "find_scan m current stored k = choose_candidate (best, cs)"
    "\<And>c. c \<in> set cs \<Longrightarrow> \<exists>source \<in> insert current (set stored).
       m \<le> best \<and> continuation_of source current k best c"
    using find_scan_cases [of m k current stored] by metis
  have d: "choose_candidate (best, cs) = Some d" using assms *(1) by simp
  note D = choose_candidate_SomeD [OF d]
  show "\<exists>source \<in> insert current (set stored).
     continuation_of source current k (ld_match_len d) (ld_tokens d)" "m \<le> ld_match_len d"
    using *(2) [OF D(2)] D(1) by auto
  show "1 \<le> ld_occurrences d" using D(2,3) by (simp add: Suc_le_eq count_list_0_iff neq0_conv [symmetric])
qed

lemma find_scan_longest:
  assumes "source \<in> set stored" "matches source e current l" "m \<le> l" "0 < m" "0 < k"
    "e < length source" "\<not> is_image_token (source ! e)"
  shows "\<exists>d. find_scan m current stored k = Some d \<and> l \<le> ld_match_len d"
proof -
  have "m \<le> length current" using assms by (auto simp: matches_def)
  then obtain best cs where
    *: "find_scan m current stored k = choose_candidate (best, cs)" "l \<le> best" "cs \<noteq> []"
    using find_scan_cases [of m k current stored] assms by (metis neq0_conv)
  then obtain d where "choose_candidate (best, cs) = Some d"
    using choose_candidate_None by blast
  then show ?thesis using * choose_candidate_SomeD(1) by metis
qed

section \<open>The store\<close>

text \<open>The store's invariant: the token count is exact and both bounds hold; a request is
  either not indexed yet or correctly indexed for its own anchor length.\<close>

definition store_tokens :: "anchors list \<Rightarrow> nat" where
  "store_tokens requests = sum_list (map (length \<circ> an_tokens) requests)"

definition store_ok :: "suffix_store \<Rightarrow> bool" where
  "store_ok s \<longleftrightarrow>
     ss_tokens s = store_tokens (ss_requests s) \<and>
     length (ss_requests s) \<le> MAX_STORED_REQUESTS \<and> ss_tokens s \<le> MAX_STORED_TOKENS \<and>
     (\<forall>r \<in> set (ss_requests s). an_min_match r = usize_max \<or> anchors_wf r)"

lemma remember_trim_bounds:
  assumes "ss_tokens s = store_tokens (ss_requests s)"
  shows "\<exists>s' dropped. remember_trim s = Some s' \<and> ss_requests s = dropped @ ss_requests s' \<and>
    ss_tokens s' = store_tokens (ss_requests s') \<and>
    length (ss_requests s') \<le> MAX_STORED_REQUESTS \<and> ss_tokens s' \<le> MAX_STORED_TOKENS \<and>
    (dropped \<noteq> [] \<longrightarrow> length (last dropped # ss_requests s') > MAX_STORED_REQUESTS \<or>
       store_tokens (last dropped # ss_requests s') > MAX_STORED_TOKENS)"
  using assms
proof (induction "ss_requests s" arbitrary: s)
  case Nil
  then show ?case
    by (subst remember_trim.simps)
      (simp add: store_tokens_def MAX_STORED_REQUESTS_def MAX_STORED_TOKENS_def)
next
  case (Cons r rs)
  note rs = Cons.hyps(2) [symmetric]
  show ?case
  proof (cases "length (ss_requests s) > MAX_STORED_REQUESTS \<or> ss_tokens s > MAX_STORED_TOKENS")
    case True
    let ?s = "s\<lparr>ss_requests := rs, ss_tokens := ss_tokens s - length (an_tokens r)\<rparr>"
    have step: "remember_trim s = remember_trim ?s"
      by (subst remember_trim.simps) (use True rs in simp)
    have rq: "ss_requests ?s = rs" by simp
    have tok: "ss_tokens ?s = store_tokens (ss_requests ?s)"
      using Cons.prems rs by (simp add: store_tokens_def)
    obtain s' dropped where ih:
      "remember_trim ?s = Some s'" "rs = dropped @ ss_requests s'"
      "ss_tokens s' = store_tokens (ss_requests s')"
      "length (ss_requests s') \<le> MAX_STORED_REQUESTS" "ss_tokens s' \<le> MAX_STORED_TOKENS"
      "dropped \<noteq> [] \<longrightarrow> length (last dropped # ss_requests s') > MAX_STORED_REQUESTS \<or>
         store_tokens (last dropped # ss_requests s') > MAX_STORED_TOKENS"
      using Cons.hyps(1) [OF rq [symmetric] tok, unfolded rq] by blast
    have "remember_trim s = Some s' \<and> ss_requests s = (r # dropped) @ ss_requests s' \<and>
        (length (last (r # dropped) # ss_requests s') > MAX_STORED_REQUESTS \<or>
         store_tokens (last (r # dropped) # ss_requests s') > MAX_STORED_TOKENS)"
      using ih step rs True Cons.prems by (cases dropped) auto
    then show ?thesis using ih by blast
  next
    case False
    then have "remember_trim s = Some s" by (subst remember_trim.simps) simp
    then show ?thesis using Cons.prems False by auto
  qed
qed

lemma remember_returns:
  assumes "store_ok s"
  shows "\<exists>s'. remember s request = Some s' \<and> store_ok s' \<and> ss_requests s' \<noteq> [] \<and>
    suffix (ss_requests s') (ss_requests s @ [anchors_unindexed (suffix_of MAX_STORED_TOKENS request)])"
proof -
  let ?r = "suffix_of MAX_STORED_TOKENS request"
  let ?s = "s\<lparr>ss_tokens := ss_tokens s + length ?r,
              ss_requests := ss_requests s @ [anchors_unindexed ?r]\<rparr>"
  have r: "remember s request = remember_trim ?s"
    by (auto simp: remember_def Let_def suffix_of_def)
  have t: "ss_tokens ?s = store_tokens (ss_requests ?s)"
    using assms by (simp add: store_ok_def store_tokens_def anchors_unindexed_def)
  obtain s' dropped where s': "remember_trim ?s = Some s'"
    "ss_requests ?s = dropped @ ss_requests s'" "ss_tokens s' = store_tokens (ss_requests s')"
    "length (ss_requests s') \<le> MAX_STORED_REQUESTS" "ss_tokens s' \<le> MAX_STORED_TOKENS"
    "dropped \<noteq> [] \<longrightarrow> length (last dropped # ss_requests s') > MAX_STORED_REQUESTS \<or>
       store_tokens (last dropped # ss_requests s') > MAX_STORED_TOKENS"
    using remember_trim_bounds [OF t] by blast
  have "length ?r \<le> MAX_STORED_TOKENS" by (simp add: suffix_of_def)
  then have "ss_requests s' \<noteq> []" using s'(2,6)
    by (auto simp: store_tokens_def MAX_STORED_REQUESTS_def anchors_unindexed_def)
  have "set (ss_requests s') \<subseteq> set (ss_requests s) \<union> {anchors_unindexed ?r}"
    using arg_cong [OF s'(2), of set] by auto
  then have "\<forall>a \<in> set (ss_requests s'). an_min_match a = usize_max \<or> anchors_wf a"
    using assms by (auto simp: store_ok_def anchors_unindexed_def)
  then have "store_ok s'" using s' by (simp add: store_ok_def)
  moreover have "suffix (ss_requests s') (ss_requests s @ [anchors_unindexed ?r])"
    using s'(2) by (simp add: suffix_def)
  ultimately show ?thesis using r s'(1) \<open>ss_requests s' \<noteq> []\<close> by auto
qed

lemma store_session_ok:
  assumes "store_ok s" "store_session s prompt m = (s', n)" "m < usize_max"
    "length prompt < 2 ^ 32 - 1"
  shows "store_ok s'" "session_ok m n" "map an_tokens (ss_requests s') = map an_tokens (ss_requests s)"
    "map an_tokens (sn_stored n) = rev (map an_tokens (ss_requests s))" "session_history n = prompt"
proof -
  let ?f = "\<lambda>r. if an_min_match r \<noteq> m then anchors_new (an_tokens r) m else r"
  have s': "s' = s\<lparr>ss_requests := map ?f (ss_requests s)\<rparr>"
    and n: "n = \<lparr>sn_stored = rev (map ?f (ss_requests s)), sn_current = anchors_new prompt m\<rparr>"
    using assms(2) by (auto simp: store_session_def Let_def)
  have tok [simp]: "an_tokens (?f r) = an_tokens r" "an_min_match (?f r) = m" for r by simp_all
  have wf: "anchors_wf (?f r)" if "r \<in> set (ss_requests s)" for r
    using assms(1,3) that by (auto simp: store_ok_def anchors_new_wf)
  have small: "length (an_tokens r) \<le> MAX_STORED_TOKENS" if "r \<in> set (ss_requests s)" for r
    using assms(1) member_le_sum_list [of "length (an_tokens r)" "map (length \<circ> an_tokens) (ss_requests s)"]
      that by (auto simp: store_ok_def store_tokens_def)
  show "map an_tokens (ss_requests s') = map an_tokens (ss_requests s)"
    "map an_tokens (sn_stored n) = rev (map an_tokens (ss_requests s))" "session_history n = prompt"
    by (simp_all add: s' n rev_map session_history_def)
  have "store_tokens (map ?f (ss_requests s)) = store_tokens (ss_requests s)"
    unfolding store_tokens_def map_map comp_def tok ..
  then show "store_ok s'" using assms(1) wf by (auto simp: store_ok_def s' anchors_new_wf simp del: tok)
  show "session_ok m n" using assms(4) wf small
    by (fastforce simp: session_ok_def n anchors_new_wf list_all_iff indexed_for_def
        MAX_STORED_TOKENS_def simp del: tok)
qed

lemma session_append_ok:
  assumes "session_ok m n" "length (session_history n) + length out < 2 ^ 32 - 1"
  shows "session_ok m (foldl session_append n out)"
    and "session_history (foldl session_append n out) = session_history n @ out"
    and "sn_stored (foldl session_append n out) = sn_stored n"
  using assms
  by (induction out arbitrary: n)
    (simp_all add: session_append_def session_ok_def session_history_def anchors_push_wf)

lemma lookup_scan:
  assumes "store_ok s" "m < usize_max" "length prompt + length out < 2 ^ 32 - 1"
  shows "find_draft (foldl session_append (snd (store_session s prompt m)) out) k =
    find_scan m (prompt @ out) (rev (map an_tokens (ss_requests s))) k"
proof -
  obtain s' n where n: "store_session s prompt m = (s', n)" by (cases "store_session s prompt m")
  note S = store_session_ok [OF assms(1) n assms(2)]
  have out: "length (session_history n) + length out < 2 ^ 32 - 1" using S(5) assms(3) by simp
  note A = session_append_ok [OF S(2) out]
  show ?thesis using find_draft_scan [OF A(1)] A S assms(3) n by (simp add: session_history_def)
qed

lemma find_scan_example:
  "find_scan 2 [7, 1, 2] [[1, 2, 3, 4]] 2 =
   Some \<lparr>ld_tokens = [3, 4], ld_match_len = 2, ld_occurrences = 1\<rparr>"
proof -
  have "suffix_of 2 [7, 1, 2 :: u32] = [1, 2]" "occurrences [7, 1, 2] [1, 2] = [3]"
    "occurrences [1, 2, 3, 4] [1, 2] = [2]"
    "location_candidate 2 [7, 1, 2] 2 (True, [7, 1, 2], 3) = None"
    "location_candidate 2 [7, 1, 2] 2 (False, [1, 2, 3, 4], 2) = Some (2, [3, 4])"
    "choose_candidate (2, [[3, 4]]) =
       Some \<lparr>ld_tokens = [3, 4], ld_match_len = 2, ld_occurrences = 1\<rparr>"
    by code_simp+
  then show ?thesis by (simp add: find_scan_def)
qed

definition example_store :: suffix_store where
  "example_store = \<lparr>ss_requests = [anchors_unindexed [1, 2, 3, 4]], ss_tokens = 4\<rparr>"

lemma example_store_ok: "store_ok example_store"
  by (simp add: example_store_def store_ok_def store_tokens_def anchors_unindexed_def
      MAX_STORED_REQUESTS_def MAX_STORED_TOKENS_def)

lemma example_store_tokens [simp]: "map an_tokens (ss_requests example_store) = [[1, 2, 3, 4]]"
  by (simp add: example_store_def anchors_unindexed_def)

section \<open>Properties\<close>

text \<open>C8. The rolling-hash lookup of a decode step equals an exhaustive scan: for a session made
  over a well-formed store and any tokens appended since, \<open>find\<close> returns what choosing among
  the candidates of every position of the history and of every remembered request would.\<close>

theorem lookup_equals_scan:
  assumes "store_ok s" "m < usize_max" "length prompt + length out < 2 ^ 32 - 1"
  shows "find_draft (foldl session_append (snd (store_session s prompt m)) out) k =
    find_scan m (prompt @ out) (rev (map an_tokens (ss_requests s))) k"
  using assms by (rule lookup_scan)

theorem lookup_equals_scan_witness:
  "find_draft (foldl session_append (snd (store_session example_store [7, 1] 2)) [2]) 2
   = Some \<lparr>ld_tokens = [3, 4], ld_match_len = 2, ld_occurrences = 1\<rparr>"
  using lookup_equals_scan [OF example_store_ok, of 2 "[7, 1]" "[2]" 2] find_scan_example by simp

text \<open>C22. Every draft is a verbatim continuation of a true match: some remembered request or the
  history itself holds the last \<open>match_len\<close> tokens of the history (at least \<open>min_match\<close> of
  them) followed by the draft, which is not empty, no longer than asked, and free of image
  tokens.\<close>

theorem draft_sound:
  assumes "store_ok s" "m < usize_max" "length prompt + length out < 2 ^ 32 - 1"
    and "find_draft (foldl session_append (snd (store_session s prompt m)) out) k = Some d"
  shows "m \<le> ld_match_len d \<and> 1 \<le> ld_occurrences d \<and>
    (\<exists>source \<in> insert (prompt @ out) (an_tokens ` set (ss_requests s)).
       continuation_of source (prompt @ out) k (ld_match_len d) (ld_tokens d))"
  using find_scan_sound [of m "prompt @ out" "rev (map an_tokens (ss_requests s))" k d] assms
  by (simp add: lookup_scan)

theorem draft_sound_witness:
  "\<exists>source \<in> {[7, 1, 2], [1, 2, 3, 4]}. continuation_of source [7, 1, 2] 2 2 [3, 4]"
proof -
  have "find_draft (foldl session_append (snd (store_session example_store [7, 1] 2)) [2]) 2 =
      Some \<lparr>ld_tokens = [3, 4], ld_match_len = 2, ld_occurrences = 1\<rparr>"
    using lookup_scan [OF example_store_ok, of 2 "[7, 1]" "[2]" 2] find_scan_example by simp
  from draft_sound [OF example_store_ok _ _ this] show ?thesis
    by (simp add: example_store_def anchors_unindexed_def)
qed

text \<open>C30. The longest match of the remembered requests wins: whenever the last \<open>l \<ge> min_match\<close>
  tokens of the history end at a place of a remembered request that is followed by a text
  token, the lookup returns a draft, and one whose match is at least as long.\<close>

theorem draft_longest:
  assumes "store_ok s" "m < usize_max" "length prompt + length out < 2 ^ 32 - 1"
    and "r \<in> set (ss_requests s)" "matches (an_tokens r) e (prompt @ out) l" "m \<le> l" "0 < m" "0 < k"
    and "e < length (an_tokens r)" "\<not> is_image_token (an_tokens r ! e)"
  shows "\<exists>d. find_draft (foldl session_append (snd (store_session s prompt m)) out) k = Some d \<and>
    l \<le> ld_match_len d"
  using find_scan_longest [of "an_tokens r" "rev (map an_tokens (ss_requests s))" e "prompt @ out" l m k]
    assms by (simp add: lookup_scan)

theorem draft_longest_witness:
  "\<exists>d. find_draft (foldl session_append (snd (store_session example_store [7, 1] 2)) [2]) 2 = Some d \<and>
    2 \<le> ld_match_len d"
proof -
  have r: "anchors_unindexed [1, 2, 3, 4] \<in> set (ss_requests example_store)"
    by (simp add: example_store_def)
  have "matches (an_tokens (anchors_unindexed [1, 2, 3, 4])) 2 ([7, 1] @ [2]) 2"
    by (subst matches_anchor) (simp_all add: anchors_unindexed_def anchor_at_def suffix_of_def)
  from draft_longest [OF example_store_ok _ _ r this, of 2 2] show ?thesis
    by (simp add: anchors_unindexed_def is_image_token_def)
qed

text \<open>C31. Remembering a request always returns, and the store stays within eight requests and
  131072 tokens: it forgets oldest requests only, never the one just remembered, of which the
  last 131072 tokens are kept.\<close>

theorem remember_bounded:
  assumes "store_ok s"
  shows "\<exists>s'. remember s request = Some s' \<and> store_ok s' \<and> ss_requests s' \<noteq> [] \<and>
    suffix (ss_requests s') (ss_requests s @ [anchors_unindexed (suffix_of MAX_STORED_TOKENS request)])"
  using assms by (rule remember_returns)

theorem remember_bounded_witness:
  "\<exists>s'. remember \<lparr>ss_requests = [], ss_tokens = 0\<rparr> [1, 2] = Some s' \<and> store_ok s' \<and> ss_requests s' \<noteq> []"
proof -
  have "store_ok \<lparr>ss_requests = [], ss_tokens = 0\<rparr>" by (simp add: store_ok_def store_tokens_def)
  from remember_bounded [OF this, of "[1, 2]"] show ?thesis by blast
qed

text \<open>The adaptive limit stays between one draft and the 63 that fill a verify tile, whatever
  was accepted, and a lookup never proposes more than the limit, the configured maximum or half
  of the match; a full acceptance doubles the limit up to those bounds.\<close>

theorem policy_limit_bounds:
  assumes "1 \<le> lp_limit p" "lp_limit p \<le> max_lookup_drafts" "1 \<le> configured_max"
    and "accepted \<le> proposed" "proposed \<le> max_lookup_drafts"
  shows "1 \<le> lp_limit (policy_observe p accepted proposed configured_max) \<and>
    lp_limit (policy_observe p accepted proposed configured_max) \<le> max_lookup_drafts \<and>
    policy_depth (policy_observe p accepted proposed configured_max) matched configured_max
      \<le> min configured_max (matched div 2) \<and>
    (accepted = proposed \<and> lp_limit p * 2 \<le> min configured_max max_lookup_drafts \<longrightarrow>
      lp_limit (policy_observe p accepted proposed configured_max) = lp_limit p * 2)"
  using assms by (auto simp: policy_observe_def policy_depth_def max_lookup_drafts_def MAX_NGRAM_MAX_def)

theorem policy_limit_bounds_witness:
  "lp_limit (policy_observe (policy_new 63) 3 10 63) \<le> max_lookup_drafts"
  using policy_limit_bounds [of "policy_new 63" 63 3 10 0]
  by (simp add: policy_new_def max_lookup_drafts_def MAX_NGRAM_MAX_def)

end
