(* ===== verification/Json.thy ===== *)
theory Json
  imports Prelude
begin

text \<open>
  JSON values as the code sees them (\<open>serde_json::Value\<close>): an object is the list of its
  members in iteration order, a number is its literal text, a string its UTF-8 bytes.
  Parsing and printing belong to \<open>serde_json\<close> and stay parameters of the components that
  use them; the accessors the components call are defined here.
\<close>

text \<open>\<open>str::chars().count()\<close> of a UTF-8 string: its bytes that are not continuation bytes.\<close>

definition continuation_byte :: "char \<Rightarrow> bool" where
  "continuation_byte c \<longleftrightarrow> 0x80 \<le> (of_char c :: nat) \<and> (of_char c :: nat) < 0xC0"

definition char_count :: "string \<Rightarrow> nat" where
  "char_count s = length (filter (\<lambda>c. \<not> continuation_byte c) s)"

datatype json =
    JNull
  | JBool bool
  | JNum string
  | JStr string
  | JArr "json list"
  | JObj "(string \<times> json) list"

fun json_get :: "json \<Rightarrow> string \<Rightarrow> json option" where
  "json_get (JObj members) key = map_of members key"
| "json_get _ key = None"

fun as_str :: "json \<Rightarrow> string option" where
  "as_str (JStr s) = Some s"
| "as_str _ = None"

fun as_object :: "json \<Rightarrow> (string \<times> json) list option" where
  "as_object (JObj members) = Some members"
| "as_object _ = None"

fun as_array :: "json \<Rightarrow> json list option" where
  "as_array (JArr items) = Some items"
| "as_array _ = None"

definition get_str :: "json \<Rightarrow> string \<Rightarrow> string option" where
  "get_str item key = Option.bind (json_get item key) as_str"

lemma as_str_Some: "as_str v = Some s \<longleftrightarrow> v = JStr s"
  by (cases v) auto

lemma as_object_Some: "as_object v = Some ms \<longleftrightarrow> v = JObj ms"
  by (cases v) auto

lemma as_array_Some: "as_array v = Some xs \<longleftrightarrow> v = JArr xs"
  by (cases v) auto

lemma get_str_JObj:
  "get_str (JObj ms) key = Some s \<longleftrightarrow> map_of ms key = Some (JStr s)"
  by (auto simp: get_str_def bind_eq_Some_conv as_str_Some)

end
