(* ===== verification/Compaction.thy ===== *)
theory Compaction
  imports Json
begin

text \<open>
  Conversation compaction (\<open>local-services/src/compaction.rs\<close>): when a conversation is
  compacted, where it may be cut, and which items one compaction keeps.  The token count of
  the kept items is the engine's and may fail; it is a parameter.  The cuts are
  characterised exactly, and the binary search of the plan is shown to find the earliest
  cut that fits.
\<close>

section \<open>Items\<close>

definition COMPACTION :: string where "COMPACTION = ''compaction''"

record compacted =
  cp_summary :: string
  cp_items :: "json list"

record plan =
  pl_split :: nat
  pl_kept :: "json list"

definition kind :: "json \<Rightarrow> string" where
  "kind item = (case get_str item ''type'' of Some k \<Rightarrow> k | None \<Rightarrow> ''message'')"

definition role :: "json \<Rightarrow> string option" where
  "role item = get_str item ''role''"

definition call_id :: "json \<Rightarrow> string option" where
  "call_id item = get_str item ''call_id''"

definition is_compaction :: "json \<Rightarrow> bool" where
  "is_compaction item \<longleftrightarrow> kind item = COMPACTION"

definition latest :: "json list \<Rightarrow> nat option" where
  "latest items = rposition is_compaction items"

definition DEFAULT_COMPACT_THRESHOLD :: nat where "DEFAULT_COMPACT_THRESHOLD = 32000"

definition should_compact :: "nat \<Rightarrow> nat option \<Rightarrow> nat \<Rightarrow> nat \<Rightarrow> bool" where
  "should_compact prompt_tokens threshold reserve context =
     ((case threshold of Some t \<Rightarrow> prompt_tokens \<ge> t | None \<Rightarrow> False)
      \<or> saturating_add prompt_tokens reserve > context)"

section \<open>Cuts\<close>

definition is_instruction :: "json \<Rightarrow> bool" where
  "is_instruction item \<longleftrightarrow>
     kind item = ''message'' \<and> (role item = Some ''system'' \<or> role item = Some ''developer'')"

definition head :: "json list \<Rightarrow> nat" where
  "head items = length (takeWhile is_instruction items)"

definition open_after :: "string list \<Rightarrow> json \<Rightarrow> string list" where
  "open_after open item =
     (if kind item = ''function_call'' then
        open @ (case call_id item of Some cid \<Rightarrow> [cid] | None \<Rightarrow> [])
      else if kind item = ''function_call_output'' then
        (case call_id item of Some cid \<Rightarrow> filter (\<lambda>other. other \<noteq> cid) open | None \<Rightarrow> open)
      else open)"

definition same_turn :: "json \<Rightarrow> json option \<Rightarrow> bool" where
  "same_turn item next_item =
     (case map_option kind next_item of
        Some k \<Rightarrow>
          if k = ''function_call'' then
            kind item = ''reasoning'' \<or> kind item = ''function_call'' \<or>
            (kind item = ''message'' \<and> role item = Some ''assistant'')
          else k = ''function_call_output''
      | None \<Rightarrow> False)"

fun cuts_from :: "string list \<Rightarrow> nat \<Rightarrow> json list \<Rightarrow> nat list" where
  "cuts_from open index [] = []"
| "cuts_from open index (item # rest) =
     (let open1 = open_after open item;
          cut = index + 1;
          next_item = (case rest of [] \<Rightarrow> None | n # _ \<Rightarrow> Some n)
      in (if open1 = [] \<and> \<not> same_turn item next_item \<and> kind item \<noteq> ''reasoning''
          then [cut] else []) @ cuts_from open1 cut rest)"

definition cuts :: "json list \<Rightarrow> nat list" where
  "cuts items = cuts_from [] 0 items"

section \<open>The plan\<close>

definition is_user :: "json \<Rightarrow> bool" where
  "is_user item \<longleftrightarrow> kind item = ''message'' \<and> role item = Some ''user''"

definition kept :: "json list \<Rightarrow> nat \<Rightarrow> json list" where
  "kept items split =
     take (head items) items @
     (case rposition is_user items of
        Some user \<Rightarrow> if user < split \<and> user < length items then [items ! user] else []
      | None \<Rightarrow> []) @
     drop split items"

text \<open>The binary search; \<open>fits\<close> is the fallible comparison of one middle cut.\<close>

function search_cut :: "(nat \<Rightarrow> 'e + bool) \<Rightarrow> nat \<Rightarrow> nat \<Rightarrow> 'e + nat" where
  "search_cut fits low high =
     (if low < high then
        let middle = low + (high - low) div 2 in
        (case fits middle of
           Inl e \<Rightarrow> Inl e
         | Inr fit \<Rightarrow>
             if fit then search_cut fits low middle else search_cut fits (middle + 1) high)
      else Inr low)"
  by pat_completeness auto
termination
  by (relation "measure (\<lambda>(_, low, high). high - low)") auto

declare search_cut.simps [simp del]

definition plan_cuts :: "json list \<Rightarrow> nat list" where
  "plan_cuts items = filter (\<lambda>cut. cut > head items) (cuts items)"

definition make_plan :: "json list \<Rightarrow> nat \<Rightarrow> (json list \<Rightarrow> 'e + nat) \<Rightarrow> 'e + plan option" where
  "make_plan items keep_tokens count_tokens =
     (let cs = plan_cuts items in
      case search_cut
             (\<lambda>middle. case count_tokens (kept items (cs ! middle)) of
                Inl e \<Rightarrow> Inl e | Inr n \<Rightarrow> Inr (n \<le> keep_tokens))
             0 (length cs) of
        Inl e \<Rightarrow> Inl e
      | Inr low \<Rightarrow>
          (case (if low < length cs then Some (cs ! low)
                 else if cs = [] then None else Some (last cs)) of
             None \<Rightarrow> Inr None
           | Some split \<Rightarrow> Inr (Some \<lparr>pl_split = split, pl_kept = kept items split\<rparr>)))"

section \<open>Where a cut may fall\<close>

text \<open>The specification: a call is unanswered at \<open>c\<close> when no output after it and before
  \<open>c\<close> carries its cid.\<close>

definition is_call :: "json \<Rightarrow> string \<Rightarrow> bool" where
  "is_call item cid \<longleftrightarrow> kind item = ''function_call'' \<and> call_id item = Some cid"

definition is_output :: "json \<Rightarrow> string \<Rightarrow> bool" where
  "is_output item cid \<longleftrightarrow> kind item = ''function_call_output'' \<and> call_id item = Some cid"

definition answered :: "json list \<Rightarrow> nat \<Rightarrow> bool" where
  "answered items c \<longleftrightarrow>
     (\<forall>i < c. \<forall>cid. is_call (items ! i) cid \<longrightarrow> (\<exists>j. i < j \<and> j < c \<and> is_output (items ! j) cid))"

definition turn_boundary :: "json list \<Rightarrow> nat \<Rightarrow> bool" where
  "turn_boundary items c \<longleftrightarrow>
     kind (items ! (c - 1)) \<noteq> ''reasoning'' \<and>
     \<not> same_turn (items ! (c - 1)) (if c < length items then Some (items ! c) else None)"

definition may_cut :: "json list \<Rightarrow> nat \<Rightarrow> bool" where
  "may_cut items c \<longleftrightarrow> 0 < c \<and> c \<le> length items \<and> answered items c \<and> turn_boundary items c"

text \<open>The open ids after a prefix are the ids of its unanswered calls.\<close>

lemma set_open_after:
  "cid \<in> set (open_after os item) \<longleftrightarrow>
     is_call item cid \<or> cid \<in> set os \<and> \<not> is_output item cid"
  by (auto simp: open_after_def is_call_def is_output_def split: option.splits)

lemma open_fold:
  "cid \<in> set (foldl open_after [] items) \<longleftrightarrow>
     (\<exists>i < length items. is_call (items ! i) cid \<and>
        (\<forall>j. i < j \<and> j < length items \<longrightarrow> \<not> is_output (items ! j) cid))"
proof (induction items rule: rev_induct)
  case Nil
  then show ?case by simp
next
  case (snoc x xs)
  let ?n = "length xs" and ?ys = "xs @ [x]"
  have later: "(\<forall>j. i < j \<and> j < Suc ?n \<longrightarrow> \<not> is_output (?ys ! j) cid) \<longleftrightarrow>
      (\<forall>j. i < j \<and> j < ?n \<longrightarrow> \<not> is_output (xs ! j) cid) \<and> \<not> is_output x cid" if "i < ?n" for i
    using that by (auto simp: nth_append less_Suc_eq)
  have "(\<exists>i < Suc ?n. is_call (?ys ! i) cid \<and>
          (\<forall>j. i < j \<and> j < Suc ?n \<longrightarrow> \<not> is_output (?ys ! j) cid)) \<longleftrightarrow>
      is_call x cid \<or> cid \<in> set (foldl open_after [] xs) \<and> \<not> is_output x cid"
    unfolding snoc Ex_less_Suc using later by (auto simp: nth_append)
  then show ?case by (simp add: set_open_after)
qed

lemma open_empty_answered:
  assumes "c \<le> length items"
  shows "foldl open_after [] (take c items) = [] \<longleftrightarrow> answered items c"
proof -
  have "foldl open_after [] (take c items) = [] \<longleftrightarrow>
      (\<forall>cid. cid \<notin> set (foldl open_after [] (take c items)))"
    by (metis last_in_set list.set(1) empty_iff)
  also have "\<dots> \<longleftrightarrow> answered items c"
    unfolding open_fold answered_def using assms by auto
  finally show ?thesis .
qed

lemma cuts_from_iff:
  "items = seen @ rest \<Longrightarrow>
   c \<in> set (cuts_from (foldl open_after [] seen) (length seen) rest) \<longleftrightarrow>
     length seen < c \<and> may_cut items c"
proof (induction rest arbitrary: "seen")
  case Nil
  then show ?case by (auto simp: may_cut_def)
next
  case (Cons x xs)
  let ?o = "open_after (foldl open_after [] seen) x"
  let ?n = "case xs of [] \<Rightarrow> None | n # _ \<Rightarrow> Some n"
  have ih: "c \<in> set (cuts_from ?o (Suc (length seen)) xs) \<longleftrightarrow> Suc (length seen) < c \<and> may_cut items c"
    using Cons.IH [of "seen @ [x]"] Cons.prems by simp
  have o: "?o = [] \<longleftrightarrow> answered items (Suc (length seen))"
    using open_empty_answered [of "Suc (length seen)" items] Cons.prems by simp
  have n: "(if Suc (length seen) < length items then Some (items ! Suc (length seen)) else None) = ?n"
    using Cons.prems by (cases xs) (auto simp: nth_append)
  have "(?o = [] \<and> \<not> same_turn x ?n \<and> kind x \<noteq> ''reasoning'') \<longleftrightarrow> may_cut items (Suc (length seen))"
    using Cons.prems unfolding may_cut_def turn_boundary_def o n by (auto simp: nth_append)
  moreover have "length seen < c \<longleftrightarrow> c = Suc (length seen) \<or> Suc (length seen) < c" by auto
  ultimately show ?case using ih by (auto simp: Let_def)
qed

lemma cuts_iff: "c \<in> set (cuts items) \<longleftrightarrow> may_cut items c"
  using cuts_from_iff [of items "[]" items c] by (auto simp: cuts_def may_cut_def)

lemma cuts_from_sorted: "sorted_wrt (<) (cuts_from os n items) \<and> (\<forall>c \<in> set (cuts_from os n items). n < c)"
proof (induction items arbitrary: os n)
  case Nil
  then show ?case by simp
next
  case (Cons x xs)
  then show ?case by (fastforce simp: Let_def)
qed

lemma cuts_sorted: "sorted_wrt (<) (cuts items)"
  by (simp add: cuts_def cuts_from_sorted)

section \<open>The search\<close>

lemma search_cut_step:
  "low < high \<Longrightarrow> search_cut fits low high =
     (let middle = low + (high - low) div 2 in
      case fits middle of
        Inl e \<Rightarrow> Inl e
      | Inr fit \<Rightarrow> if fit then search_cut fits low middle else search_cut fits (middle + 1) high)"
  "\<not> low < high \<Longrightarrow> search_cut fits low high = Inr low"
  by (simp_all add: search_cut.simps [of _ low high])

text \<open>Induction over the halving interval.\<close>

lemma interval_induct [case_names stop halve]:
  assumes "\<And>low high. \<not> low < high \<Longrightarrow> P low high"
    and "\<And>low high mid. low < high \<Longrightarrow> mid = low + (high - low) div 2 \<Longrightarrow> low \<le> mid \<Longrightarrow> mid < high \<Longrightarrow>
      P low mid \<Longrightarrow> P (mid + 1) high \<Longrightarrow> P low high"
  shows "P low (high :: nat)"
proof (induction "high - low" arbitrary: low high rule: less_induct)
  case less
  show ?case
  proof (cases "low < high")
    case True
    let ?mid = "low + (high - low) div 2"
    have m: "low \<le> ?mid" "?mid < high" "?mid - low < high - low" "high - (?mid + 1) < high - low"
      using True by linarith+
    show ?thesis using assms(2) [OF True refl m(1,2) less [OF m(3)] less [OF m(4)]] .
  next
    case False
    then show ?thesis by (rule assms(1))
  qed
qed

lemma search_cut_first:
  assumes "\<And>i. low \<le> i \<Longrightarrow> i < high \<Longrightarrow> fits i = Inr (f i)"
    and "\<And>i j. low \<le> i \<Longrightarrow> i \<le> j \<Longrightarrow> j < high \<Longrightarrow> f i \<Longrightarrow> f j"
    and "low \<le> high"
  shows "\<exists>r. search_cut fits low high = Inr r \<and> low \<le> r \<and> r \<le> high \<and>
    (\<forall>i. low \<le> i \<and> i < r \<longrightarrow> \<not> f i) \<and> (\<forall>i. r \<le> i \<and> i < high \<longrightarrow> f i)"
  using assms
proof (induction low high rule: interval_induct)
  case (stop low high)
  then show ?case by (auto simp: search_cut_step)
next
  case (halve low high mid)
  have fit: "fits mid = Inr (f mid)" by (rule halve.prems(1)) (use halve.hyps in auto)
  show ?case
  proof (cases "f mid")
    case True
    have fits: "fits i = Inr (f i)" if "low \<le> i" "i < mid" for i
      by (rule halve.prems(1)) (use halve.hyps that in auto)
    have mono: "f j" if "low \<le> i" "i \<le> j" "j < mid" "f i" for i j
      by (rule halve.prems(2) [of i j]) (use halve.hyps that in auto)
    have "\<exists>r. search_cut fits low mid = Inr r \<and> low \<le> r \<and> r \<le> mid \<and>
        (\<forall>i. low \<le> i \<and> i < r \<longrightarrow> \<not> f i) \<and> (\<forall>i. r \<le> i \<and> i < mid \<longrightarrow> f i)"
      by (rule halve.IH(1), rule fits, assumption+, rule mono, assumption+, rule halve.hyps(3))
    then obtain r where r: "search_cut fits low mid = Inr r" "low \<le> r" "r \<le> mid"
      "\<forall>i. low \<le> i \<and> i < r \<longrightarrow> \<not> f i" "\<forall>i. r \<le> i \<and> i < mid \<longrightarrow> f i" by blast
    have "search_cut fits low high = Inr r"
      using halve.hyps fit True r(1) by (simp add: search_cut_step Let_def)
    moreover have "f i" if "r \<le> i" "i < high" for i
      using that r(5) True halve.prems(2) [of mid i] halve.hyps by (cases "i < mid") auto
    ultimately show ?thesis using r halve.hyps by (intro exI [of _ r]) auto
  next
    case False
    have fits: "fits i = Inr (f i)" if "mid + 1 \<le> i" "i < high" for i
      by (rule halve.prems(1)) (use halve.hyps that in auto)
    have mono: "f j" if "mid + 1 \<le> i" "i \<le> j" "j < high" "f i" for i j
      by (rule halve.prems(2) [of i j]) (use halve.hyps that in auto)
    have le: "mid + 1 \<le> high" using halve.hyps by simp
    have "\<exists>r. search_cut fits (mid + 1) high = Inr r \<and> mid + 1 \<le> r \<and> r \<le> high \<and>
        (\<forall>i. mid + 1 \<le> i \<and> i < r \<longrightarrow> \<not> f i) \<and> (\<forall>i. r \<le> i \<and> i < high \<longrightarrow> f i)"
      by (rule halve.IH(2), rule fits, assumption+, rule mono, assumption+, rule le)
    then obtain r where r: "search_cut fits (mid + 1) high = Inr r" "mid + 1 \<le> r" "r \<le> high"
      "\<forall>i. mid + 1 \<le> i \<and> i < r \<longrightarrow> \<not> f i" "\<forall>i. r \<le> i \<and> i < high \<longrightarrow> f i" by blast
    have "search_cut fits low high = Inr r"
      using halve.hyps fit False r(1) by (simp add: search_cut_step Let_def)
    moreover have "\<not> f i" if "low \<le> i" "i < r" for i
      using that r(4) False halve.prems(2) [of i mid] halve.hyps by (cases "i \<le> mid") auto
    ultimately show ?thesis using r halve.hyps by (intro exI [of _ r]) auto
  qed
qed

lemma search_cut_error:
  "search_cut fits low high = Inl e \<Longrightarrow> \<exists>i. low \<le> i \<and> i < high \<and> fits i = Inl e"
proof (induction low high rule: interval_induct)
  case (stop low high)
  then show ?case by (simp add: search_cut_step)
next
  case (halve low high mid)
  show ?case
  proof (cases "fits mid")
    case (Inl e')
    then have "search_cut fits low high = Inl e'"
      using halve.hyps by (simp add: search_cut_step Let_def)
    then show ?thesis using halve.prems Inl halve.hyps by (intro exI [of _ mid]) auto
  next
    case (Inr fit)
    then have "search_cut fits low mid = Inl e \<or> search_cut fits (mid + 1) high = Inl e"
      using halve.prems halve.hyps by (auto simp: search_cut_step Let_def split: if_splits)
    then obtain i where "fits i = Inl e" "low \<le> i \<and> i < mid \<or> mid + 1 \<le> i \<and> i < high"
      using halve.IH by blast
    then show ?thesis using halve.hyps by (intro exI [of _ i]) auto
  qed
qed

section \<open>What a plan keeps\<close>

lemma user_after_head:
  assumes "rposition is_user items = Some u"
  shows "head items \<le> u" "u < length items" "is_user (items ! u)"
proof -
  show u: "u < length items" "is_user (items ! u)" using rposition_SomeD [OF assms] by auto
  show "head items \<le> u"
  proof (rule ccontr)
    assume "\<not> head items \<le> u"
    then have "u < length (takeWhile is_instruction items)" by (simp add: head_def)
    then have "is_instruction (items ! u)"
      using nth_mem set_takeWhileD takeWhile_nth by metis
    then show False using u by (auto simp: is_user_def is_instruction_def)
  qed
qed

lemma subseq_drop_mono: "c \<le> c' \<Longrightarrow> subseq (drop c' xs) (drop c xs)"
  by (metis drop_drop le_add_diff_inverse2 suffix_drop suffix_imp_subseq)

lemma subseq_pick: "c \<le> u \<Longrightarrow> u < c' \<Longrightarrow> u < length xs \<Longrightarrow> subseq (xs ! u # drop c' xs) (drop c xs)"
proof -
  assume a: "c \<le> u" "u < c'" "u < length xs"
  have "subseq (xs ! u # drop c' xs) (drop u xs)"
    using a subseq_drop_mono [of "Suc u" c' xs] by (simp add: Cons_nth_drop_Suc [symmetric])
  then show ?thesis using subseq_drop_mono a(1) subseq_order.order_trans by blast
qed

lemma kept_antimono:
  assumes "c \<le> c'"
  shows "subseq (kept items c') (kept items c)"
proof (cases "rposition is_user items")
  case None
  then show ?thesis using assms by (simp add: kept_def subseq_drop_mono list_emb_append_mono)
next
  case (Some u)
  then show ?thesis using assms user_after_head [OF Some] subseq_pick [of c u c' items]
    by (auto simp: kept_def intro!: list_emb_append_mono subseq_drop_mono)
qed

lemma kept_subseq:
  assumes "head items < c"
  shows "subseq (kept items c) items"
proof -
  have "subseq (kept items c) (kept items (head items))" using assms by (intro kept_antimono) simp
  moreover have "kept items (head items) = items"
    using user_after_head(1) [of items] by (auto simp: kept_def split: option.splits)
  ultimately show ?thesis by simp
qed

lemma plan_cuts_sorted: "sorted_wrt (<) (plan_cuts items)"
  by (simp add: plan_cuts_def cuts_sorted sorted_wrt_filter)

lemma set_plan_cuts: "c \<in> set (plan_cuts items) \<longleftrightarrow> head items < c \<and> may_cut items c"
  by (auto simp: plan_cuts_def cuts_iff)

lemma make_plan_SomeD:
  assumes "make_plan items k count_tokens = Inr (Some p)"
  shows "pl_split p \<in> set (plan_cuts items)" "pl_kept p = kept items (pl_split p)"
  using assms
  by (auto simp: make_plan_def Let_def split: sum.splits option.splits if_splits)

lemma make_plan_error:
  assumes "make_plan items k count_tokens = Inl e"
  shows "\<exists>c \<in> set (plan_cuts items). count_tokens (kept items c) = Inl e"
proof -
  let ?cs = "plan_cuts items"
  let ?fits = "\<lambda>mid. case count_tokens (kept items (?cs ! mid)) of
                Inl e \<Rightarrow> Inl e | Inr n \<Rightarrow> Inr (n \<le> k)"
  have "search_cut ?fits 0 (length ?cs) = Inl e"
    using assms by (auto simp: make_plan_def Let_def split: sum.splits option.splits)
  from search_cut_error [OF this] obtain i where "i < length ?cs" "?fits i = Inl e" by blast
  then show ?thesis by (auto split: sum.splits intro!: bexI [of _ "?cs ! i"])
qed

lemma sorted_wrt_less_nth_iff:
  assumes "sorted_wrt (<) (xs :: nat list)" "i < length xs" "j < length xs"
  shows "xs ! i < xs ! j \<longleftrightarrow> i < j"
  using assms sorted_wrt_nth_less [of "(<)" xs] by (metis less_asym linorder_neqE_nat less_irrefl)

section \<open>Properties\<close>


text \<open>C13. A plan summarises more than the leading instructions, separates no call from its
  output, and keeps, in the conversation's order, the leading instructions, the latest user
  message and every item from the split on.\<close>

theorem plan_keeps:
  assumes "make_plan items k count_tokens = Inr (Some p)"
  shows "head items < pl_split p \<and> answered items (pl_split p) \<and>
    prefix (take (head items) items) (pl_kept p) \<and> suffix (drop (pl_split p) items) (pl_kept p) \<and>
    (\<forall>u. rposition is_user items = Some u \<longrightarrow> items ! u \<in> set (pl_kept p)) \<and>
    subseq (pl_kept p) items"
proof -
  note P = make_plan_SomeD [OF assms]
  have split: "head items < pl_split p" "may_cut items (pl_split p)"
    using P(1) by (simp_all add: set_plan_cuts)
  have "items ! u \<in> set (pl_kept p)" if u: "rposition is_user items = Some u" for u
  proof (cases "u < pl_split p")
    case True
    then show ?thesis using u user_after_head(2) [OF u] by (simp add: P(2) kept_def)
  next
    case False
    then have "items ! u \<in> set (drop (pl_split p) items)" using user_after_head(2) [OF u]
      by (auto simp: in_set_conv_nth intro!: exI [of _ "u - pl_split p"])
    then show ?thesis by (simp add: P(2) kept_def)
  qed
  moreover have "suffix (drop (pl_split p) items) (pl_kept p)" unfolding P(2) kept_def
    by (simp add: suffixI suffix_appendI)
  ultimately show ?thesis using split kept_subseq [OF split(1)]
    by (auto simp: P(2) kept_def may_cut_def)
qed

text \<open>C19. With a token count that succeeds and does not grow when items are left out, planning
  succeeds: it finds nothing exactly when no cut lies behind the leading instructions;
  otherwise it takes the earliest cut whose kept items fit the budget, and the latest cut when
  none does.\<close>

theorem plan_earliest:
  assumes "\<And>xs. count_tokens xs = Inr (tokens xs)"
    and "\<And>xs ys. subseq xs ys \<Longrightarrow> tokens xs \<le> (tokens ys :: nat)"
  shows "case make_plan items k count_tokens of
      Inl e \<Rightarrow> False
    | Inr None \<Rightarrow> \<forall>c. \<not> (head items < c \<and> may_cut items c)
    | Inr (Some p) \<Rightarrow>
        head items < pl_split p \<and> may_cut items (pl_split p) \<and>
        (\<forall>c. head items < c \<and> may_cut items c \<and> tokens (kept items c) \<le> k \<longrightarrow>
           pl_split p \<le> c \<and> tokens (pl_kept p) \<le> k) \<and>
        (tokens (pl_kept p) \<le> k \<or> (\<forall>c. may_cut items c \<longrightarrow> c \<le> pl_split p))"
proof -
  let ?cs = "plan_cuts items"
  let ?f = "\<lambda>i. tokens (kept items (?cs ! i)) \<le> k"
  have sorted: "i \<le> j \<Longrightarrow> j < length ?cs \<Longrightarrow> ?cs ! i \<le> ?cs ! j" for i j
    using sorted_wrt_less_nth_iff [OF plan_cuts_sorted, of j items i] by (cases "i = j") auto
  have mono: "?f i \<Longrightarrow> i \<le> j \<Longrightarrow> j < length ?cs \<Longrightarrow> ?f j" for i j
    using assms(2) [OF kept_antimono [OF sorted [of i j]]] order_trans by blast
  obtain r where r: "search_cut (\<lambda>mid. case count_tokens (kept items (?cs ! mid)) of
        Inl e \<Rightarrow> Inl e | Inr n \<Rightarrow> Inr (n \<le> k)) 0 (length ?cs) = Inr r"
      "r \<le> length ?cs" "\<forall>i < r. \<not> ?f i" "\<forall>i. r \<le> i \<and> i < length ?cs \<longrightarrow> ?f i"
    using search_cut_first [of 0 "length ?cs" "\<lambda>mid. case count_tokens (kept items (?cs ! mid)) of
        Inl e \<Rightarrow> Inl e | Inr n \<Rightarrow> Inr (n \<le> k)" ?f] mono assms(1) by auto
  have cut: "(head items < c \<and> may_cut items c) \<longleftrightarrow> (\<exists>i < length ?cs. c = ?cs ! i)" for c
    by (metis set_plan_cuts in_set_conv_nth)
  show ?thesis
  proof (cases "?cs = []")
    case True
    then show ?thesis using cut r(1) by (simp add: make_plan_def)
  next
    case False
    define i where "i = (if r < length ?cs then r else length ?cs - 1)"
    have i: "i < length ?cs" using False by (simp add: i_def)
    have p: "make_plan items k count_tokens =
        Inr (Some \<lparr>pl_split = ?cs ! i, pl_kept = kept items (?cs ! i)\<rparr>)"
      using r(1) False by (simp add: make_plan_def Let_def i_def last_conv_nth)
    have early: "?cs ! i \<le> c \<and> ?f i"
      if c: "head items < c \<and> may_cut items c \<and> tokens (kept items c) \<le> k" for c
    proof -
      from c have "\<exists>j < length ?cs. c = ?cs ! j" using cut [of c] by simp
      then obtain j where j: "j < length ?cs" "c = ?cs ! j" by blast
      then have "r \<le> j" using r(3) c by (meson not_le)
      then show ?thesis using j r(4) sorted by (simp add: i_def)
    qed
    have late: "?f i \<or> (\<forall>c. may_cut items c \<longrightarrow> c \<le> ?cs ! i)"
    proof (cases "r < length ?cs")
      case True
      then show ?thesis using r(4) by (simp add: i_def)
    next
      case False
      have "c \<le> ?cs ! i" if c: "may_cut items c" for c
      proof (cases "head items < c")
        case True
        with c have "\<exists>j < length ?cs. c = ?cs ! j" using cut [of c] by simp
        then obtain j where "j < length ?cs" "c = ?cs ! j" by blast
        then show ?thesis using sorted [of j i] False i by (simp add: i_def)
      next
        case False
        then show ?thesis using cut [of "?cs ! i"] i by (metis leD le_less_trans linear not_less)
      qed
      then show ?thesis by blast
    qed
    show ?thesis using p early late cut [of "?cs ! i"] i by auto
  qed
qed

text \<open>A conversation with one instruction, a call with its output and a later user turn.\<close>

definition example_message :: "string \<Rightarrow> json" where
  "example_message r = JObj [(''type'', JStr ''message''), (''role'', JStr r)]"

definition example_items :: "json list" where
  "example_items =
     [example_message ''system'', example_message ''user'',
      JObj [(''type'', JStr ''function_call''), (''call_id'', JStr ''a'')],
      JObj [(''type'', JStr ''function_call_output''), (''call_id'', JStr ''a'')],
      example_message ''assistant'', example_message ''user'']"

lemma example_plan_cuts: "plan_cuts example_items = [2, 4, 5, 6]"
  by code_simp

lemma example_kept: "length (kept example_items 4) = 3" "length (kept example_items 5) = 2"
  "length (kept example_items 2) = 5" "length (kept example_items 6) = 2"
  by code_simp+

lemma example_plan:
  "make_plan example_items 4 (\<lambda>xs. Inr (length xs) :: unit + nat) =
     Inr (Some \<lparr>pl_split = 4, pl_kept = kept example_items 4\<rparr>)"
  by (simp add: make_plan_def Let_def example_plan_cuts search_cut_step example_kept)

theorem plan_keeps_witness:
  "\<exists>p. make_plan example_items 4 (\<lambda>xs. Inr (length xs) :: unit + nat) = Inr (Some p) \<and>
     answered example_items (pl_split p) \<and> subseq (pl_kept p) example_items"
  using plan_keeps [OF example_plan] example_plan by blast

theorem plan_earliest_witness:
  "case make_plan example_items 4 (\<lambda>xs. Inr (length xs) :: unit + nat) of
     Inr (Some p) \<Rightarrow> pl_split p = 4 \<and> (\<forall>c. head example_items < c \<and> may_cut example_items c \<and>
       length (kept example_items c) \<le> 4 \<longrightarrow> pl_split p \<le> c) | _ \<Rightarrow> False"
  using plan_earliest [of "\<lambda>xs. Inr (length xs) :: unit + nat" length example_items 4]
  by (simp add: example_plan list_emb_length)

end
