(* ===== verification/Strings.thy ===== *)
theory Strings
  imports Json "HOL-Library.Sublist"
begin

text \<open>
  Rust's \<open>str\<close> as its UTF-8 bytes: searching, stripping and splitting, character boundaries, the
  characters of a text and Unicode white space, as the splitter and the tool-call parser use them.
\<close>

section \<open>Operations\<close>

fun str_find :: "string \<Rightarrow> string \<Rightarrow> nat option" where
  "str_find pat s =
     (if prefix pat s then Some 0
      else case s of [] \<Rightarrow> None | _ # t \<Rightarrow> map_option Suc (str_find pat t))"

definition is_char_boundary :: "string \<Rightarrow> nat \<Rightarrow> bool" where
  "is_char_boundary s i \<longleftrightarrow>
     i = 0 \<or> i = length s \<or> (i < length s \<and> \<not> continuation_byte (s ! i))"

definition ends_with :: "string \<Rightarrow> string \<Rightarrow> bool" where
  "ends_with s p \<longleftrightarrow> suffix p s"

definition strip_prefix :: "string \<Rightarrow> string \<Rightarrow> string option" where
  "strip_prefix s p = (if prefix p s then Some (drop (length p) s) else None)"

definition strip_suffix :: "string \<Rightarrow> string \<Rightarrow> string option" where
  "strip_suffix s p = (if suffix p s then Some (take (length s - length p) s) else None)"

definition split_once :: "string \<Rightarrow> string \<Rightarrow> (string \<times> string) option" where
  "split_once s delim =
     map_option (\<lambda>i. (take i s, drop (i + length delim) s)) (str_find delim s)"

text \<open>The characters of a text, each as its encoding.\<close>

function chars :: "string \<Rightarrow> string list" where
  "chars [] = []"
| "chars (c # s) = (c # takeWhile continuation_byte s) # chars (dropWhile continuation_byte s)"
  by pat_completeness auto
termination by (relation "measure length") (auto simp: less_Suc_eq_le length_dropWhile_le)

text \<open>\<open>char::is_whitespace\<close> (Unicode \<open>White_Space\<close>) and \<open>char::is_control\<close> (\<open>Cc\<close>).\<close>

definition is_whitespace :: "string \<Rightarrow> bool" where
  "is_whitespace c =
     (case map of_char c :: nat list of
        [b] \<Rightarrow> 0x09 \<le> b \<and> b \<le> 0x0D \<or> b = 0x20
      | [b1, b2] \<Rightarrow> b1 = 0xC2 \<and> (b2 = 0x85 \<or> b2 = 0xA0)
      | [b1, b2, b3] \<Rightarrow>
          b1 = 0xE1 \<and> b2 = 0x9A \<and> b3 = 0x80 \<or>
          b1 = 0xE2 \<and> b2 = 0x80 \<and> (b3 \<le> 0x8A \<and> 0x80 \<le> b3 \<or> b3 = 0xA8 \<or> b3 = 0xA9 \<or> b3 = 0xAF) \<or>
          b1 = 0xE2 \<and> b2 = 0x81 \<and> b3 = 0x9F \<or>
          b1 = 0xE3 \<and> b2 = 0x80 \<and> b3 = 0x80
      | _ \<Rightarrow> False)"

definition is_control :: "string \<Rightarrow> bool" where
  "is_control c =
     (case map of_char c :: nat list of
        [b] \<Rightarrow> b < 0x20 \<or> b = 0x7F
      | [b1, b2] \<Rightarrow> b1 = 0xC2 \<and> 0x80 \<le> b2 \<and> b2 < 0xA0
      | _ \<Rightarrow> False)"

definition trim_start :: "string \<Rightarrow> string" where
  "trim_start s = concat (dropWhile is_whitespace (chars s))"

definition trim_end :: "string \<Rightarrow> string" where
  "trim_end s = concat (rev (dropWhile is_whitespace (rev (chars s))))"

definition trim :: "string \<Rightarrow> string" where
  "trim s = trim_end (trim_start s)"

section \<open>Searching\<close>

declare str_find.simps [simp del]

lemma str_find_Some:
  "str_find pat s = Some i \<longleftrightarrow>
     i \<le> length s \<and> prefix pat (drop i s) \<and> (\<forall>j<i. \<not> prefix pat (drop j s))"
proof (induction s arbitrary: i)
  case Nil
  then show ?case by (auto simp: str_find.simps)
next
  case (Cons c s)
  show ?case
    by (cases i) (auto simp: str_find.simps [of pat "c # s"] Cons.IH less_Suc_eq_0_disj)
qed

lemma str_find_None: "str_find pat s = None \<longleftrightarrow> (\<forall>j\<le>length s. \<not> prefix pat (drop j s))"
proof (induction s)
  case Nil
  then show ?case by (auto simp: str_find.simps)
next
  case (Cons c s)
  have "(\<forall>j\<le>length (c # s). \<not> prefix pat (drop j (c # s))) \<longleftrightarrow>
        \<not> prefix pat (c # s) \<and> (\<forall>j\<le>length s. \<not> prefix pat (drop j s))"
    by (metis Suc_le_mono drop_Suc_Cons drop0 list.size(4) add.right_neutral add_Suc_right le0 old.nat.exhaust)
  then show ?case by (simp add: str_find.simps [of pat "c # s"] Cons.IH)
qed

text \<open>Where nothing can start before \<open>d\<close>, searching from \<open>d\<close> on is searching the whole.\<close>

lemma str_find_shift:
  assumes "d \<le> length s" "\<And>j. j < d \<Longrightarrow> \<not> prefix pat (drop j s)"
  shows "str_find pat s = map_option ((+) d) (str_find pat (drop d s))"
proof (cases "str_find pat (drop d s)")
  case None
  have "\<not> prefix pat (drop j s)" if "j \<le> length s" for j
  proof (cases "j < d")
    case False
    then have "\<not> prefix pat (drop (j - d) (drop d s))"
      using None that unfolding str_find_None by (metis diff_le_mono length_drop)
    then show ?thesis using False by simp
  qed (use assms in auto)
  then have "str_find pat s = None" by (simp add: str_find_None)
  then show ?thesis using None by simp
next
  case (Some i)
  then have i: "i \<le> length s - d" "prefix pat (drop (d + i) s)"
    and least: "\<And>j. j < i \<Longrightarrow> \<not> prefix pat (drop (d + j) s)"
    by (auto simp: str_find_Some add.commute)
  have "\<not> prefix pat (drop j s)" if "j < d + i" for j
    using assms(2) [of j] least [of "j - d"] that by (cases "j < d") auto
  then have "str_find pat s = Some (d + i)" using assms(1) i by (auto simp: str_find_Some)
  then show ?thesis using Some by simp
qed

section \<open>Character boundaries\<close>

fun utf8_len :: "char \<Rightarrow> nat" where
  "utf8_len c = (let b = (of_char c :: nat) in
     if b < 0x80 then 1 else if b < 0xC0 then 0 else if b < 0xE0 then 2
     else if b < 0xF0 then 3 else if b < 0xF8 then 4 else 0)"

declare utf8_len.simps [simp del]

text \<open>Every lead byte is followed by its continuation bytes; every Rust string is such a sequence.\<close>

function utf8 :: "string \<Rightarrow> bool" where
  "utf8 [] = True"
| "utf8 (c # s) =
     (let n = utf8_len c in
      0 < n \<and> n \<le> Suc (length s) \<and> list_all continuation_byte (take (n - 1) s) \<and> utf8 (drop (n - 1) s))"
  by pat_completeness auto
termination by (relation "measure length") auto

lemma utf8_len_continuation: "0 < utf8_len c \<Longrightarrow> \<not> continuation_byte c"
  by (auto simp: utf8_len.simps continuation_byte_def Let_def split: if_splits)

lemma utf8_append: "utf8 a \<Longrightarrow> utf8 b \<Longrightarrow> utf8 (a @ b)"
  by (induction a rule: utf8.induct) (auto simp: Let_def)

lemma utf8_drop:
  "utf8 s \<Longrightarrow> i < length s \<Longrightarrow> \<not> continuation_byte (s ! i) \<Longrightarrow> utf8 (drop i s)"
proof (induction s arbitrary: i rule: utf8.induct)
  case (2 c s)
  define n where "n = utf8_len c"
  have n: "0 < n" "n \<le> Suc (length s)" "list_all continuation_byte (take (n - 1) s)"
    "utf8 (drop (n - 1) s)"
    using 2(2) by (auto simp: n_def Let_def)
  show ?case
  proof (cases "i = 0")
    case False
    then obtain k where k: "i = Suc k" by (cases i) auto
    have "n - 1 \<le> k"
    proof (rule ccontr)
      assume "\<not> n - 1 \<le> k"
      then have "continuation_byte (s ! k)" using n(3) n(2) by (auto simp: list_all_length)
      then show False using 2(4) k by simp
    qed
    then have "utf8 (drop (k - (n - 1)) (drop (n - 1) s))"
      using 2(1) [OF n_def, of "k - (n - 1)"] n k 2(3,4) by (auto simp: n_def)
    then show ?thesis using k \<open>n - 1 \<le> k\<close> by simp
  qed (use 2(2) in simp)
qed simp

lemma utf8_prefix_boundary:
  "utf8 r \<Longrightarrow> utf8 (r @ t) \<Longrightarrow> t \<noteq> [] \<Longrightarrow> \<not> continuation_byte (hd t)"
proof (induction r rule: utf8.induct)
  case 1
  then show ?case by (cases t) (auto simp: Let_def utf8_len_continuation)
next
  case (2 c s)
  then show ?case by (auto simp: Let_def)
qed

lemma str_find_length: "str_find q s = Some i \<Longrightarrow> i + length q \<le> length s"
  using prefix_length_le [of q "drop i s"] by (auto simp: str_find_Some)

lemma prefix_drop_append:
  "prefix q (drop j (s @ t)) \<Longrightarrow> j + length q \<le> length s \<Longrightarrow> prefix q (drop j s)"
  by (cases "j \<le> length s") (auto simp: prefix_append simp flip: length_0_conv)

lemma str_find_append: "str_find q s = Some i \<Longrightarrow> str_find q (s @ t) = Some i"
  using str_find_length [of q s i] prefix_drop_append [of q _ s t]
  by (fastforce simp: str_find_Some prefix_append)

lemma str_find_prefix: "str_find q s = Some i \<Longrightarrow> prefix s t \<Longrightarrow> str_find q t = Some i"
  by (auto simp: prefix_def str_find_append)

lemma dropWhile_snoc: "dropWhile P (a @ b) = (if dropWhile P a = [] then dropWhile P b else dropWhile P a @ b)"
  by (induction a) auto

section \<open>Characters and white space\<close>

lemma concat_chars [simp]: "concat (chars s) = s"
  by (induction s rule: chars.induct) simp_all

lemma chars_Nil_iff [simp]: "chars s = [] \<longleftrightarrow> s = []"
  by (cases s) simp_all

text \<open>Text that does not begin in the middle of a character, as every \<open>str\<close> does not.\<close>

definition starts_char :: "string \<Rightarrow> bool" where
  "starts_char s \<longleftrightarrow> s = [] \<or> \<not> continuation_byte (hd s)"

lemma starts_char_simps [simp]:
  "starts_char []" "starts_char (c # s) \<longleftrightarrow> \<not> continuation_byte c"
  by (simp_all add: starts_char_def)

lemma utf8_starts_char: "utf8 s \<Longrightarrow> starts_char s"
  by (cases s) (auto simp: Let_def utf8_len_continuation)

lemma starts_char_append: "starts_char a \<Longrightarrow> starts_char b \<Longrightarrow> starts_char (a @ b)"
  by (cases a) simp_all

lemma starts_char_appendD: "starts_char (a @ b) \<Longrightarrow> starts_char a"
  by (cases a) simp_all

lemma chars_append: "starts_char b \<Longrightarrow> chars (a @ b) = chars a @ chars b"
proof (induction a rule: chars.induct)
  case (2 c a)
  have "takeWhile continuation_byte (a @ b) = takeWhile continuation_byte a \<and>
        dropWhile continuation_byte (a @ b) = dropWhile continuation_byte a @ b"
  proof (cases "\<forall>x\<in>set a. continuation_byte x")
    case True
    then show ?thesis using 2(2)
      by (cases b) (simp_all add: takeWhile_append2 dropWhile_append2 takeWhile_eq_all_conv [THEN iffD2])
  next
    case False
    then show ?thesis by (auto simp: takeWhile_append1 dropWhile_append1)
  qed
  then show ?case using 2 by simp
qed simp

text \<open>A text is its leading white space, its trimmed text and its trailing white space.\<close>

lemma starts_char_dropWhile: "starts_char (dropWhile continuation_byte s)"
  unfolding starts_char_def using hd_dropWhile by blast

lemma chars_drop:
  "starts_char a \<Longrightarrow> chars a = xs @ ys \<Longrightarrow> chars (concat xs) = xs \<and> chars (concat ys) = ys"
proof (induction a arbitrary: xs rule: chars.induct)
  case 1
  then show ?case by simp
next
  case (2 c s)
  note st = starts_char_dropWhile [of s]
  show ?case
  proof (cases xs)
    case Nil
    then show ?thesis using 2(3) concat_chars [of "c # s"] by simp
  next
    case (Cons x xs')
    then have x: "x = c # takeWhile continuation_byte s"
      and r: "chars (dropWhile continuation_byte s) = xs' @ ys"
      using 2(3) by simp_all
    have IH: "chars (concat xs') = xs'" "chars (concat ys) = ys" using 2(1) [OF st r] by simp_all
    have "dropWhile continuation_byte s = concat xs' @ concat ys" by (metis concat_append concat_chars r)
    then have c': "starts_char (concat xs')" using st starts_char_appendD by metis
    have "chars x = [x]" using x by (auto dest: set_takeWhileD)
    then show ?thesis using Cons IH chars_append [OF c', of x] by simp
  qed
qed

lemma chars_nonempty: "c \<in> set (chars s) \<Longrightarrow> c \<noteq> []"
  by (induction s rule: chars.induct) auto

lemma starts_char_chars: "starts_char s \<Longrightarrow> c \<in> set (chars s) \<Longrightarrow> starts_char c"
  by (induction s rule: chars.induct) (auto simp: starts_char_dropWhile)

lemma starts_char_concat: "(\<forall>c\<in>set cs. starts_char c) \<Longrightarrow> starts_char (concat cs)"
  by (induction cs) (auto intro: starts_char_append)

text \<open>Text of white space only.\<close>

definition all_white :: "string \<Rightarrow> bool" where
  "all_white s \<longleftrightarrow> list_all is_whitespace (chars s)"

lemma all_white_Nil [simp]: "all_white []"
  by (simp add: all_white_def)

lemma all_white_append: "starts_char b \<Longrightarrow> all_white (a @ b) \<longleftrightarrow> all_white a \<and> all_white b"
  by (simp add: all_white_def chars_append)

lemma concat_chars_sub_Nil: "set cs \<subseteq> set (chars s) \<Longrightarrow> concat cs = [] \<longleftrightarrow> cs = []"
  using chars_nonempty [of _ s] by (cases cs) auto

lemma trim_start_Nil_iff: "trim_start s = [] \<longleftrightarrow> all_white s"
proof -
  have "trim_start s = [] \<longleftrightarrow> dropWhile is_whitespace (chars s) = []"
    unfolding trim_start_def by (rule concat_chars_sub_Nil [of _ s]) (auto dest: set_dropWhileD)
  then show ?thesis by (auto simp: all_white_def list_all_iff)
qed

lemma trim_end_Nil_iff: "trim_end s = [] \<longleftrightarrow> all_white s"
proof -
  have "trim_end s = [] \<longleftrightarrow> rev (dropWhile is_whitespace (rev (chars s))) = []"
    unfolding trim_end_def by (rule concat_chars_sub_Nil [of _ s]) (auto dest: set_dropWhileD)
  then show ?thesis by (auto simp: all_white_def list_all_iff)
qed

lemma trim_start_append:
  assumes "starts_char b"
  shows "trim_start (a @ b) = (if all_white a then trim_start b else trim_start a @ b)"
proof -
  have "dropWhile is_whitespace (chars a) = [] \<longleftrightarrow> all_white a" by (simp add: all_white_def list_all_iff)
  then show ?thesis by (simp add: trim_start_def chars_append [OF assms] dropWhile_snoc)
qed

lemma trim_end_append:
  assumes "starts_char b"
  shows "trim_end (a @ b) = (if all_white b then trim_end a else a @ trim_end b)"
proof -
  have "dropWhile is_whitespace (rev (chars b)) = [] \<longleftrightarrow> all_white b" by (simp add: all_white_def list_all_iff)
  then show ?thesis by (simp add: trim_end_def chars_append [OF assms] dropWhile_snoc)
qed

lemma trim_start_split:
  assumes "starts_char s"
  obtains w where "s = w @ trim_start s" "all_white w" "starts_char (trim_start s)"
proof -
  let ?w = "takeWhile is_whitespace (chars s)" and ?t = "dropWhile is_whitespace (chars s)"
  have c: "chars (concat ?w) = ?w" "chars (concat ?t) = ?t" using chars_drop [OF assms, of ?w ?t] by simp_all
  have s: "s = concat ?w @ concat ?t" by (metis concat_append concat_chars takeWhile_dropWhile_id)
  have "all_white (concat ?w)" using c(1) by (auto simp: all_white_def list_all_iff dest: set_takeWhileD)
  moreover have "starts_char (concat ?t)"
    using starts_char_chars [OF assms] by (intro starts_char_concat) (auto dest: set_dropWhileD)
  ultimately show ?thesis using that [of "concat ?w"] s by (simp add: trim_start_def)
qed

lemma trim_end_split:
  assumes "starts_char s"
  obtains w where "s = trim_end s @ w" "all_white w" "starts_char w" "starts_char (trim_end s)"
proof -
  let ?w = "rev (takeWhile is_whitespace (rev (chars s)))"
    and ?t = "rev (dropWhile is_whitespace (rev (chars s)))"
  have cs: "chars s = ?t @ ?w" by (metis rev_append rev_rev_ident takeWhile_dropWhile_id)
  have c: "chars (concat ?w) = ?w" using chars_drop [OF assms cs] by simp
  have s: "s = concat ?t @ concat ?w" by (metis concat_append concat_chars cs)
  have "all_white (concat ?w)" using c by (auto simp: all_white_def list_all_iff dest: set_takeWhileD)
  moreover have "starts_char (concat ?w)" "starts_char (concat ?t)"
    using starts_char_chars [OF assms]
    by (intro starts_char_concat; auto dest: set_dropWhileD set_takeWhileD)+
  ultimately show ?thesis using that [of "concat ?w"] s by (simp add: trim_end_def)
qed

lemma starts_char_trim_end: "starts_char s \<Longrightarrow> starts_char (trim_end s)"
  by (metis trim_end_split)

lemma starts_char_take: "starts_char s \<Longrightarrow> starts_char (take n s)"
  by (metis append_take_drop_id starts_char_appendD)

text \<open>White space at the end of a text is found from any character that is not white space.\<close>

lemma trim_end_extend:
  assumes "trim_end a = a" "starts_char b"
  shows "trim_end (a @ b) = a @ trim_end b"
  using trim_end_append [OF assms(2), of a] assms(1) by (auto simp: trim_end_Nil_iff [symmetric])

lemma trim_end_idem:
  assumes "starts_char s"
  shows "trim_end (trim_end s) = trim_end s"
proof -
  obtain w where w: "s = trim_end s @ w" "all_white w" "starts_char w" by (rule trim_end_split [OF assms])
  then show ?thesis using trim_end_append [of w "trim_end s"] by metis
qed

lemma utf8_after_ascii:
  assumes "utf8 s" "i < length s" "(of_char (s ! i) :: nat) < 0x80"
  shows "utf8 (drop (Suc i) s)"
proof -
  have "utf8 (drop i s)"
    using assms by (intro utf8_drop) (auto simp: continuation_byte_def)
  then show ?thesis
    using assms(2,3) by (simp add: Cons_nth_drop_Suc [symmetric] utf8_len.simps Let_def)
qed

text \<open>What follows a marker of ASCII characters is whole characters again.\<close>

lemma utf8_after:
  assumes "utf8 s" "str_find m s = Some i" "m \<noteq> []" "(of_char (last m) :: nat) < 0x80"
  shows "utf8 (drop (i + length m) s)"
proof -
  have l: "i + length m \<le> length s" by (rule str_find_length [OF assms(2)])
  have "prefix m (drop i s)" using assms(2) by (simp add: str_find_Some)
  then have "drop i s ! (length m - 1) = last m"
    using assms(3) by (auto simp: prefix_def nth_append last_conv_nth)
  then have "s ! (i + (length m - 1)) = last m" using l assms(3) by (simp add: nth_append)
  then show ?thesis
    using utf8_after_ascii [OF assms(1), of "i + (length m - 1)"] assms(3,4) l by (cases m) auto
qed

lemma utf8_drop_char: "utf8 s \<Longrightarrow> starts_char (drop i s) \<Longrightarrow> utf8 (drop i s)"
  by (cases "i < length s") (auto simp: starts_char_def hd_drop_conv_nth intro: utf8_drop)

end
