(* ===== verification/Batches.thy ===== *)
theory Batches
  imports Strings
begin

text \<open>
  Durable batch jobs (\<open>local-services/src/batches.rs\<close>): the validation of an input file, the
  stored batch with its lines, and the execution protocol (take the next line, settle it,
  begin finishing, record the ending, cancel) as transactions on the store's table.  A row of
  the \<open>batches\<close> table and its \<open>batch_lines\<close> is one record; an SQL transaction that fails leaves
  the table as it was.  JSON parsing and printing (\<open>serde_json\<close>), the random ids and the clock
  are parameters.  Error values keep the kind of the code's errors and leave out their text.
\<close>

section \<open>Data\<close>

definition MAX_LINES :: nat where "MAX_LINES = 50000"
definition MAX_LINE_BYTES :: nat where "MAX_LINE_BYTES = 2 * 2 ^ 20"
definition MAX_CUSTOM_ID_CHARS :: nat where "MAX_CUSTOM_ID_CHARS = 512"
definition COMPLETION_WINDOW :: string where "COMPLETION_WINDOW = ''24h''"
definition COMPLETION_WINDOW_SECONDS :: nat where "COMPLETION_WINDOW_SECONDS = 86400"
definition RECORD_PREFIX :: string where "RECORD_PREFIX = ''batch_req_''"
definition ID_PREFIX :: string where "ID_PREFIX = ''batch_''"
definition MAX_ID_TAIL :: nat where "MAX_ID_TAIL = 64"
definition RECORD_PAGE :: nat where "RECORD_PAGE = 256"

datatype service_error = InvalidArgument | InvalidLine nat | NotFound | Conflict | Corrupt | Sqlite

datatype endpoint = Responses | ChatCompletions

fun endpoint_as_str :: "endpoint \<Rightarrow> string" where
  "endpoint_as_str Responses = ''/v1/responses''"
| "endpoint_as_str ChatCompletions = ''/v1/chat/completions''"

definition endpoint_from_str :: "string \<Rightarrow> service_error + endpoint" where
  "endpoint_from_str v =
     (if v = ''/v1/responses'' then Inr Responses
      else if v = ''/v1/chat/completions'' then Inr ChatCompletions
      else Inl InvalidArgument)"

datatype batch_status =
  InProgress | Finalizing | Completed | Failed | Expired | Cancelling | Cancelled

fun status_as_str :: "batch_status \<Rightarrow> string" where
  "status_as_str InProgress = ''in_progress''"
| "status_as_str Finalizing = ''finalizing''"
| "status_as_str Completed = ''completed''"
| "status_as_str Failed = ''failed''"
| "status_as_str Expired = ''expired''"
| "status_as_str Cancelling = ''cancelling''"
| "status_as_str Cancelled = ''cancelled''"

fun is_terminal :: "batch_status \<Rightarrow> bool" where
  "is_terminal Completed = True"
| "is_terminal Failed = True"
| "is_terminal Expired = True"
| "is_terminal Cancelled = True"
| "is_terminal _ = False"

definition status_parse :: "string \<Rightarrow> service_error + batch_status" where
  "status_parse v =
     (if v = ''in_progress'' then Inr InProgress
      else if v = ''finalizing'' then Inr Finalizing
      else if v = ''completed'' then Inr Completed
      else if v = ''failed'' then Inr Failed
      else if v = ''expired'' then Inr Expired
      else if v = ''cancelling'' then Inr Cancelling
      else if v = ''cancelled'' then Inr Cancelled
      else Inl Corrupt)"

datatype line_state = Pending | Succeeded | LineFailed

record batch_line =
  bl_line :: nat
  bl_custom_id :: string
  bl_record_id :: string
  bl_body :: string
  bl_state :: line_state
  bl_result :: "string option"

text \<open>The columns \<open>in_progress_at\<close>, \<open>finalizing_at\<close>, \dots{} are one map from the status whose
  time they record (\<open>BatchStatus::time_column\<close>).\<close>

record batch_row =
  br_id :: string
  br_endpoint :: endpoint
  br_model :: string
  br_input_file_id :: string
  br_status :: batch_status
  br_ending :: "string option"
  br_metadata :: "(string \<times> string) list"
  br_errors :: "string option"
  br_output_file_id :: "string option"
  br_error_file_id :: "string option"
  br_created_at :: nat
  br_times :: "batch_status \<Rightarrow> nat option"
  br_expires_at :: nat
  br_total :: nat
  br_completed :: nat
  br_failed :: nat
  br_project_id :: "string option"
  br_api_key_id :: "string option"
  br_lines :: "batch_line list"

type_synonym batch_db = "batch_row list"

record owner =
  ow_project_id :: string
  ow_api_key_id :: string

record batch_lease =
  le_id :: string
  le_root :: string

record pending_line =
  pe_line :: nat
  pe_custom_id :: string
  pe_record_id :: string
  pe_endpoint :: endpoint
  pe_body :: string
  pe_expires_at :: nat
  pe_owner :: "owner option"

datatype next_line = Line pending_line | Finish | Done

datatype line_outcome =
    Response nat json
  | OutcomeError string string

record input_line =
  in_custom_id :: string
  in_body :: string

definition to_signed :: "nat \<Rightarrow> service_error + nat" where
  "to_signed value = (if value < 2 ^ 63 then Inr value else Inl Corrupt)"

section \<open>The input file\<close>

definition is_ascii_whitespace :: "char \<Rightarrow> bool" where
  "is_ascii_whitespace c \<longleftrightarrow> c \<in> {CHR '' '', CHR 0x09, CHR 0x0A, CHR 0x0C, CHR 0x0D}"

text \<open>\<open>read_until\<close> a newline, with the newline stripped; the last line may have none.\<close>

function read_lines :: "string \<Rightarrow> string list" where
  "read_lines bytes =
     (if bytes = [] then []
      else takeWhile (\<lambda>c. c \<noteq> CHR 0x0A) bytes #
           read_lines (drop 1 (dropWhile (\<lambda>c. c \<noteq> CHR 0x0A) bytes)))"
  by pat_completeness auto
termination
proof (relation "measure length", simp)
  fix bytes :: string
  assume "bytes \<noteq> []"
  have "length (dropWhile (\<lambda>c. c \<noteq> CHR 0x0A) bytes) \<le> length bytes" by (rule length_dropWhile_le)
  moreover have "length (drop 1 ys) < length bytes" if "length ys \<le> length bytes" for ys :: string
    using that \<open>bytes \<noteq> []\<close> by (cases ys) auto
  ultimately show "(drop 1 (dropWhile (\<lambda>c. c \<noteq> CHR 0x0A) bytes), bytes) \<in> measure length"
    by simp
qed

definition strip_cr :: "string \<Rightarrow> string" where
  "strip_cr text = (if text \<noteq> [] \<and> last text = CHR 0x0D then butlast text else text)"

definition flag_unset :: "json option \<Rightarrow> bool" where
  "flag_unset v \<longleftrightarrow> v \<in> {None, Some JNull, Some (JBool False)}"

definition parse_line ::
  "(string \<Rightarrow> json option) \<Rightarrow> ((string \<times> json) list \<Rightarrow> string) \<Rightarrow> string \<Rightarrow> endpoint \<Rightarrow> string option
   \<Rightarrow> (input_line \<times> string) option" where
  "parse_line from_slice to_string text ep model =
     Option.bind (Option.bind (from_slice text) as_object) (\<lambda>object.
     if \<exists>key \<in> fst ` set object. key \<notin> {''custom_id'', ''method'', ''url'', ''body''} then None
     else Option.bind (Option.bind (map_of object ''custom_id'') as_str) (\<lambda>cid.
     if cid = [] \<or> char_count cid > MAX_CUSTOM_ID_CHARS then None
     else if Option.bind (map_of object ''method'') as_str \<noteq> Some ''POST'' then None
     else if Option.bind (map_of object ''url'') as_str \<noteq> Some (endpoint_as_str ep) then None
     else Option.bind (Option.bind (map_of object ''body'') as_object) (\<lambda>body.
     Option.bind (Option.bind (map_of body ''model'') as_str) (\<lambda>name.
     if name = [] then None
     else if model \<noteq> None \<and> model \<noteq> Some name then None
     else if \<exists>flag \<in> {''stream'', ''background''}.
               \<not> flag_unset (map_of body flag) then None
     else Some (\<lparr>in_custom_id = cid, in_body = to_string body\<rparr>, name)))))"

fun parse_lines ::
  "(string \<Rightarrow> json option) \<Rightarrow> ((string \<times> json) list \<Rightarrow> string) \<Rightarrow> endpoint \<Rightarrow> string list \<Rightarrow> nat
   \<Rightarrow> nat option \<Rightarrow> string option \<Rightarrow> input_line list \<Rightarrow> service_error + (string option \<times> input_line list)"
where
  "parse_lines from_slice to_string ep [] number blank model lines = Inr (model, lines)"
| "parse_lines from_slice to_string ep (raw # rest) number0 blank model lines =
     (let number = number0 + 1;
          text = strip_cr raw in
      if list_all is_ascii_whitespace text then
        parse_lines from_slice to_string ep rest number
          (case blank of None \<Rightarrow> Some number | Some b \<Rightarrow> Some b) model lines
      else
        (case blank of
           Some b \<Rightarrow> Inl (InvalidLine b)
         | None \<Rightarrow>
             if length lines = MAX_LINES then Inl InvalidArgument
             else if length text > MAX_LINE_BYTES then Inl (InvalidLine number)
             else
               (case parse_line from_slice to_string text ep model of
                  None \<Rightarrow> Inl (InvalidLine number)
                | Some (line, name) \<Rightarrow>
                    if in_custom_id line \<in> in_custom_id ` set lines then Inl (InvalidLine number)
                    else parse_lines from_slice to_string ep rest number None (Some name)
                           (lines @ [line]))))"

definition parse_input ::
  "(string \<Rightarrow> json option) \<Rightarrow> ((string \<times> json) list \<Rightarrow> string) \<Rightarrow> string \<Rightarrow> endpoint
   \<Rightarrow> service_error + (string \<times> input_line list)" where
  "parse_input from_slice to_string content ep =
     (case parse_lines from_slice to_string ep (read_lines content) 0 None None [] of
        Inl e \<Rightarrow> Inl e
      | Inr (None, _) \<Rightarrow> Inl InvalidArgument
      | Inr (Some model, lines) \<Rightarrow> Inr (model, lines))"

declare read_lines.simps [simp del]

section \<open>The stored batches\<close>

text \<open>\<open>load\<close>: the row, unless a project is given that does not own it.\<close>

definition load :: "batch_db \<Rightarrow> string \<Rightarrow> string option \<Rightarrow> service_error + batch_row" where
  "load db bid project =
     ok_or (List.find (\<lambda>r. br_id r = bid \<and> (project = None \<or> br_project_id r = project)) db) NotFound"

definition update_row :: "string \<Rightarrow> (batch_row \<Rightarrow> batch_row) \<Rightarrow> batch_db \<Rightarrow> batch_db" where
  "update_row bid f db = map (\<lambda>r. if br_id r = bid then f r else r) db"

definition set_time :: "batch_status \<Rightarrow> nat \<Rightarrow> batch_row \<Rightarrow> batch_row" where
  "set_time st at r = r\<lparr>br_times := (br_times r)(st := Some at)\<rparr>"

text \<open>The insertion of a validated batch; \<open>record_ids\<close> are the fresh record ids of its lines.
  The unique columns refuse an id that is already taken.\<close>

definition new_lines :: "input_line list \<Rightarrow> (nat \<Rightarrow> string) \<Rightarrow> batch_line list" where
  "new_lines lines record_ids =
     map (\<lambda>(index, line).
            \<lparr>bl_line = index, bl_custom_id = in_custom_id line, bl_record_id = record_ids index,
             bl_body = in_body line, bl_state = Pending, bl_result = None\<rparr>)
       (List.enumerate 0 lines)"

record create_request =
  cr_input_file_id :: string
  cr_endpoint :: string
  cr_completion_window :: string
  cr_metadata :: "(string \<times> string) list"

definition validate_metadata :: "(string \<times> string) list \<Rightarrow> bool" where
  "validate_metadata metadata \<longleftrightarrow>
     length metadata \<le> 16 \<and>
     list_all (\<lambda>(key, val). char_count key \<le> 64 \<and> char_count val \<le> 512) metadata"

definition open_input :: "service_error + (bool \<times> string) \<Rightarrow> service_error + string" where
  "open_input content =
     (case content of
        Inl e \<Rightarrow> Inl (if e = NotFound then InvalidArgument else e)
      | Inr (for_batch, bytes) \<Rightarrow> if for_batch then Inr bytes else Inl InvalidArgument)"

text \<open>\<open>create_batch_accepting\<close>; \<open>content\<close> is the opened input file, with whether its purpose
  is \<open>batch\<close>.\<close>

definition create_batch ::
  "(string \<Rightarrow> json option) \<Rightarrow> ((string \<times> json) list \<Rightarrow> string) \<Rightarrow> batch_db \<Rightarrow> string option
   \<Rightarrow> create_request \<Rightarrow> service_error + (bool \<times> string) \<Rightarrow> (string \<Rightarrow> bool) \<Rightarrow> owner option
   \<Rightarrow> string \<Rightarrow> (nat \<Rightarrow> string) \<Rightarrow> nat \<Rightarrow> service_error + (batch_db \<times> batch_row)" where
  "create_batch from_slice to_string db project request content accept own new_id record_ids created_at =
     sbind (endpoint_from_str (cr_endpoint request)) (\<lambda>ep.
     if cr_completion_window request \<noteq> COMPLETION_WINDOW then Inl InvalidArgument
     else if \<not> validate_metadata (cr_metadata request) then Inl InvalidArgument
     else
       sbind (open_input content) (\<lambda>bytes.
            sbind (parse_input from_slice to_string bytes ep) (\<lambda>(model, lines).
            if \<not> accept model then Inl InvalidArgument
            else
              sbind (to_signed created_at) (\<lambda>_.
              sbind (to_signed (saturating_add created_at COMPLETION_WINDOW_SECONDS)) (\<lambda>expires_at.
              let row =
                \<lparr>br_id = new_id, br_endpoint = ep, br_model = model,
                 br_input_file_id = cr_input_file_id request, br_status = InProgress,
                 br_ending = None, br_metadata = cr_metadata request, br_errors = None,
                 br_output_file_id = None, br_error_file_id = None,
                 br_created_at = created_at,
                 br_times = (\<lambda>_. None)(InProgress := Some created_at),
                 br_expires_at = expires_at, br_total = length lines, br_completed = 0,
                 br_failed = 0,
                 br_project_id = (case own of Some o1 \<Rightarrow> Some (ow_project_id o1) | None \<Rightarrow> project),
                 br_api_key_id = map_option ow_api_key_id own,
                 br_lines = new_lines lines record_ids\<rparr>
              in if new_id \<in> br_id ` set db
                    \<or> \<not> distinct (map bl_record_id (concat (map br_lines (db @ [row]))))
                 then Inl Sqlite
                 else Inr (db @ [row], row))))))"

definition get_batch :: "batch_db \<Rightarrow> string option \<Rightarrow> string \<Rightarrow> service_error + batch_row" where
  "get_batch db project bid = load db bid project"

text \<open>\<open>list_batches\<close>: newest first, before a cursor, one page and whether more follow.  The
  table is in the order of \<open>seq\<close>.\<close>

definition list_batches ::
  "batch_db \<Rightarrow> string option \<Rightarrow> string option \<Rightarrow> nat option \<Rightarrow> service_error + (batch_row list \<times> bool)" where
  "list_batches db project after limit0 =
     (let limit = (case limit0 of Some l \<Rightarrow> l | None \<Rightarrow> 20);
          owned = (\<lambda>r. project = None \<or> br_project_id r = project) in
      if \<not> (1 \<le> limit \<and> limit \<le> 100) then Inl InvalidArgument
      else
        sbind (case after of
                 None \<Rightarrow> Inr (length db)
               | Some bid \<Rightarrow> ok_or (position (\<lambda>r. br_id r = bid \<and> owned r) db) NotFound)
          (\<lambda>cursor.
            let rows = take (limit + 1) (rev (filter owned (take cursor db)))
            in Inr (take limit rows, length rows > limit)))"

definition cancel_batch ::
  "batch_db \<Rightarrow> string option \<Rightarrow> string \<Rightarrow> nat \<Rightarrow> service_error + (batch_db \<times> batch_row)" where
  "cancel_batch db project bid at =
     sbind (load db bid project) (\<lambda>batch.
     sbind (case br_status batch of
              InProgress \<Rightarrow>
                sbind (to_signed at) (\<lambda>t.
                  Inr (update_row bid (\<lambda>r. set_time Cancelling t (r\<lparr>br_status := Cancelling\<rparr>)) db))
            | Cancelling \<Rightarrow> Inr db
            | Cancelled \<Rightarrow> Inr db
            | _ \<Rightarrow> Inl Conflict)
       (\<lambda>db1. sbind (load db1 bid None) (\<lambda>b. Inr (db1, b))))"

definition active_batches :: "batch_db \<Rightarrow> string list" where
  "active_batches db =
     map br_id (filter (\<lambda>r. br_status r \<in> {InProgress, Cancelling, Finalizing}) db)"

section \<open>The lease\<close>

definition is_ascii_alphanumeric :: "char \<Rightarrow> bool" where
  "is_ascii_alphanumeric c \<longleftrightarrow>
     (let n = (of_char c :: nat) in
      48 \<le> n \<and> n \<le> 57 \<or> 65 \<le> n \<and> n \<le> 90 \<or> 97 \<le> n \<and> n \<le> 122)"

definition validate_id :: "string \<Rightarrow> bool" where
  "validate_id bid \<longleftrightarrow>
     prefix ID_PREFIX bid \<and>
     (let tail = drop (length ID_PREFIX) bid in
      tail \<noteq> [] \<and> length tail \<le> MAX_ID_TAIL \<and> list_all is_ascii_alphanumeric tail)"

text \<open>\<open>held\<close> is the set of batches whose lock file is locked; taking a lock that is held gives
  no lease.\<close>

definition lease_batch ::
  "batch_db \<Rightarrow> string option \<Rightarrow> string \<Rightarrow> string set \<Rightarrow> string
   \<Rightarrow> service_error + (string set \<times> batch_lease option)" where
  "lease_batch db project root held bid =
     (if \<not> validate_id bid then Inl NotFound
      else
        sbind (load db bid project) (\<lambda>_.
          if bid \<in> held then Inr (held, None)
          else Inr (insert bid held, Some \<lparr>le_id = bid, le_root = root\<rparr>)))"

definition check_lease :: "string \<Rightarrow> batch_lease \<Rightarrow> service_error + unit" where
  "check_lease root lease = (if root = le_root lease then Inr () else Inl InvalidArgument)"

section \<open>Running a batch\<close>

definition row_owner :: "batch_row \<Rightarrow> owner option" where
  "row_owner r =
     (case (br_project_id r, br_api_key_id r) of
        (Some p, Some k) \<Rightarrow> Some \<lparr>ow_project_id = p, ow_api_key_id = k\<rparr>
      | _ \<Rightarrow> None)"

definition next_batch_line ::
  "batch_db \<Rightarrow> string option \<Rightarrow> string \<Rightarrow> batch_lease \<Rightarrow> nat \<Rightarrow> service_error + next_line" where
  "next_batch_line db project root lease at =
     sbind (check_lease root lease) (\<lambda>_.
     sbind (load db (le_id lease) project) (\<lambda>batch.
     if br_status batch = InProgress \<and> at < br_expires_at batch then
       (case List.find (\<lambda>l. bl_state l = Pending) (br_lines batch) of
          None \<Rightarrow> Inr Finish
        | Some l \<Rightarrow>
            Inr (Line \<lparr>pe_line = bl_line l, pe_custom_id = bl_custom_id l,
                       pe_record_id = bl_record_id l, pe_endpoint = br_endpoint batch,
                       pe_body = bl_body l, pe_expires_at = br_expires_at batch,
                       pe_owner = row_owner batch\<rparr>))
     else if br_status batch \<in> {InProgress, Cancelling, Finalizing} then Inr Finish
     else Inr Done))"

text \<open>\<open>record\<close>: the output record of a line and whether it counts as completed.\<close>

definition output_record ::
  "(json \<Rightarrow> string) \<Rightarrow> (nat \<Rightarrow> string) \<Rightarrow> string \<Rightarrow> string \<Rightarrow> line_outcome \<Rightarrow> bool \<times> string" where
  "output_record print decimal record_id custom_id outcome =
     (case outcome of
        Response status_code body \<Rightarrow>
          (200 \<le> status_code \<and> status_code < 300,
           print (JObj [(''id'', JStr record_id), (''custom_id'', JStr custom_id),
             (''response'', JObj [(''status_code'', JNum (decimal status_code)),
                (''request_id'', JStr (''req_'' @
                   (case strip_prefix record_id RECORD_PREFIX of
                      Some tail \<Rightarrow> tail | None \<Rightarrow> record_id))),
                (''body'', body)]),
             (''error'', JNull)]))
      | OutcomeError code message \<Rightarrow>
          (False,
           print (JObj [(''id'', JStr record_id), (''custom_id'', JStr custom_id),
             (''response'', JNull),
             (''error'', JObj [(''code'', JStr code), (''message'', JStr message)])])))"

definition settle_line :: "nat \<Rightarrow> bool \<Rightarrow> string \<Rightarrow> batch_row \<Rightarrow> batch_row" where
  "settle_line index succeeded result r =
     (let r1 = r\<lparr>br_lines := map (\<lambda>l. if bl_line l = index \<and> bl_state l = Pending
                                   then l\<lparr>bl_state := (if succeeded then Succeeded else LineFailed),
                                          bl_result := Some result\<rparr>
                                   else l) (br_lines r)\<rparr>
      in if succeeded then r1\<lparr>br_completed := br_completed r1 + 1\<rparr>
         else r1\<lparr>br_failed := br_failed r1 + 1\<rparr>)"

definition settle_batch_line ::
  "(json \<Rightarrow> string) \<Rightarrow> (nat \<Rightarrow> string) \<Rightarrow> batch_db \<Rightarrow> string option \<Rightarrow> string \<Rightarrow> batch_lease \<Rightarrow> nat
   \<Rightarrow> line_outcome \<Rightarrow> service_error + (batch_db \<times> bool)" where
  "settle_batch_line print decimal db project root lease line outcome =
     sbind (check_lease root lease) (\<lambda>_.
     sbind (load db (le_id lease) project) (\<lambda>batch.
     if br_ending batch \<noteq> None \<or> br_status batch \<notin> {InProgress, Cancelling} then Inl Conflict
     else
       sbind (to_signed line) (\<lambda>index.
       sbind (ok_or (List.find (\<lambda>l. bl_line l = index) (br_lines batch)) NotFound) (\<lambda>l.
       if bl_state l \<noteq> Pending then Inr (db, False)
       else
         let (succeeded, result) =
               output_record print decimal (bl_record_id l) (bl_custom_id l) outcome
         in Inr (update_row (le_id lease) (settle_line index succeeded result) db, True)))))"

definition EXPIRED_MESSAGE :: string where
  "EXPIRED_MESSAGE =
     ''this request was not executed before the batch's completion window expired''"

definition expire_pending :: "(json \<Rightarrow> string) \<Rightarrow> (nat \<Rightarrow> string) \<Rightarrow> batch_row \<Rightarrow> batch_row" where
  "expire_pending print decimal r =
     (let outcome = OutcomeError ''batch_expired'' EXPIRED_MESSAGE in
      r\<lparr>br_lines := map (\<lambda>l. if bl_state l = Pending
                           then l\<lparr>bl_state := LineFailed,
                                  bl_result := Some (snd (output_record print decimal
                                    (bl_record_id l) (bl_custom_id l) outcome))\<rparr>
                           else l) (br_lines r),
        br_failed := br_failed r + length (filter (\<lambda>l. bl_state l = Pending) (br_lines r))\<rparr>)"

definition begin_finish ::
  "(json \<Rightarrow> string) \<Rightarrow> (nat \<Rightarrow> string) \<Rightarrow> batch_db \<Rightarrow> string option \<Rightarrow> batch_lease \<Rightarrow> nat
   \<Rightarrow> service_error + (batch_db \<times> batch_status option)" where
  "begin_finish print decimal db project lease at =
     sbind (load db (le_id lease) project) (\<lambda>batch.
     if is_terminal (br_status batch) then Inr (db, None)
     else case br_status batch of
        Cancelling \<Rightarrow>
          Inr (update_row (le_id lease)
                 (\<lambda>r. if br_ending r = None then r\<lparr>br_ending := Some (status_as_str Cancelled)\<rparr> else r) db,
               Some Cancelled)
      | Finalizing \<Rightarrow>
          sbind (case br_ending batch of None \<Rightarrow> Inr Completed | Some s \<Rightarrow> status_parse s)
            (\<lambda>ending. Inr (db, Some ending))
      | _ \<Rightarrow>
          let pending = length (filter (\<lambda>l. bl_state l = Pending) (br_lines batch)) in
          sbind (if at \<ge> br_expires_at batch then Inr Expired
                 else if pending = 0 then Inr Completed
                 else Inl Conflict) (\<lambda>ending.
          sbind (to_signed at) (\<lambda>t.
            Inr (update_row (le_id lease)
                   (\<lambda>r. set_time Finalizing t
                          ((if ending = Expired then expire_pending print decimal r else r)
                             \<lparr>br_status := Finalizing, br_ending := Some (status_as_str ending)\<rparr>)) db,
                 Some ending))))"

text \<open>The second transaction of \<open>finish_batch\<close>; \<open>written\<close> is what writing the result files
  gave.\<close>

definition end_finish ::
  "batch_db \<Rightarrow> string \<Rightarrow> batch_status \<Rightarrow> service_error + (string option \<times> string option) \<Rightarrow> nat
   \<Rightarrow> service_error + batch_db" where
  "end_finish db bid ending written at0 =
     sbind (to_signed at0) (\<lambda>at.
     Inr (update_row bid (\<lambda>r.
       if br_status r \<notin> {Finalizing, Cancelling} then r
       else case written of
          Inr (out, err) \<Rightarrow>
            set_time ending at (r\<lparr>br_status := ending, br_output_file_id := out,
                                  br_error_file_id := err\<rparr>)
        | Inl e \<Rightarrow>
            set_time Failed at (r\<lparr>br_status := Failed, br_errors := Some ''output_failed''\<rparr>)) db))"

definition finish_batch ::
  "(json \<Rightarrow> string) \<Rightarrow> (nat \<Rightarrow> string) \<Rightarrow> (batch_row \<Rightarrow> service_error + (string option \<times> string option))
   \<Rightarrow> batch_db \<Rightarrow> string option \<Rightarrow> string \<Rightarrow> batch_lease \<Rightarrow> nat \<Rightarrow> nat
   \<Rightarrow> service_error + (batch_db \<times> batch_row)" where
  "finish_batch print decimal write_results db project root lease at at_end =
     sbind (check_lease root lease) (\<lambda>_.
     sbind (begin_finish print decimal db project lease at) (\<lambda>(db1, ending).
     case ending of
       None \<Rightarrow> sbind (get_batch db1 project (le_id lease)) (\<lambda>b. Inr (db1, b))
     | Some e \<Rightarrow>
         sbind (load db1 (le_id lease) project) (\<lambda>row.
         sbind (end_finish db1 (le_id lease) e (write_results row) at_end) (\<lambda>db2.
         sbind (load db2 (le_id lease) project) (\<lambda>b. Inr (db2, b))))))"

section \<open>Streaming a result file\<close>

record records_state =
  rc_after :: int
  rc_buffer :: string
  rc_position :: nat
  rc_done :: bool

definition record_bytes :: "batch_line \<Rightarrow> string" where
  "record_bytes l = (case bl_result l of Some r \<Rightarrow> r | None \<Rightarrow> []) @ [CHR 0x0A]"

definition records_after :: "batch_line list \<Rightarrow> int \<Rightarrow> batch_line list" where
  "records_after rows after = filter (\<lambda>l. after < int (bl_line l)) rows"

definition refill :: "batch_line list \<Rightarrow> records_state \<Rightarrow> records_state" where
  "refill rows st =
     (let page = take RECORD_PAGE (records_after rows (rc_after st)) in
      \<lparr>rc_after = (if page = [] then rc_after st else int (bl_line (last page))),
       rc_buffer = concat (map record_bytes page),
       rc_position = 0,
       rc_done = (page = [])\<rparr>)"

lemma records_after_mono: "a \<le> b \<Longrightarrow> length (records_after rows b) \<le> length (records_after rows a)"
  by (induction rows) (auto simp: records_after_def)

lemma records_after_less:
  assumes "l \<in> set rows" "a < int (bl_line l)"
  shows "length (records_after rows (int (bl_line l))) < length (records_after rows a)"
proof -
  have "records_after rows (int (bl_line l)) =
      filter (\<lambda>x. int (bl_line l) < int (bl_line x)) (records_after rows a)"
    using assms(2) by (auto simp: records_after_def intro!: filter_cong)
  moreover have "l \<in> set (records_after rows a)" using assms by (simp add: records_after_def)
  ultimately show ?thesis by (metis length_filter_less less_irrefl)
qed

lemma refill_progress:
  "\<not> rc_done (refill rows st) \<Longrightarrow>
     length (records_after rows (rc_after (refill rows st))) < length (records_after rows (rc_after st))"
proof -
  assume "\<not> rc_done (refill rows st)"
  then have ne: "take RECORD_PAGE (records_after rows (rc_after st)) \<noteq> []"
    by (simp add: refill_def Let_def)
  let ?l = "last (take RECORD_PAGE (records_after rows (rc_after st)))"
  have "?l \<in> set (records_after rows (rc_after st))"
    by (rule in_set_takeD [OF last_in_set [OF ne]])
  then have "?l \<in> set rows" "rc_after st < int (bl_line ?l)" by (simp_all add: records_after_def)
  from records_after_less [OF this] show ?thesis
    by (simp only: refill_def Let_def records_state.simps ne if_False)
qed

function fill :: "batch_line list \<Rightarrow> records_state \<Rightarrow> records_state" where
  "fill rows st =
     (if rc_position st \<ge> length (rc_buffer st) \<and> \<not> rc_done st then fill rows (refill rows st) else st)"
  by pat_completeness auto
termination
proof (relation "measure (\<lambda>(rows, st). length (records_after rows (rc_after st)) + (if rc_done st then 0 else 1))",
    simp)
  fix rows and st :: records_state
  assume "length (rc_buffer st) \<le> rc_position st \<and> \<not> rc_done st"
  moreover have "rc_done (refill rows st) \<Longrightarrow> rc_after (refill rows st) = rc_after st"
    by (auto simp: refill_def Let_def)
  ultimately show "((rows, refill rows st), rows, st)
      \<in> measure (\<lambda>(rows, st). length (records_after rows (rc_after st)) + (if rc_done st then 0 else 1))"
    using refill_progress [of rows st] by (cases "rc_done (refill rows st)") auto
qed

declare fill.simps [simp del]

definition records_read :: "batch_line list \<Rightarrow> records_state \<Rightarrow> nat \<Rightarrow> string \<times> records_state" where
  "records_read rows st room =
     (let st1 = fill rows st in
      if rc_position st1 \<ge> length (rc_buffer st1) then ([], st1)
      else
        let available = drop (rc_position st1) (rc_buffer st1);
            copied = min (length available) room
        in (take copied available, st1\<lparr>rc_position := rc_position st1 + copied\<rparr>))"

definition records_start :: records_state where
  "records_start = \<lparr>rc_after = - 1, rc_buffer = [], rc_position = 0, rc_done = False\<rparr>"

section \<open>Invariant of a stored batch\<close>

definition count_state :: "line_state \<Rightarrow> batch_line list \<Rightarrow> nat" where
  "count_state st lines = length (filter (\<lambda>l. bl_state l = st) lines)"

definition ending_ok :: "batch_status \<Rightarrow> string option \<Rightarrow> bool" where
  "ending_ok st ending \<longleftrightarrow>
     (case st of
        InProgress \<Rightarrow> ending = None
      | Cancelling \<Rightarrow> ending \<in> {None, Some (status_as_str Cancelled)}
      | Finalizing \<Rightarrow> ending \<in> {Some (status_as_str Completed), Some (status_as_str Expired)}
      | _ \<Rightarrow> True)"

definition batch_ok :: "batch_row \<Rightarrow> bool" where
  "batch_ok r \<longleftrightarrow>
     map bl_line (br_lines r) = [0..<length (br_lines r)] \<and>
     distinct (map bl_custom_id (br_lines r)) \<and>
     br_total r = length (br_lines r) \<and>
     br_completed r = count_state Succeeded (br_lines r) \<and>
     br_failed r = count_state LineFailed (br_lines r) \<and>
     list_all (\<lambda>l. (bl_result l = None) = (bl_state l = Pending)) (br_lines r) \<and>
     (br_status r \<in> {Finalizing, Completed, Expired} \<longrightarrow> count_state Pending (br_lines r) = 0) \<and>
     ending_ok (br_status r) (br_ending r)"

definition db_ok :: "batch_db \<Rightarrow> bool" where
  "db_ok db \<longleftrightarrow> distinct (map br_id db) \<and> list_all batch_ok db"

lemma count_state_total:
  "count_state Pending ls + count_state Succeeded ls + count_state LineFailed ls = length ls"
proof (induction ls)
  case Nil
  then show ?case by (simp add: count_state_def)
next
  case (Cons l ls)
  then show ?case by (cases "bl_state l") (simp_all add: count_state_def)
qed

lemma load_InrD:
  "load db bid project = Inr b \<Longrightarrow>
     b \<in> set db \<and> br_id b = bid \<and> (project = None \<or> br_project_id b = project)"
  by (auto simp: load_def find_Some_iff)

lemma load_unique:
  "db_ok db \<Longrightarrow> load db bid project = Inr b \<Longrightarrow> r \<in> set db \<Longrightarrow> br_id r = bid \<Longrightarrow> r = b"
  using load_InrD [of db bid project b] by (auto simp: db_ok_def distinct_map inj_on_def)

lemma update_row_ids:
  "(\<And>r. r \<in> set db \<Longrightarrow> br_id r = bid \<Longrightarrow> br_id (f r) = bid) \<Longrightarrow> map br_id (update_row bid f db) = map br_id db"
  by (auto simp: update_row_def)

lemma update_row_ok:
  assumes ok: "db_ok db" and b: "load db bid project = Inr b"
    and f: "batch_ok b \<Longrightarrow> batch_ok (f b)" "br_id (f b) = br_id b"
  shows "db_ok (update_row bid f db)"
proof -
  have u: "br_id r = bid \<Longrightarrow> r \<in> set db \<Longrightarrow> r = b" for r using load_unique [OF ok b] by blast
  have "map br_id (update_row bid f db) = map br_id db"
    using u f(2) load_InrD [OF b] by (intro update_row_ids) auto
  moreover have "list_all batch_ok (update_row bid f db)"
    using ok u f(1) by (auto simp: update_row_def db_ok_def list_all_iff)
  ultimately show ?thesis using ok by (simp add: db_ok_def)
qed

lemma set_update_row:
  assumes ok: "db_ok db" and b: "load db bid project = Inr b"
  shows "set (update_row bid f db) = insert (f b) (set db - {b})"
proof -
  have "br_id r = bid \<longleftrightarrow> r = b" if "r \<in> set db" for r
    using load_unique [OF ok b that] load_InrD [OF b] by blast
  then have "update_row bid f db = map (\<lambda>r. if r = b then f b else r) db"
    unfolding update_row_def by (intro map_cong) auto
  then show ?thesis using load_InrD [OF b] by auto
qed

section \<open>Settling a line\<close>

lemma count_state_settle:
  assumes "distinct (map bl_line ls)" "l \<in> set ls" "bl_line l = i" "bl_state l = Pending" "st \<noteq> Pending"
  shows "count_state s (map (\<lambda>l. if bl_line l = i \<and> bl_state l = Pending
                                 then l\<lparr>bl_state := st, bl_result := Some res\<rparr> else l) ls) =
    (if s = st then count_state s ls + 1 else if s = Pending then count_state s ls - 1
     else count_state s ls)"
  using assms
proof (induction ls)
  case Nil
  then show ?case by simp
next
  case (Cons x xs)
  have other: "map (\<lambda>l. if bl_line l = i \<and> bl_state l = Pending
                 then l\<lparr>bl_state := st, bl_result := Some res\<rparr> else l) xs = xs" if "x = l"
    using Cons.prems that by (intro map_idI) (auto simp: rev_image_eqI)
  show ?case
  proof (cases "x = l")
    case True
    then show ?thesis using Cons.prems by (simp add: other count_state_def)
  next
    case False
    then have l: "l \<in> set xs" using Cons.prems by simp
    then have "bl_line x \<noteq> i" using Cons.prems by auto
    moreover have "0 < count_state Pending xs"
      using l Cons.prems by (auto simp: count_state_def filter_empty_conv)
    ultimately show ?thesis using Cons l by (auto simp: count_state_def)
  qed
qed

lemma settle_line_ok:
  assumes ok: "batch_ok r" and st: "br_status r \<in> {InProgress, Cancelling}"
    and l: "List.find (\<lambda>l. bl_line l = i) (br_lines r) = Some l" "bl_state l = Pending"
  shows "batch_ok (settle_line i succeeded res r)"
proof -
  let ?st = "if succeeded then Succeeded else LineFailed"
  let ?f = "\<lambda>l. if bl_line l = i \<and> bl_state l = Pending
     then l\<lparr>bl_state := ?st, bl_result := Some res\<rparr> else l"
  have mem: "l \<in> set (br_lines r)" "bl_line l = i" using l(1) by (auto simp: find_Some_iff)
  have d: "distinct (map bl_line (br_lines r))" using ok by (simp add: batch_ok_def)
  note count = count_state_settle [OF d mem l(2), of ?st _ res]
  have keep: "map bl_line (map ?f (br_lines r)) = map bl_line (br_lines r)"
    "map bl_custom_id (map ?f (br_lines r)) = map bl_custom_id (br_lines r)" by auto
  have res: "list_all (\<lambda>l. (bl_result l = None) = (bl_state l = Pending)) (map ?f (br_lines r))"
    using ok by (auto simp: batch_ok_def list_all_iff)
  have upd: "br_lines (settle_line i succeeded res r) = map ?f (br_lines r)"
    "br_total (settle_line i succeeded res r) = br_total r"
    "br_status (settle_line i succeeded res r) = br_status r"
    "br_ending (settle_line i succeeded res r) = br_ending r"
    "br_completed (settle_line i succeeded res r) = br_completed r + (if succeeded then 1 else 0)"
    "br_failed (settle_line i succeeded res r) = br_failed r + (if succeeded then 0 else 1)"
    by (simp_all add: settle_line_def Let_def)
  have "count_state Succeeded (map ?f (br_lines r)) = br_completed r + (if succeeded then 1 else 0)"
    "count_state LineFailed (map ?f (br_lines r)) = br_failed r + (if succeeded then 0 else 1)"
    using ok count by (simp_all add: batch_ok_def)
  moreover have "br_status r \<notin> {Finalizing, Completed, Expired}" using st by auto
  ultimately show ?thesis using ok res unfolding batch_ok_def upd keep length_map by simp
qed

lemma settle_cases:
  assumes "settle_batch_line print decimal db project root lease line outcome = Inr (db', settled)"
  shows "\<exists>b l. root = le_root lease \<and> line < 2 ^ 63 \<and> load db (le_id lease) project = Inr b \<and>
    br_ending b = None \<and> br_status b \<in> {InProgress, Cancelling} \<and>
    List.find (\<lambda>l. bl_line l = line) (br_lines b) = Some l \<and>
    (if bl_state l = Pending
     then settled \<and> db' = update_row (le_id lease)
            (settle_line line (fst (output_record print decimal (bl_record_id l) (bl_custom_id l) outcome))
              (snd (output_record print decimal (bl_record_id l) (bl_custom_id l) outcome))) db
     else \<not> settled \<and> db' = db)"
proof -
  have root: "root = le_root lease" using assms
    by (cases "root = le_root lease") (simp_all add: settle_batch_line_def check_lease_def del: sbind_Inr)
  obtain b where b: "load db (le_id lease) project = Inr b"
    using assms root by (cases "load db (le_id lease) project")
      (simp_all add: settle_batch_line_def check_lease_def del: sbind_Inr)
  have st: "br_ending b = None \<and> br_status b \<in> {InProgress, Cancelling} \<and> line < 2 ^ 63"
    using assms root b
    by (auto simp: settle_batch_line_def check_lease_def to_signed_def split: if_splits
        simp del: sbind_Inr)
  obtain l where l: "List.find (\<lambda>l. bl_line l = line) (br_lines b) = Some l"
    using assms root b st by (cases "List.find (\<lambda>l. bl_line l = line) (br_lines b)")
      (auto simp: settle_batch_line_def check_lease_def to_signed_def ok_or_def
        split: if_splits simp del: sbind_Inr)
  show ?thesis using assms root b st l
    by (intro exI [of _ b] exI [of _ l])
      (auto simp: settle_batch_line_def check_lease_def to_signed_def ok_or_def case_prod_beta
        split: if_splits simp del: sbind_Inr)
qed

lemma settle_ok:
  assumes "db_ok db" "settle_batch_line print decimal db project root lease line outcome = Inr (db', settled)"
  shows "db_ok db'"
proof -
  obtain b l where b: "load db (le_id lease) project = Inr b" "br_status b \<in> {InProgress, Cancelling}"
    "List.find (\<lambda>l. bl_line l = line) (br_lines b) = Some l"
    "if bl_state l = Pending
     then settled \<and> db' = update_row (le_id lease)
            (settle_line line (fst (output_record print decimal (bl_record_id l) (bl_custom_id l) outcome))
              (snd (output_record print decimal (bl_record_id l) (bl_custom_id l) outcome))) db
     else \<not> settled \<and> db' = db"
    using settle_cases [OF assms(2)] by blast
  show ?thesis
  proof (cases "bl_state l = Pending")
    case True
    then show ?thesis using b(4) update_row_ok [OF assms(1) b(1)] settle_line_ok [OF _ b(2,3) True]
      by (simp add: settle_line_def Let_def)
  next
    case False
    then show ?thesis using b(4) assms(1) by simp
  qed
qed

section \<open>The other operations\<close>

lemma set_time_simps [simp]:
  "br_id (set_time st t r) = br_id r" "br_status (set_time st t r) = br_status r"
  "br_ending (set_time st t r) = br_ending r" "br_lines (set_time st t r) = br_lines r"
  "br_total (set_time st t r) = br_total r" "br_completed (set_time st t r) = br_completed r"
  "br_failed (set_time st t r) = br_failed r" "br_project_id (set_time st t r) = br_project_id r"
  "br_times (set_time st t r) st = Some t"
  by (simp_all add: set_time_def)

text \<open>Only the status, the ending and the lines matter to the invariant.\<close>

lemma batch_ok_move:
  assumes "batch_ok r" "br_lines r' = br_lines r" "br_total r' = br_total r"
    "br_completed r' = br_completed r" "br_failed r' = br_failed r"
    "br_status r' \<in> {Finalizing, Completed, Expired} \<Longrightarrow> count_state Pending (br_lines r) = 0"
    "ending_ok (br_status r') (br_ending r')"
  shows "batch_ok r'"
  using assms unfolding batch_ok_def by simp

lemma cancel_cases:
  assumes "cancel_batch db project bid at = Inr (db', b')"
  shows "\<exists>b. load db bid project = Inr b \<and>
    (br_status b = InProgress \<and> db' = update_row bid (\<lambda>r. set_time Cancelling at (r\<lparr>br_status := Cancelling\<rparr>)) db
     \<or> br_status b \<in> {Cancelling, Cancelled} \<and> db' = db)"
proof -
  obtain b where b: "load db bid project = Inr b"
    using assms by (cases "load db bid project") (auto simp: cancel_batch_def simp del: sbind_Inr)
  then show ?thesis using assms
    by (intro exI [of _ b], cases "br_status b")
      (auto simp: cancel_batch_def to_signed_def split: if_splits)
qed

lemma cancel_ok:
  assumes "db_ok db" "cancel_batch db project bid at = Inr (db', b')"
  shows "db_ok db'"
proof -
  obtain b where b: "load db bid project = Inr b"
    "br_status b = InProgress \<and> db' = update_row bid (\<lambda>r. set_time Cancelling at (r\<lparr>br_status := Cancelling\<rparr>)) db
     \<or> br_status b \<in> {Cancelling, Cancelled} \<and> db' = db"
    using cancel_cases [OF assms(2)] by blast
  have "batch_ok (set_time Cancelling at (b\<lparr>br_status := Cancelling\<rparr>))"
    if "batch_ok b" "br_status b = InProgress"
  proof (rule batch_ok_move [OF that(1)])
    show "ending_ok (br_status (set_time Cancelling at (b\<lparr>br_status := Cancelling\<rparr>)))
        (br_ending (set_time Cancelling at (b\<lparr>br_status := Cancelling\<rparr>)))"
      using that by (simp add: ending_ok_def batch_ok_def)
  qed simp_all
  then show ?thesis using b(2) assms(1) update_row_ok [OF assms(1) b(1)] by auto
qed

lemma expire_pending_ok:
  assumes "batch_ok r"
  shows "map bl_line (br_lines (expire_pending print decimal r)) = map bl_line (br_lines r)"
    "map bl_custom_id (br_lines (expire_pending print decimal r)) = map bl_custom_id (br_lines r)"
    "count_state Pending (br_lines (expire_pending print decimal r)) = 0"
    "br_total (expire_pending print decimal r) = br_total r"
    "br_completed (expire_pending print decimal r) = br_completed r"
    "br_completed r = count_state Succeeded (br_lines (expire_pending print decimal r))"
    "br_failed (expire_pending print decimal r) = count_state LineFailed (br_lines (expire_pending print decimal r))"
    "list_all (\<lambda>l. (bl_result l = None) = (bl_state l = Pending)) (br_lines (expire_pending print decimal r))"
    "br_id (expire_pending print decimal r) = br_id r"
proof -
  let ?res = "\<lambda>l. Some (snd (output_record print decimal (bl_record_id l) (bl_custom_id l)
      (OutcomeError ''batch_expired'' EXPIRED_MESSAGE)))"
  let ?f = "\<lambda>l. if bl_state l = Pending then l\<lparr>bl_state := LineFailed, bl_result := ?res l\<rparr> else l"
  have lines: "br_lines (expire_pending print decimal r) = map ?f (br_lines r)"
    by (simp add: expire_pending_def Let_def)
  show "map bl_line (br_lines (expire_pending print decimal r)) = map bl_line (br_lines r)"
    "map bl_custom_id (br_lines (expire_pending print decimal r)) = map bl_custom_id (br_lines r)"
    by (simp_all add: lines)
  have p: "count_state Pending (map ?f ls) = 0" for ls by (simp add: count_state_def)
  have c: "count_state Succeeded (map ?f ls) = count_state Succeeded ls"
    "count_state LineFailed (map ?f ls) = count_state LineFailed ls + count_state Pending ls" for ls
    by (induction ls) (auto simp: count_state_def)
  show "count_state Pending (br_lines (expire_pending print decimal r)) = 0"
    "br_completed r = count_state Succeeded (br_lines (expire_pending print decimal r))"
    "br_failed (expire_pending print decimal r) = count_state LineFailed (br_lines (expire_pending print decimal r))"
    using assms unfolding lines c p
    by (simp_all add: batch_ok_def expire_pending_def Let_def count_state_def)
  show "list_all (\<lambda>l. (bl_result l = None) = (bl_state l = Pending)) (br_lines (expire_pending print decimal r))"
    using assms unfolding lines batch_ok_def by (auto simp: list_all_iff)
qed (simp_all add: expire_pending_def Let_def)

lemma begin_finish_row_ok:
  assumes "batch_ok r" "ending = Expired \<or> count_state Pending (br_lines r) = 0 \<and> ending = Completed"
  shows "batch_ok (set_time Finalizing t
      ((if ending = Expired then expire_pending print decimal r else r)
         \<lparr>br_status := Finalizing, br_ending := Some (status_as_str ending)\<rparr>))"
proof -
  have lens: "length (br_lines (expire_pending print decimal r)) = length (br_lines r)"
    using expire_pending_ok(1) [OF assms(1), of print decimal] by (metis length_map)
  show ?thesis
  proof (cases "ending = Expired")
    case True
    then show ?thesis using assms(1) expire_pending_ok [OF assms(1), of print decimal] lens
      unfolding batch_ok_def by (simp add: ending_ok_def)
  next
    case False
    then show ?thesis using assms
      by (intro batch_ok_move [OF assms(1)]) (auto simp: ending_ok_def)
  qed
qed

lemma begin_finish_cases:
  assumes "begin_finish print decimal db project lease at = Inr (db', e)"
  shows "\<exists>b. load db (le_id lease) project = Inr b \<and>
    (case br_status b of
       InProgress \<Rightarrow>
         (at \<ge> br_expires_at b \<and> e = Some Expired \<or>
          at < br_expires_at b \<and> count_state Pending (br_lines b) = 0 \<and> e = Some Completed) \<and>
         db' = update_row (le_id lease)
                 (\<lambda>r. set_time Finalizing at
                        ((if the e = Expired then expire_pending print decimal r else r)
                           \<lparr>br_status := Finalizing, br_ending := Some (status_as_str (the e))\<rparr>)) db
     | Cancelling \<Rightarrow>
         e = Some Cancelled \<and>
         db' = update_row (le_id lease)
                 (\<lambda>r. if br_ending r = None then r\<lparr>br_ending := Some (status_as_str Cancelled)\<rparr> else r) db
     | Finalizing \<Rightarrow>
         db' = db \<and> (case br_ending b of None \<Rightarrow> e = Some Completed
                      | Some s \<Rightarrow> (\<exists>st. status_parse s = Inr st \<and> e = Some st))
     | _ \<Rightarrow> e = None \<and> db' = db)"
proof -
  obtain b where b: "load db (le_id lease) project = Inr b"
    using assms by (cases "load db (le_id lease) project") (auto simp: begin_finish_def simp del: sbind_Inr)
  then show ?thesis using assms
    by (intro exI [of _ b], cases "br_status b")
      (auto simp: begin_finish_def to_signed_def count_state_def Let_def split: if_splits option.splits)
qed

lemma status_roundtrip: "status_parse (status_as_str st) = Inr st"
  by (cases st) (simp_all add: status_parse_def)

lemma status_as_str_inj: "status_as_str a = status_as_str b \<Longrightarrow> a = b"
  by (metis status_roundtrip sum.inject(2))

text \<open>Where a worker that began finishing stands: the row still leads to the ending it was
  given, or has ended.\<close>

definition ending_agrees :: "batch_row \<Rightarrow> batch_status \<Rightarrow> bool" where
  "ending_agrees r e \<longleftrightarrow>
     is_terminal (br_status r) \<or>
     br_status r = Finalizing \<and> br_ending r = Some (status_as_str e) \<and> e \<in> {Completed, Expired} \<or>
     br_status r = Cancelling \<and> br_ending r = Some (status_as_str Cancelled) \<and> e = Cancelled"

lemma begin_finish_ok:
  assumes ok: "db_ok db" and bf: "begin_finish print decimal db project lease at = Inr (db', e)"
  shows "db_ok db'" "e = Some st \<Longrightarrow> r \<in> set db' \<Longrightarrow> br_id r = le_id lease \<Longrightarrow> ending_agrees r st"
    "r \<in> set db \<Longrightarrow> br_id r = le_id lease \<Longrightarrow> is_terminal (br_status r) \<Longrightarrow> e = None"
proof -
  note C = begin_finish_cases [OF bf]
  obtain b where b: "load db (le_id lease) project = Inr b" using C by blast
  have bok: "batch_ok b" using ok load_InrD [OF b] by (simp add: db_ok_def list_all_iff)
  note K = load_InrD [OF b] load_unique [OF ok b]
  have row: "r \<in> set db' \<Longrightarrow> br_id r = le_id lease \<Longrightarrow> r = f b"
    if "db' = update_row (le_id lease) f db" "br_id (f b) = le_id lease" for f r
    using set_update_row [OF ok b, of f] K that by auto
  have "db_ok db' \<and> (\<forall>st r. e = Some st \<and> r \<in> set db' \<and> br_id r = le_id lease \<longrightarrow> ending_agrees r st)
    \<and> (is_terminal (br_status b) \<longrightarrow> e = None)"
  proof (cases "br_status b")
    case InProgress
    let ?f = "\<lambda>r. set_time Finalizing at
                    ((if the e = Expired then expire_pending print decimal r else r)
                       \<lparr>br_status := Finalizing, br_ending := Some (status_as_str (the e))\<rparr>)"
    have e: "e = Some Expired \<or> count_state Pending (br_lines b) = 0 \<and> e = Some Completed"
      and d: "db' = update_row (le_id lease) ?f db"
      using C b InProgress by auto
    have "batch_ok (?f b)" using begin_finish_row_ok [OF bok, of "the e"] e by auto
    moreover have i: "br_id (?f b) = br_id b" using expire_pending_ok(9) [OF bok] by simp
    ultimately have "db_ok db'" unfolding d by (intro update_row_ok [OF ok b])
    moreover have "ending_agrees (?f b) (the e)" using e by (auto simp: ending_agrees_def)
    ultimately show ?thesis using row [OF d] i K(1) e InProgress by auto
  next
    case Cancelling
    let ?f = "\<lambda>r. if br_ending r = None then r\<lparr>br_ending := Some (status_as_str Cancelled)\<rparr> else r"
    have e: "e = Some Cancelled" and d: "db' = update_row (le_id lease) ?f db"
      using C b Cancelling by auto
    have en: "br_ending (?f b) = Some (status_as_str Cancelled)"
      using bok Cancelling by (auto simp: batch_ok_def ending_ok_def)
    have "br_status (?f b) = Cancelling" "br_lines (?f b) = br_lines b" "br_total (?f b) = br_total b"
      "br_completed (?f b) = br_completed b" "br_failed (?f b) = br_failed b"
      using Cancelling by simp_all
    then have "batch_ok (?f b)" using en
      by (intro batch_ok_move [OF bok]) (simp_all add: ending_ok_def)
    then have "db_ok db'" unfolding d by (intro update_row_ok [OF ok b]) auto
    moreover have "ending_agrees (?f b) Cancelled" using en Cancelling by (auto simp: ending_agrees_def)
    moreover have "br_id (?f b) = le_id lease" using K(1) by auto
    ultimately show ?thesis using row [OF d] e Cancelling by auto
  next
    case Finalizing
    have en: "e = Some Completed \<and> br_ending b = Some (status_as_str Completed) \<or>
          e = Some Expired \<and> br_ending b = Some (status_as_str Expired)" and d: "db' = db"
      using C b Finalizing bok
      by (auto simp: batch_ok_def ending_ok_def status_roundtrip split: option.splits
          simp del: status_as_str.simps)
    have "ending_agrees b st" if "e = Some st" for st
      using en that Finalizing by (auto simp: ending_agrees_def)
    moreover have "r = b" if "r \<in> set db'" "br_id r = le_id lease" for r using K(2) that d by blast
    ultimately show ?thesis using ok d Finalizing by (metis is_terminal.simps(6))
  qed (use C b ok in auto)
  then show "db_ok db'" "e = Some st \<Longrightarrow> r \<in> set db' \<Longrightarrow> br_id r = le_id lease \<Longrightarrow> ending_agrees r st"
    "r \<in> set db \<Longrightarrow> br_id r = le_id lease \<Longrightarrow> is_terminal (br_status r) \<Longrightarrow> e = None"
    using K(2) by blast+
qed

lemma end_finish_row_ok:
  assumes "batch_ok r" "ending_agrees r e" "br_status r \<in> {Finalizing, Cancelling}"
  shows "batch_ok (set_time e at (r\<lparr>br_status := e, br_output_file_id := out, br_error_file_id := err\<rparr>))"
    "batch_ok (set_time Failed at (r\<lparr>br_status := Failed, br_errors := x\<rparr>))"
    "is_terminal e"
proof -
  show e: "is_terminal e" using assms(2,3) by (auto simp: ending_agrees_def)
  have p: "e \<in> {Finalizing, Completed, Expired} \<Longrightarrow> count_state Pending (br_lines r) = 0"
    using assms e by (auto simp: ending_agrees_def batch_ok_def)
  show "batch_ok (set_time e at (r\<lparr>br_status := e, br_output_file_id := out, br_error_file_id := err\<rparr>))"
    by (rule batch_ok_move [OF assms(1)]) (use p e in \<open>auto simp: ending_ok_def split: batch_status.splits\<close>)
  show "batch_ok (set_time Failed at (r\<lparr>br_status := Failed, br_errors := x\<rparr>))"
    by (rule batch_ok_move [OF assms(1)]) (auto simp: ending_ok_def)
qed

definition end_row ::
  "batch_status \<Rightarrow> service_error + (string option \<times> string option) \<Rightarrow> nat \<Rightarrow> batch_row \<Rightarrow> batch_row" where
  "end_row ending written at r =
     (if br_status r \<notin> {Finalizing, Cancelling} then r
      else case written of
         Inr (out, err) \<Rightarrow>
           set_time ending at (r\<lparr>br_status := ending, br_output_file_id := out, br_error_file_id := err\<rparr>)
       | Inl e \<Rightarrow> set_time Failed at (r\<lparr>br_status := Failed, br_errors := Some ''output_failed''\<rparr>))"

lemma end_finish_cases:
  "end_finish db bid ending written at = Inr db' \<Longrightarrow>
     at < 2 ^ 63 \<and> db' = update_row bid (end_row ending written at) db"
  by (auto simp: end_finish_def to_signed_def end_row_def [abs_def] split: if_splits)

lemma end_row_id [simp]: "br_id (end_row e w at r) = br_id r"
  by (auto simp: end_row_def split: sum.splits)


lemma end_row_ok:
  "batch_ok r \<Longrightarrow> ending_agrees r e \<Longrightarrow> batch_ok (end_row e w at r)"
  using end_finish_row_ok [of r e] by (auto simp: end_row_def split: sum.splits)

lemma end_finish_ok:
  assumes "db_ok db" "end_finish db bid e written at = Inr db'"
    "\<And>r. r \<in> set db \<Longrightarrow> br_id r = bid \<Longrightarrow> ending_agrees r e"
  shows "db_ok db'"
proof -
  have d: "db' = update_row bid (end_row e written at) db" using end_finish_cases [OF assms(2)] by simp
  have "map br_id db' = map br_id db" unfolding d by (rule update_row_ids) simp
  moreover have "list_all batch_ok db'"
    using assms(1,3) end_row_ok by (auto simp: d update_row_def db_ok_def list_all_iff)
  ultimately show ?thesis using assms(1) by (simp add: db_ok_def)
qed

section \<open>Accepted input\<close>

text \<open>What a line that is accepted says of the file, for the endpoint and the batch's model.\<close>

definition accepted_line ::
  "(string \<Rightarrow> json option) \<Rightarrow> ((string \<times> json) list \<Rightarrow> string) \<Rightarrow> endpoint \<Rightarrow> string \<Rightarrow> input_line \<Rightarrow> bool" where
  "accepted_line from_slice to_string ep model l \<longleftrightarrow>
     in_custom_id l \<noteq> [] \<and> char_count (in_custom_id l) \<le> MAX_CUSTOM_ID_CHARS \<and> model \<noteq> [] \<and>
     (\<exists>text object body.
        length text \<le> MAX_LINE_BYTES \<and> from_slice text = Some (JObj object) \<and>
        (\<forall>p \<in> set object. fst p \<in> {''custom_id'', ''method'', ''url'', ''body''}) \<and>
        map_of object ''custom_id'' = Some (JStr (in_custom_id l)) \<and>
        map_of object ''method'' = Some (JStr ''POST'') \<and>
        map_of object ''url'' = Some (JStr (endpoint_as_str ep)) \<and>
        map_of object ''body'' = Some (JObj body) \<and>
        map_of body ''model'' = Some (JStr model) \<and>
        flag_unset (map_of body ''stream'') \<and>
        flag_unset (map_of body ''background'') \<and>
        in_body l = to_string body)"

lemma parse_line_sound:
  assumes "parse_line from_slice to_string text ep model = Some (l, name)" "length text \<le> MAX_LINE_BYTES"
  shows "accepted_line from_slice to_string ep name l" "model = None \<or> model = Some name"
proof -
  obtain object body where "from_slice text = Some (JObj object)"
    "\<forall>p \<in> set object. fst p \<in> {''custom_id'', ''method'', ''url'', ''body''}"
    "map_of object ''custom_id'' = Some (JStr (in_custom_id l))" "in_custom_id l \<noteq> []"
    "char_count (in_custom_id l) \<le> MAX_CUSTOM_ID_CHARS" "map_of object ''method'' = Some (JStr ''POST'')"
    "map_of object ''url'' = Some (JStr (endpoint_as_str ep))" "map_of object ''body'' = Some (JObj body)"
    "map_of body ''model'' = Some (JStr name)" "name \<noteq> []" "in_body l = to_string body"
    "flag_unset (map_of body ''stream'')"
    "flag_unset (map_of body ''background'')"
    and m: "model = None \<or> model = Some name"
    using assms(1) by (auto simp: parse_line_def bind_eq_Some_conv as_str_Some as_object_Some split: if_splits)
  then show "accepted_line from_slice to_string ep name l" "model = None \<or> model = Some name"
    using assms(2) unfolding accepted_line_def by blast+
qed

lemma parse_lines_sound:
  assumes "parse_lines from_slice to_string ep raws n blank model lines = Inr (model', lines')"
    and "distinct (map in_custom_id lines)" "length lines \<le> MAX_LINES"
    and "model = None \<longleftrightarrow> lines = []"
    and "\<And>l. l \<in> set lines \<Longrightarrow> \<exists>m. model = Some m \<and> accepted_line from_slice to_string ep m l"
  shows "distinct (map in_custom_id lines') \<and> length lines' \<le> MAX_LINES \<and> (model' = None \<longleftrightarrow> lines' = []) \<and>
    (\<forall>l \<in> set lines'. \<exists>m. model' = Some m \<and> accepted_line from_slice to_string ep m l)"
  using assms
proof (induction raws arbitrary: n blank model lines)
  case Nil
  then show ?case by auto
next
  case (Cons raw rest)
  let ?text = "strip_cr raw"
  show ?case
  proof (cases "list_all is_ascii_whitespace ?text")
    case True
    then show ?thesis using Cons.IH [OF _ Cons.prems(2-5)] Cons.prems(1) by (auto simp: Let_def)
  next
    case False
    obtain l name where pl: "parse_line from_slice to_string ?text ep model = Some (l, name)"
      "length ?text \<le> MAX_LINE_BYTES" "length lines \<noteq> MAX_LINES" "in_custom_id l \<notin> in_custom_id ` set lines"
      and go: "parse_lines from_slice to_string ep rest (n + 1) None (Some name) (lines @ [l]) = Inr (model', lines')"
      using Cons.prems(1) False
      by (auto simp: Let_def split: option.splits if_splits prod.splits)
    note snd = parse_line_sound [OF pl(1,2)]
    show ?thesis
    proof (rule Cons.IH [OF go])
      show "distinct (map in_custom_id (lines @ [l]))" using Cons.prems(2) pl(4) by auto
      show "length (lines @ [l]) \<le> MAX_LINES" using Cons.prems(3) pl(3) by simp
      show "\<exists>m. Some name = Some m \<and> accepted_line from_slice to_string ep m l'"
        if "l' \<in> set (lines @ [l])" for l'
        using that snd Cons.prems(5) by auto
    qed simp
  qed
qed

lemma parse_input_ok:
  assumes "parse_input from_slice to_string content ep = Inr (model, lines)"
  shows "lines \<noteq> [] \<and> length lines \<le> MAX_LINES \<and> distinct (map in_custom_id lines) \<and>
    (\<forall>l \<in> set lines. accepted_line from_slice to_string ep model l)"
proof -
  have "parse_lines from_slice to_string ep (read_lines content) 0 None None [] = Inr (Some model, lines)"
    using assms by (auto simp: parse_input_def split: sum.splits option.splits)
  from parse_lines_sound [OF this] show ?thesis by auto
qed

lemma open_input_Inr: "open_input content = Inr bytes \<longleftrightarrow> content = Inr (True, bytes)"
  by (auto simp: open_input_def split: sum.splits)

lemma create_cases:
  assumes "create_batch from_slice to_string db project req content accept own bid rids at = Inr (db', b)"
  shows "\<exists>model lines ep. accept model \<and> (\<exists>bytes. content = Inr (True, bytes) \<and>
      parse_input from_slice to_string bytes ep = Inr (model, lines)) \<and>
    db' = db @ [b] \<and> bid \<notin> br_id ` set db \<and> br_id b = bid \<and> br_status b = InProgress \<and> br_ending b = None \<and>
    br_model b = model \<and> br_endpoint b = ep \<and> br_created_at b = at \<and>
    br_expires_at b = at + COMPLETION_WINDOW_SECONDS \<and>
    br_total b = length lines \<and> br_completed b = 0 \<and> br_failed b = 0 \<and> br_lines b = new_lines lines rids"
proof -
  obtain ep bytes where ep: "endpoint_from_str (cr_endpoint req) = Inr ep" "content = Inr (True, bytes)"
    using assms by (auto simp: create_batch_def open_input_Inr split: if_splits)
  obtain model lines where p: "parse_input from_slice to_string bytes ep = Inr (model, lines)" "accept model"
    using assms ep by (auto simp: create_batch_def open_input_Inr split: if_splits)
  have "saturating_add at COMPLETION_WINDOW_SECONDS = at + COMPLETION_WINDOW_SECONDS"
    if "to_signed (saturating_add at COMPLETION_WINDOW_SECONDS) = Inr x" for x
    using that by (auto simp: saturating_add_def to_signed_def split: if_splits)
  then show ?thesis using assms ep p
    by (intro exI [of _ model] exI [of _ lines] exI [of _ ep])
      (auto simp: create_batch_def open_input_Inr Let_def to_signed_def split: if_splits)
qed

lemma create_ok:
  assumes "db_ok db" "create_batch from_slice to_string db project req content accept own bid rids at = Inr (db', b)"
  shows "db_ok db'" "b \<in> set db'" "set db \<subseteq> set db'"
proof -
  obtain model lines ep bytes where c: "parse_input from_slice to_string bytes ep = Inr (model, lines)"
    "db' = db @ [b]" "bid \<notin> br_id ` set db" "br_id b = bid" "br_status b = InProgress" "br_ending b = None"
    "br_total b = length lines" "br_completed b = 0" "br_failed b = 0" "br_lines b = new_lines lines rids"
    using create_cases [OF assms(2)] by blast
  have d: "distinct (map in_custom_id lines)" using parse_input_ok [OF c(1)] by simp
  have nl: "map bl_line (new_lines lines rids) = [0..<length lines]"
    "map bl_custom_id (new_lines lines rids) = map in_custom_id lines"
    "length (new_lines lines rids) = length lines"
    by (auto simp: new_lines_def enumerate_eq_zip intro!: nth_equalityI)
  have st: "bl_state l = Pending" "bl_result l = None" if "l \<in> set (new_lines lines rids)" for l
    using that by (auto simp: new_lines_def)
  have "batch_ok b" using c d nl st
    by (auto simp: batch_ok_def count_state_def ending_ok_def list_all_iff filter_empty_conv)
  then show "db_ok db'" "b \<in> set db'" "set db \<subseteq> set db'" using assms(1) c by (auto simp: db_ok_def)
qed

section \<open>The stream is the records in input order\<close>

text \<open>What a stream still has to give.\<close>

definition records_remaining :: "batch_line list \<Rightarrow> records_state \<Rightarrow> string" where
  "records_remaining rows st =
     drop (rc_position st) (rc_buffer st) @
     (if rc_done st then [] else concat (map record_bytes (records_after rows (rc_after st))))"

lemma records_after_page:
  assumes "sorted_wrt (<) (map bl_line rows)" "take n (records_after rows a) \<noteq> []"
  shows "records_after rows (int (bl_line (last (take n (records_after rows a))))) = drop n (records_after rows a)"
proof -
  let ?xs = "records_after rows a"
  let ?l = "last (take n ?xs)"
  have sx: "sorted_wrt (\<lambda>x y. bl_line x < bl_line y) ?xs"
    using assms(1) by (simp add: records_after_def sorted_wrt_map sorted_wrt_filter)
  have l: "?l \<in> set (take n ?xs)" using assms(2) last_in_set by blast
  then have "a < int (bl_line ?l)" by (auto simp: records_after_def dest: in_set_takeD)
  then have "records_after rows (int (bl_line ?l)) = filter (\<lambda>x. bl_line ?l < bl_line x) ?xs"
    by (auto simp: records_after_def intro!: filter_cong)
  also have "\<dots> = filter (\<lambda>x. bl_line ?l < bl_line x) (take n ?xs @ drop n ?xs)" by simp
  also have "\<dots> = drop n ?xs"
  proof -
    have sa: "sorted_wrt (\<lambda>x y. bl_line x < bl_line y) (take n ?xs @ drop n ?xs)" using sx by simp
    have "\<not> bl_line ?l < bl_line x" if "x \<in> set (take n ?xs)" for x
    proof -
      have "take n ?xs = butlast (take n ?xs) @ [?l]" using assms(2) by simp
      moreover have "sorted_wrt (\<lambda>x y. bl_line x < bl_line y) (take n ?xs)"
        using sa unfolding sorted_wrt_append by blast
      ultimately have "x = ?l \<or> bl_line x < bl_line ?l"
        using that by (metis Un_iff list.set_intros(1) set_append set_ConsD empty_iff empty_set sorted_wrt_append)
      then show ?thesis by auto
    qed
    moreover have "bl_line ?l < bl_line x" if "x \<in> set (drop n ?xs)" for x
      using sa l that unfolding sorted_wrt_append by blast
    ultimately have "filter (\<lambda>x. bl_line ?l < bl_line x) (take n ?xs) = []"
      "filter (\<lambda>x. bl_line ?l < bl_line x) (drop n ?xs) = drop n ?xs"
      by (auto simp: filter_empty_conv filter_id_conv)
    then show ?thesis by (simp only: filter_append append_Nil)
  qed
  finally show ?thesis .
qed

lemma refill_remaining:
  assumes "sorted_wrt (<) (map bl_line rows)" "rc_position st \<ge> length (rc_buffer st)" "\<not> rc_done st"
  shows "records_remaining rows (refill rows st) = records_remaining rows st"
proof (cases "take RECORD_PAGE (records_after rows (rc_after st)) = []")
  case True
  then have "records_after rows (rc_after st) = []" by (simp add: RECORD_PAGE_def)
  then show ?thesis using assms by (simp add: records_remaining_def refill_def)
next
  case False
  let ?xs = "records_after rows (rc_after st)"
  have "concat (map record_bytes (take RECORD_PAGE ?xs)) @ concat (map record_bytes (drop RECORD_PAGE ?xs))
      = concat (map record_bytes ?xs)"
    by (metis append_take_drop_id concat_append map_append)
  then show ?thesis using assms False records_after_page [OF assms(1) False]
    by (simp add: records_remaining_def refill_def Let_def)
qed

lemma fill_remaining:
  assumes "sorted_wrt (<) (map bl_line rows)"
  shows "records_remaining rows (fill rows st) = records_remaining rows st \<and>
    (rc_position (fill rows st) \<ge> length (rc_buffer (fill rows st)) \<longrightarrow> rc_done (fill rows st))"
  using assms
proof (induction rows st rule: fill.induct)
  case (1 rows st)
  show ?case
  proof (cases "rc_position st \<ge> length (rc_buffer st) \<and> \<not> rc_done st")
    case True
    then have "fill rows st = fill rows (refill rows st)" by (subst fill.simps) simp
    then show ?thesis using 1 True refill_remaining [of rows st] by simp
  next
    case False
    then have "fill rows st = st" by (subst fill.simps) auto
    then show ?thesis using False by auto
  qed
qed

lemma records_read_remaining:
  assumes "sorted_wrt (<) (map bl_line rows)" "records_read rows st room = (out, st')"
  shows "records_remaining rows st = out @ records_remaining rows st'"
    "0 < room \<Longrightarrow> out = [] \<Longrightarrow> records_remaining rows st = []" "length out \<le> room"
proof -
  define st1 where "st1 = fill rows st"
  let ?avail = "drop (rc_position st1) (rc_buffer st1)"
  let ?tail = "if rc_done st1 then [] else concat (map record_bytes (records_after rows (rc_after st1)))"
  have rem: "records_remaining rows st = ?avail @ ?tail"
    and dn: "?avail = [] \<Longrightarrow> rc_done st1"
    using fill_remaining [OF assms(1), of st] by (simp_all add: st1_def [symmetric] records_remaining_def)
  have out: "out = take room ?avail" and rem': "records_remaining rows st' = drop room ?avail @ ?tail"
    using assms(2) by (auto simp: records_read_def st1_def [symmetric] Let_def records_remaining_def
        min_def add.commute split: if_splits)
  show "records_remaining rows st = out @ records_remaining rows st'" "length out \<le> room"
    unfolding rem rem' out by (simp_all only: append_assoc [symmetric] append_take_drop_id) simp
  show "records_remaining rows st = []" if "0 < room" "out = []"
    using that out dn by (simp add: rem)
qed

section \<open>Every run of the store\<close>

text \<open>The transactions in any order, by any number of workers and callers.  Beside the table
  stands the set of finishes under way: between the two transactions of \<open>finish_batch\<close> a
  worker holds the ending it was given, and may die.\<close>

type_synonym batch_sys = "batch_db \<times> (string \<times> batch_status) set"

inductive batch_step ::
  "(string \<Rightarrow> json option) \<Rightarrow> ((string \<times> json) list \<Rightarrow> string) \<Rightarrow> (json \<Rightarrow> string) \<Rightarrow> (nat \<Rightarrow> string)
   \<Rightarrow> batch_sys \<Rightarrow> batch_sys \<Rightarrow> bool"
  for from_slice to_string print decimal where
  step_create:
    "create_batch from_slice to_string db project req content accept own bid rids at = Inr (db', b) \<Longrightarrow>
     batch_step from_slice to_string print decimal (db, F) (db', F)"
| step_settle:
    "settle_batch_line print decimal db project root lease line outcome = Inr (db', settled) \<Longrightarrow>
     batch_step from_slice to_string print decimal (db, F) (db', F)"
| step_cancel:
    "cancel_batch db project bid at = Inr (db', b) \<Longrightarrow>
     batch_step from_slice to_string print decimal (db, F) (db', F)"
| step_begin:
    "begin_finish print decimal db project lease at = Inr (db', Some e) \<Longrightarrow>
     batch_step from_slice to_string print decimal (db, F) (db', insert (le_id lease, e) F)"
| step_end:
    "(bid, e) \<in> F \<Longrightarrow> end_finish db bid e written at = Inr db' \<Longrightarrow>
     batch_step from_slice to_string print decimal (db, F) (db', F - {(bid, e)})"
| step_crash:
    "batch_step from_slice to_string print decimal (db, F) (db, F - {(bid, e)})"

definition sys_ok :: "batch_sys \<Rightarrow> bool" where
  "sys_ok s \<longleftrightarrow>
     (case s of (db, F) \<Rightarrow>
        db_ok db \<and>
        (\<forall>(bid, e) \<in> F. bid \<in> br_id ` set db \<and> (\<forall>r \<in> set db. br_id r = bid \<longrightarrow> ending_agrees r e)))"

text \<open>A transaction on one row keeps what the workers under way rely on, when it keeps it for
  that row.\<close>

lemma sys_ok_update:
  assumes ok: "sys_ok (db, F)" and d: "db' = update_row bid f db" "db_ok db'" "\<And>r. br_id (f r) = br_id r"
    and keep: "\<And>r e. r \<in> set db \<Longrightarrow> br_id r = bid \<Longrightarrow> (bid, e) \<in> F \<Longrightarrow> ending_agrees r e \<Longrightarrow>
      ending_agrees (f r) e"
  shows "sys_ok (db', F)"
proof -
  have "map br_id db' = map br_id db" unfolding d(1) by (rule update_row_ids) (simp add: d(3))
  then have ids: "br_id ` set db' = br_id ` set db" by (metis set_map)
  have old: "bid' \<in> br_id ` set db \<and> (\<forall>r \<in> set db. br_id r = bid' \<longrightarrow> ending_agrees r e)"
    if "(bid', e) \<in> F" for bid' e
    using ok that by (auto simp: sys_ok_def)
  have "ending_agrees r e" if F: "(bid', e) \<in> F" and r: "r \<in> set db'" "br_id r = bid'" for bid' e r
  proof -
    obtain q where "q \<in> set db" "r = (if br_id q = bid then f q else q)"
      using r(1) by (auto simp: d(1) update_row_def)
    then show ?thesis using old [OF F] F r(2) keep [of q e] d(3) [of q] by (auto split: if_splits)
  qed
  then show ?thesis using d(2) ids old unfolding sys_ok_def by fast
qed

lemma not_finishing:
  "br_status b = InProgress \<or> br_status b = Cancelling \<and> br_ending b = None \<Longrightarrow> \<not> ending_agrees b e"
  by (auto simp: ending_agrees_def)

lemma update_row_id: "update_row bid (\<lambda>r. r) db = db"
  by (simp add: update_row_def)

lemma begin_finish_update:
  assumes "begin_finish print decimal db project lease at = Inr (db', e)"
  shows "\<exists>f. (\<forall>r. br_id (f r) = br_id r) \<and> db' = update_row (le_id lease) f db"
proof -
  obtain b where b: "load db (le_id lease) project = Inr b" using begin_finish_cases [OF assms] by blast
  show ?thesis
  proof (cases "br_status b \<in> {InProgress, Cancelling}")
    case True
    then obtain f where "db' = update_row (le_id lease) f db"
      "f = (\<lambda>r. set_time Finalizing at
                        ((if the e = Expired then expire_pending print decimal r else r)
                           \<lparr>br_status := Finalizing, br_ending := Some (status_as_str (the e))\<rparr>)) \<or>
       f = (\<lambda>r. if br_ending r = None then r\<lparr>br_ending := Some (status_as_str Cancelled)\<rparr> else r)"
      using begin_finish_cases [OF assms] b by (auto simp del: status_as_str.simps)
    then show ?thesis by (intro exI [of _ f]) (auto simp: expire_pending_def Let_def)
  next
    case False
    then have "db' = db" using begin_finish_cases [OF assms] b by (cases "br_status b") auto
    then show ?thesis using update_row_id by (intro exI [of _ "\<lambda>r. r"]) simp
  qed
qed

lemma begin_finish_same:
  assumes "begin_finish print decimal db project lease at = Inr (db', Some e)"
    "load db (le_id lease) project = Inr b" "ending_agrees b e'"
  shows "e = e'"
  using begin_finish_cases [OF assms(1)] assms(2,3)
  by (cases "br_status b") (auto simp: ending_agrees_def status_roundtrip simp del: status_as_str.simps)

lemma end_row_agrees: "ending_agrees r e \<Longrightarrow> is_terminal (br_status (end_row e w at r))"
  by (auto simp: ending_agrees_def end_row_def split: sum.splits)

lemma sys_ok_settle:
  assumes step: "settle_batch_line print decimal db project root lease line outcome = Inr (db', settled)"
    and ok: "sys_ok (db, F)"
  shows "sys_ok (db', F)"
proof -
  have dok: "db_ok db" using ok by (simp add: sys_ok_def)
  obtain b where b: "load db (le_id lease) project = Inr b" "br_ending b = None"
    "br_status b \<in> {InProgress, Cancelling}"
    and u: "db' = db \<or> (\<exists>x y. db' = update_row (le_id lease) (settle_line line x y) db)"
    using settle_cases [OF step] by (auto split: if_splits)
  have na: "\<not> ending_agrees r e" if "r \<in> set db" "br_id r = le_id lease" for r e
    using load_unique [OF dok b(1) that] not_finishing [of b e] b by auto
  have id: "br_id (settle_line line x y r) = br_id r" for x y r by (simp add: settle_line_def Let_def)
  from u show ?thesis
  proof
    assume "\<exists>x y. db' = update_row (le_id lease) (settle_line line x y) db"
    then obtain x y where "db' = update_row (le_id lease) (settle_line line x y) db" by blast
    from sys_ok_update [OF ok this settle_ok [OF dok step] id] na show ?thesis by blast
  qed (use ok in simp)
qed

lemma sys_ok_cancel:
  assumes step: "cancel_batch db project bid at = Inr (db', b')" and ok: "sys_ok (db, F)"
  shows "sys_ok (db', F)"
proof -
  have dok: "db_ok db" using ok by (simp add: sys_ok_def)
  obtain b where b: "load db bid project = Inr b"
    "br_status b = InProgress \<and> db' = update_row bid (\<lambda>r. set_time Cancelling at (r\<lparr>br_status := Cancelling\<rparr>)) db
     \<or> br_status b \<in> {Cancelling, Cancelled} \<and> db' = db"
    using cancel_cases [OF step] by blast
  have na: "\<not> ending_agrees r e" if "br_status b = InProgress" "r \<in> set db" "br_id r = bid" for r e
    using load_unique [OF dok b(1) that(2,3)] not_finishing [of b e] that(1) by auto
  from b(2) show ?thesis
  proof
    assume u: "br_status b = InProgress \<and>
      db' = update_row bid (\<lambda>r. set_time Cancelling at (r\<lparr>br_status := Cancelling\<rparr>)) db"
    show ?thesis
      by (rule sys_ok_update [OF ok conjunct2 [OF u] cancel_ok [OF dok step]]) (use u na in auto)
  qed (use ok in simp)
qed

lemma sys_ok_begin:
  assumes step: "begin_finish print decimal db project lease at = Inr (db', Some e)" and ok: "sys_ok (db, F)"
  shows "sys_ok (db', F)" "le_id lease \<in> br_id ` set db'"
    and "r \<in> set db' \<Longrightarrow> br_id r = le_id lease \<Longrightarrow> ending_agrees r e"
proof -
  have dok: "db_ok db" using ok by (simp add: sys_ok_def)
  note B = begin_finish_ok [OF dok step]
  obtain b where b: "load db (le_id lease) project = Inr b"
    using begin_finish_cases [OF step] by blast
  obtain f where f: "\<And>r. br_id (f r) = br_id r" "db' = update_row (le_id lease) f db"
    using begin_finish_update [OF step] by blast
  have new: "ending_agrees (f r) e" if "r \<in> set db" "br_id r = le_id lease" for r
    using B(2) [OF refl, of "f r"] that f by (auto simp: update_row_def)
  have "ending_agrees (f r) e'" if "r \<in> set db" "br_id r = le_id lease" "ending_agrees r e'" for r e'
    using new [OF that(1,2)] begin_finish_same [OF step b] load_unique [OF dok b that(1,2)] that(3) by auto
  then show "sys_ok (db', F)" using sys_ok_update [OF ok f(2) B(1) f(1)] by blast
  have "map br_id db' = map br_id db" unfolding f(2) by (rule update_row_ids) (simp add: f(1))
  then have "br_id ` set db' = br_id ` set db" by (metis set_map)
  then show "le_id lease \<in> br_id ` set db'" using load_InrD [OF b] by (metis image_eqI)
  show "r \<in> set db' \<Longrightarrow> br_id r = le_id lease \<Longrightarrow> ending_agrees r e" using B(2) [OF refl] by blast
qed

lemma sys_ok_end:
  assumes mem: "(bid, e) \<in> F" and step: "end_finish db bid e written at = Inr db'" and ok: "sys_ok (db, F)"
  shows "sys_ok (db', F)"
proof -
  have ag: "ending_agrees r e" if "r \<in> set db" "br_id r = bid" for r
    using mem ok that by (auto simp: sys_ok_def)
  have "db_ok db'" using end_finish_ok [OF _ step ag] ok by (simp add: sys_ok_def)
  moreover have "db' = update_row bid (end_row e written at) db" using end_finish_cases [OF step] by simp
  ultimately show ?thesis
    using sys_ok_update [OF ok] end_row_agrees [OF ag] by (auto simp: ending_agrees_def)
qed

lemma sys_ok_step:
  assumes "batch_step fs ts print decimal s s'" "sys_ok s"
  shows "sys_ok s'"
  using assms
proof (induction rule: batch_step.induct)
  case (step_create db project req content accept own bid rids at db' b F)
  have c: "db' = db @ [b]" "bid \<notin> br_id ` set db" "br_id b = bid"
    using create_cases [OF step_create(1)] by auto
  have "db_ok db'" using create_ok(1) [OF _ step_create(1)] step_create(2) by (simp add: sys_ok_def)
  then show ?case using step_create(2) c by (fastforce simp: sys_ok_def)
next
  case (step_settle db project root lease line outcome db' settled F)
  then show ?case by (rule sys_ok_settle)
next
  case (step_cancel db project bid at db' b' F)
  then show ?case by (rule sys_ok_cancel)
next
  case (step_begin db project lease at db' e F)
  from sys_ok_begin [OF step_begin] show ?case by (auto simp: sys_ok_def)
next
  case (step_end bid e F db written at db')
  then have "sys_ok (db', F)" by (rule sys_ok_end)
  then show ?case by (auto simp: sys_ok_def)
next
  case (step_crash db F bid e)
  then show ?case by (auto simp: sys_ok_def)
qed

interpretation btm: state_machine "batch_step fs ts print decimal" sys_ok for fs ts print decimal
  by unfold_locales (rule sys_ok_step)

lemmas sys_ok_reachable = btm.run_inv


section \<open>Finding rows and lines again\<close>

lemma load_update:
  assumes "load db bid project = Inr b" "\<And>r. br_id (f r) = br_id r" "\<And>r. br_project_id (f r) = br_project_id r"
  shows "load (update_row bid f db) bid project = Inr (f b)"
  using assms(1)
proof (induction db)
  case Nil
  then show ?case by (simp add: load_def)
next
  case (Cons r db)
  then show ?case using assms(2,3) by (auto simp: load_def update_row_def ok_or_def split: if_splits)
qed

lemma find_settled:
  assumes "List.find (\<lambda>l. bl_line l = i) (br_lines b) = Some l"
  shows "\<exists>l'. List.find (\<lambda>l. bl_line l = i) (br_lines (settle_line i x y b)) = Some l' \<and> bl_state l' \<noteq> Pending"
proof -
  have "\<exists>l'. List.find (\<lambda>l. bl_line l = i) (map (\<lambda>l. if bl_line l = i \<and> bl_state l = Pending
       then l\<lparr>bl_state := (if x then Succeeded else LineFailed), bl_result := Some y\<rparr> else l) ls) = Some l'
     \<and> bl_state l' \<noteq> Pending" if "List.find (\<lambda>l. bl_line l = i) ls = Some l" for ls
    using that by (induction ls) (auto split: if_splits)
  from this [OF assms] show ?thesis by (simp add: settle_line_def Let_def)
qed

lemma line_bound:
  assumes "batch_ok b" "l \<in> set (br_lines b)"
  shows "bl_line l < length (br_lines b)"
proof -
  have "bl_line l \<in> set (map bl_line (br_lines b))" using assms(2) by simp
  moreover have "map bl_line (br_lines b) = [0..<length (br_lines b)]"
    using assms(1) unfolding batch_ok_def by blast
  ultimately have "bl_line l \<in> set [0..<length (br_lines b)]" by metis
  then show ?thesis by simp
qed

lemma find_line:
  assumes "batch_ok b" "l \<in> set (br_lines b)"
  shows "List.find (\<lambda>l'. bl_line l' = bl_line l) (br_lines b) = Some l"
proof -
  have d: "distinct (map bl_line (br_lines b))" using assms(1) by (simp add: batch_ok_def)
  then obtain l' where l': "List.find (\<lambda>l'. bl_line l' = bl_line l) (br_lines b) = Some l'"
    using assms(2) by (cases "List.find (\<lambda>l'. bl_line l' = bl_line l) (br_lines b)") (auto simp: find_None_iff)
  then have "l' \<in> set (br_lines b)" "bl_line l' = bl_line l" by (auto simp: find_Some_iff)
  then have "l' = l" using d assms(2) by (auto simp: distinct_map inj_on_def)
  then show ?thesis using l' by simp
qed

section \<open>A concrete run\<close>

text \<open>One batch of one request, cancelled; the JSON parser and printer are constant.\<close>

definition example_from_slice :: "string \<Rightarrow> json option" where
  "example_from_slice text =
     Some (JObj [(''custom_id'', JStr ''a''), (''method'', JStr ''POST''), (''url'', JStr ''/v1/responses''),
                 (''body'', JObj [(''model'', JStr ''m'')])])"

definition example_text :: "'a \<Rightarrow> string" where
  "example_text v = ''{}''"

definition example_row :: batch_row where
  "example_row =
     \<lparr>br_id = ''batch_1'', br_endpoint = Responses, br_model = ''m'', br_input_file_id = ''f'',
      br_status = InProgress, br_ending = None, br_metadata = [], br_errors = None,
      br_output_file_id = None, br_error_file_id = None, br_created_at = 5,
      br_times = (\<lambda>_. None)(InProgress := Some 5), br_expires_at = 86405, br_total = 1,
      br_completed = 0, br_failed = 0, br_project_id = None, br_api_key_id = None,
      br_lines = [\<lparr>bl_line = 0, bl_custom_id = ''a'', bl_record_id = ''r'', bl_body = ''{}'',
                    bl_state = Pending, bl_result = None\<rparr>]\<rparr>"

definition example_lease :: batch_lease where
  "example_lease = \<lparr>le_id = ''batch_1'', le_root = ''/''\<rparr>"

lemma example_parse:
  "parse_input example_from_slice example_text ''x'' Responses =
     Inr (''m'', [\<lparr>in_custom_id = ''a'', in_body = ''{}''\<rparr>])"
proof -
  have r: "read_lines ''x'' = [''x'']" by (simp add: read_lines.simps)
  have l: "parse_line example_from_slice example_text ''x'' Responses None =
      Some (\<lparr>in_custom_id = ''a'', in_body = ''{}''\<rparr>, ''m'')"
    by (simp add: parse_line_def example_from_slice_def example_text_def flag_unset_def char_count_def
        MAX_CUSTOM_ID_CHARS_def)
  show ?thesis
    by (simp add: parse_input_def r l strip_cr_def is_ascii_whitespace_def MAX_LINES_def MAX_LINE_BYTES_def)
qed

lemma example_create:
  "create_batch example_from_slice example_text [] None
     \<lparr>cr_input_file_id = ''f'', cr_endpoint = ''/v1/responses'', cr_completion_window = ''24h'', cr_metadata = []\<rparr>
     (Inr (True, ''x'')) (\<lambda>_. True) None ''batch_1'' (\<lambda>_. ''r'') 5 = Inr ([example_row], example_row)"
  by (simp add: create_batch_def endpoint_from_str_def COMPLETION_WINDOW_def validate_metadata_def
      open_input_def example_parse to_signed_def saturating_add_def COMPLETION_WINDOW_SECONDS_def
      new_lines_def example_row_def Let_def)

lemma example_reachable:
  "(batch_step example_from_slice example_text example_text example_text)\<^sup>*\<^sup>* ([], {}) ([example_row], {})"
  using step_create [OF example_create] by (rule r_into_rtranclp)

lemma example_ok: "db_ok [example_row]"
  using sys_ok_reachable [OF example_reachable] by (simp add: sys_ok_def db_ok_def)

lemma example_fields [simp]:
  "br_id example_row = ''batch_1''" "br_status example_row = InProgress" "br_ending example_row = None"
  "br_lines example_row = [\<lparr>bl_line = 0, bl_custom_id = ''a'', bl_record_id = ''r'', bl_body = ''{}'',
                    bl_state = Pending, bl_result = None\<rparr>]"
  by (simp_all add: example_row_def)

lemma example_load: "load [example_row] ''batch_1'' None = Inr example_row"
  by (simp add: load_def example_row_def)




section \<open>Properties\<close>

text \<open>C4. In every state the store can reach by creating, settling, cancelling and finishing
  batches in any order, with workers dying at any point, a batch's counters are the numbers of
  its settled lines, a line has a result exactly when it is settled, and a batch that is
  finalizing, completed or expired has no pending line left.\<close>

theorem batch_counts_exact:
  assumes "(batch_step from_slice to_string print decimal)\<^sup>*\<^sup>* ([], {}) (db, F)" "r \<in> set db"
  shows "br_total r = length (br_lines r) \<and>
    br_completed r = count_state Succeeded (br_lines r) \<and>
    br_failed r = count_state LineFailed (br_lines r) \<and>
    br_completed r + br_failed r + count_state Pending (br_lines r) = br_total r \<and>
    (\<forall>l \<in> set (br_lines r). (bl_result l = None) = (bl_state l = Pending)) \<and>
    distinct (map bl_custom_id (br_lines r)) \<and>
    (br_status r \<in> {Finalizing, Completed, Expired} \<longrightarrow> br_completed r + br_failed r = br_total r)"
proof -
  have "sys_ok ([], {})" by (simp add: sys_ok_def db_ok_def)
  then have "batch_ok r" using sys_ok_reachable [OF assms(1)] assms(2)
    by (auto simp: sys_ok_def db_ok_def list_all_iff)
  then show ?thesis using count_state_total [of "br_lines r"]
    by (auto simp: batch_ok_def list_all_iff)
qed

theorem batch_counts_exact_witness: "br_total example_row = length (br_lines example_row)"
  using batch_counts_exact [OF example_reachable, of example_row] by simp



text \<open>Settlement is exactly once: settling a pending line counts it once, and settling it
  again, with whatever outcome, reports that it was already settled and changes nothing.\<close>

theorem settle_exactly_once:
  assumes ok: "db_ok db"
    and s: "settle_batch_line print decimal db project root lease line outcome = Inr (db', True)"
  shows "settle_batch_line print decimal db' project root lease line outcome' = Inr (db', False) \<and>
    (\<exists>b b'. load db (le_id lease) project = Inr b \<and> load db' (le_id lease) project = Inr b' \<and>
       br_completed b' + br_failed b' = br_completed b + br_failed b + 1)"
proof -
  obtain b l where c: "root = le_root lease" "line < 2 ^ 63" "load db (le_id lease) project = Inr b"
    "br_ending b = None" "br_status b \<in> {InProgress, Cancelling}"
    "List.find (\<lambda>l. bl_line l = line) (br_lines b) = Some l"
    "if bl_state l = Pending
     then True \<and> db' = update_row (le_id lease)
            (settle_line line (fst (output_record print decimal (bl_record_id l) (bl_custom_id l) outcome))
              (snd (output_record print decimal (bl_record_id l) (bl_custom_id l) outcome))) db
     else \<not> True \<and> db' = db"
    using settle_cases [OF s] by blast
  define f where "f = settle_line line (fst (output_record print decimal (bl_record_id l) (bl_custom_id l) outcome))
      (snd (output_record print decimal (bl_record_id l) (bl_custom_id l) outcome))"
  have p: "bl_state l = Pending" and d: "db' = update_row (le_id lease) f db"
    using c(7) by (auto simp: f_def split: if_splits)
  have same: "br_id (f r) = br_id r" "br_project_id (f r) = br_project_id r" "br_ending (f r) = br_ending r"
    "br_status (f r) = br_status r" for r by (simp_all add: f_def settle_line_def Let_def)
  have ld: "load db' (le_id lease) project = Inr (f b)"
    using load_update [OF c(3), of f] same d by simp
  obtain l' where l': "List.find (\<lambda>l. bl_line l = line) (br_lines (f b)) = Some l'" "bl_state l' \<noteq> Pending"
    using find_settled [OF c(6)] by (auto simp: f_def)
  have "settle_batch_line print decimal db' project root lease line outcome' = Inr (db', False)"
    using c ld l' same by (auto simp: settle_batch_line_def check_lease_def to_signed_def ok_or_def)
  moreover have "br_completed (f b) + br_failed (f b) = br_completed b + br_failed b + 1"
    by (simp add: f_def settle_line_def Let_def)
  ultimately show ?thesis using c(3) ld by blast
qed

theorem settle_exactly_once_witness:
  "\<exists>db'. settle_batch_line example_text example_text [example_row] None ''/'' example_lease 0
       (OutcomeError ''c'' ''m'') = Inr (db', True) \<and>
     settle_batch_line example_text example_text db' None ''/'' example_lease 0
       (Response 200 JNull) = Inr (db', False)"
proof -
  have "\<exists>db'. settle_batch_line example_text example_text [example_row] None ''/'' example_lease 0
       (OutcomeError ''c'' ''m'') = Inr (db', True)"
    by (simp add: settle_batch_line_def check_lease_def example_lease_def example_load to_signed_def
        ok_or_def output_record_def del: sbind_Inr)
  then show ?thesis using settle_exactly_once [OF example_ok] by blast
qed

text \<open>C33. The worker's protocol never sticks: a line it is told to run can be settled, and when
  it is told to finish, beginning to finish at that time or later succeeds and gives the ending.\<close>

theorem protocol_never_stuck:
  assumes ok: "db_ok db" and n: "next_batch_line db project root lease at = Inr next"
    and later: "at \<le> at'" "at' < 2 ^ 63" and size: "\<forall>r \<in> set db. length (br_lines r) \<le> MAX_LINES"
  shows "case next of
      Line p \<Rightarrow> \<exists>db'. settle_batch_line print decimal db project root lease (pe_line p) outcome = Inr (db', True)
    | Finish \<Rightarrow> \<exists>db' e. begin_finish print decimal db project lease at' = Inr (db', Some e)
    | Done \<Rightarrow> \<exists>b. load db (le_id lease) project = Inr b \<and> is_terminal (br_status b)"
proof -
  obtain b where b: "root = le_root lease" "load db (le_id lease) project = Inr b"
    using n by (auto simp: next_batch_line_def check_lease_def split: if_splits)
  have bok: "batch_ok b" using ok load_InrD [OF b(2)] by (simp add: db_ok_def list_all_iff)
  show ?thesis
  proof (cases "br_status b = InProgress \<and> at < br_expires_at b")
    case True
    show ?thesis
    proof (cases "List.find (\<lambda>l. bl_state l = Pending) (br_lines b)")
      case None
      then have "count_state Pending (br_lines b) = 0" by (auto simp: count_state_def find_None_iff filter_empty_conv)
      moreover have "next = Finish" using n b True None by (simp add: next_batch_line_def check_lease_def)
      ultimately show ?thesis using b True later
        by (auto simp: begin_finish_def to_signed_def count_state_def Let_def)
    next
      case (Some l)
      then have l: "l \<in> set (br_lines b)" "bl_state l = Pending" by (auto simp: find_Some_iff)
      have "next = Line \<lparr>pe_line = bl_line l, pe_custom_id = bl_custom_id l,
               pe_record_id = bl_record_id l, pe_endpoint = br_endpoint b,
               pe_body = bl_body l, pe_expires_at = br_expires_at b, pe_owner = row_owner b\<rparr>"
        using n b True Some by (simp add: next_batch_line_def check_lease_def)
      moreover have "List.find (\<lambda>l'. bl_line l' = bl_line l) (br_lines b) = Some l"
        using find_line [OF bok l(1)] .
      moreover have "bl_line l < 2 ^ 63" using line_bound [OF bok l(1)] size load_InrD [OF b(2)]
        by (fastforce simp: MAX_LINES_def)
      moreover have "br_ending b = None" using bok True by (simp add: batch_ok_def ending_ok_def)
      ultimately show ?thesis using b True l
        by (simp add: settle_batch_line_def check_lease_def to_signed_def ok_or_def case_prod_beta)
    qed
  next
    case False
    then show ?thesis using n b bok later
      by (cases "br_status b")
        (auto simp: next_batch_line_def check_lease_def begin_finish_def to_signed_def Let_def batch_ok_def
          ending_ok_def status_roundtrip simp del: status_as_str.simps split: if_splits)
  qed
qed

theorem protocol_never_stuck_witness:
  "\<exists>p db'. next_batch_line [example_row] None ''/'' example_lease 9 = Inr (Line p) \<and>
     settle_batch_line example_text example_text [example_row] None ''/'' example_lease (pe_line p)
       (Response 200 JNull) = Inr (db', True)"
proof -
  obtain p where p: "next_batch_line [example_row] None ''/'' example_lease 9 = Inr (Line p)"
    by (simp add: next_batch_line_def check_lease_def example_lease_def example_load)
      (simp add: example_row_def)
  show ?thesis
    using protocol_never_stuck [OF example_ok p, of 9 example_text example_text "Response 200 JNull"] p
    by (auto simp: example_row_def MAX_LINES_def)
qed

text \<open>An input file is accepted only when it holds between one and 50000 requests with
  distinct custom ids, each a POST to the batch's endpoint, all for one model, and none
  streaming or in the background; each stored body is the request's own.\<close>

theorem parse_input_sound:
  assumes "parse_input from_slice to_string content ep = Inr (model, lines)"
  shows "lines \<noteq> [] \<and> length lines \<le> MAX_LINES \<and> distinct (map in_custom_id lines) \<and>
    (\<forall>l \<in> set lines. accepted_line from_slice to_string ep model l)"
  using assms by (rule parse_input_ok)

theorem parse_input_sound_witness:
  "accepted_line example_from_slice example_text Responses ''m'' \<lparr>in_custom_id = ''a'', in_body = ''{}''\<rparr>"
  using parse_input_sound [OF example_parse] by simp

text \<open>C34. A result file streamed a page at a time is exactly the records of its lines in input
  order: every read takes the next bytes of what remains, at most as many as there is room for,
  and gives nothing only at the end; at the start all the records remain.\<close>

theorem records_stream_complete:
  assumes "sorted_wrt (<) (map bl_line rows)" "0 < room" "records_read rows st room = (out, st')"
  shows "records_remaining rows st = out @ records_remaining rows st' \<and> length out \<le> room \<and>
    (out = [] \<longrightarrow> records_remaining rows st = []) \<and>
    records_remaining rows records_start = concat (map record_bytes rows)"
  using records_read_remaining [OF assms(1,3)] assms(2)
  by (auto simp: records_remaining_def records_start_def records_after_def)

theorem records_stream_complete_witness:
  "records_remaining [(hd (br_lines example_row))\<lparr>bl_result := Some ''ok''\<rparr>] records_start = ''ok'' @ [CHR 0x0A]"
proof -
  let ?rows = "[(hd (br_lines example_row))\<lparr>bl_result := Some ''ok''\<rparr>]"
  obtain out st' where "records_read ?rows records_start 4 = (out, st')" by fastforce
  moreover have "sorted_wrt (<) (map bl_line ?rows)" by simp
  ultimately have "records_remaining ?rows records_start = concat (map record_bytes ?rows)"
    using records_stream_complete [OF _ zero_less_numeral] by blast
  then show ?thesis by (simp add: record_bytes_def)
qed

end
