(* ===== verification/Snapshot_File.thy ===== *)
theory Snapshot_File
  imports Prelude
begin

text \<open>
  The file of one prompt snapshot (\<open>local-engine/src/prompt_cache.rs\<close> and
  \<open>prompt_cache/blocks.rs\<close>): its preamble and five padded sections, the CRC-32C of every
  block, what \<open>store\<close> writes and what \<open>load\<close> accepts.  A file is its bytes.  The JSON encoding
  of the header and SHA-256 come from other crates and are parameters.  The parallel readers
  of a load take the blocks from one iterator; they are one reader here.  A snapshot comes back
  as stored, and a single changed byte of any section is refused.
\<close>

unbundle bit_operations_syntax

section \<open>Bytes\<close>

type_synonym bytes = "u8 list"

fun le_bytes :: "nat \<Rightarrow> nat \<Rightarrow> bytes" where
  "le_bytes 0 n = []"
| "le_bytes (Suc k) n = word_of_nat n # le_bytes k (n div 256)"

fun from_le :: "bytes \<Rightarrow> nat" where
  "from_le [] = 0"
| "from_le (b # bs) = unat b + 256 * from_le bs"

function chunks :: "nat \<Rightarrow> 'a list \<Rightarrow> 'a list list" where
  "chunks n xs = (if n = 0 \<or> xs = [] then [] else take n xs # chunks n (drop n xs))"
  by pat_completeness auto
termination by (relation "measure (\<lambda>(_, xs). length xs)") auto

declare chunks.simps [simp del]

definition next_multiple_of :: "nat \<Rightarrow> nat \<Rightarrow> nat" where
  "next_multiple_of n a = (n + a - 1) div a * a"

definition checked_add :: "nat \<Rightarrow> nat \<Rightarrow> nat option" where
  "checked_add a b = (if a + b < 2 ^ 64 then Some (a + b) else None)"

definition checked_mul :: "nat \<Rightarrow> nat \<Rightarrow> nat option" where
  "checked_mul a b = (if a * b < 2 ^ 64 then Some (a * b) else None)"

definition checked_next_multiple_of :: "nat \<Rightarrow> nat \<Rightarrow> nat option" where
  "checked_next_multiple_of n a =
     (if next_multiple_of n a < 2 ^ 64 then Some (next_multiple_of n a) else None)"

section \<open>Block checksums\<close>

definition ALIGN :: nat where "ALIGN = 16 * 1024"
definition BLOCK :: nat where "BLOCK = 1024 * 1024"
definition DIGITS :: nat where "DIGITS = 8"
definition WRITE_PIECE :: nat where "WRITE_PIECE = 64 * 1024 * 1024"

definition padded :: "nat \<Rightarrow> nat" where
  "padded len = next_multiple_of len ALIGN"

definition blocks :: "nat \<Rightarrow> nat" where
  "blocks len = (len + BLOCK - 1) div BLOCK"

definition checksum_digits :: "nat list \<Rightarrow> nat" where
  "checksum_digits lengths = sum_list (map blocks lengths) * DIGITS"

definition crc_bit :: "u32 \<Rightarrow> u32" where
  "crc_bit crc = drop_bit 1 crc XOR (0x82F63B78 AND (- (crc AND 1)))"

definition crc_byte :: "u32 \<Rightarrow> u8 \<Rightarrow> u32" where
  "crc_byte crc byte = (crc_bit ^^ 8) (crc XOR ucast byte)"

definition crc32c :: "bytes \<Rightarrow> u32" where
  "crc32c bs = NOT (foldl crc_byte (- 1) bs)"

definition hex_digit :: "nat \<Rightarrow> char" where
  "hex_digit d = (if d < 10 then char_of (48 + d) else char_of (87 + d))"

fun hex_digits :: "nat \<Rightarrow> nat \<Rightarrow> string" where
  "hex_digits 0 n = []"
| "hex_digits (Suc k) n = hex_digits k (n div 16) @ [hex_digit (n mod 16)]"

definition push_hex :: "string \<Rightarrow> u32 \<Rightarrow> string" where
  "push_hex digits value = digits @ hex_digits 8 (unat value)"

text \<open>\<open>abort\<close> gives the value of the abort flag at each successive check; the functions below
  thread the number of checks made.\<close>

fun checksum_blocks :: "nat \<Rightarrow> (nat \<Rightarrow> bool) \<Rightarrow> nat \<Rightarrow> bytes list \<Rightarrow> nat \<Rightarrow> string \<Rightarrow> (string \<times> nat) option" where
  "checksum_blocks per_piece abort index [] checks digits = Some (digits, checks)"
| "checksum_blocks per_piece abort index (block # rest) checks digits =
     (if index mod per_piece = 0 \<and> abort checks then None
      else checksum_blocks per_piece abort (index + 1) rest
             (if index mod per_piece = 0 then checks + 1 else checks)
             (push_hex digits (crc32c block)))"

fun checksum_sections :: "nat \<Rightarrow> (nat \<Rightarrow> bool) \<Rightarrow> bytes list \<Rightarrow> nat \<Rightarrow> string \<Rightarrow> (string \<times> nat) option" where
  "checksum_sections per_piece abort [] checks digits = Some (digits, checks)"
| "checksum_sections per_piece abort (section # rest) checks digits =
     (case checksum_blocks per_piece abort 0 (chunks BLOCK section) checks digits of
        None \<Rightarrow> None
      | Some (digits1, checks1) \<Rightarrow> checksum_sections per_piece abort rest checks1 digits1)"

definition checksums :: "bytes list \<Rightarrow> nat \<Rightarrow> (nat \<Rightarrow> bool) \<Rightarrow> nat \<Rightarrow> (string \<times> nat) option" where
  "checksums sections piece abort checks =
     checksum_sections (max (piece div BLOCK) 1) abort sections checks []"

definition from_hex_digit :: "char \<Rightarrow> nat option" where
  "from_hex_digit c =
     (let n = (of_char c :: nat) in
      if 48 \<le> n \<and> n \<le> 57 then Some (n - 48)
      else if 97 \<le> n \<and> n \<le> 102 then Some (n - 87)
      else if 65 \<le> n \<and> n \<le> 70 then Some (n - 55)
      else None)"

fun hex_value :: "nat \<Rightarrow> string \<Rightarrow> nat option" where
  "hex_value acc [] = Some acc"
| "hex_value acc (c # cs) =
     (case from_hex_digit c of None \<Rightarrow> None | Some d \<Rightarrow> hex_value (16 * acc + d) cs)"

text \<open>\<open>u32::from_str_radix(text, 16)\<close>: an optional plus sign, at least one digit, no overflow.\<close>

definition from_str_radix :: "string \<Rightarrow> u32 option" where
  "from_str_radix text =
     (let body = (case text of c # cs \<Rightarrow> if c = CHR ''+'' then cs else text | [] \<Rightarrow> []) in
      if body = [] then None
      else case hex_value 0 body of
             Some n \<Rightarrow> if n < 2 ^ 32 then Some (word_of_nat n) else None
           | None \<Rightarrow> None)"

datatype file_error = InvalidFormat | UnexpectedEof | Aborted

fun parse_all :: "string list \<Rightarrow> u32 list option" where
  "parse_all [] = Some []"
| "parse_all (t # ts) =
     (case from_str_radix t of
        None \<Rightarrow> None
      | Some v \<Rightarrow> map_option (Cons v) (parse_all ts))"

definition parse_checksums :: "string \<Rightarrow> nat \<Rightarrow> file_error + u32 list" where
  "parse_checksums digits number =
     (if length digits \<noteq> number * DIGITS \<or> \<not> list_all (\<lambda>c. (of_char c :: nat) < 128) digits
      then Inl InvalidFormat
      else ok_or (parse_all (chunks DIGITS digits)) InvalidFormat)"

section \<open>Reading the blocks\<close>

record job =
  jb_offset :: nat
  jb_length :: nat
  jb_checksum :: u32

definition read_exact_at :: "bytes \<Rightarrow> nat \<Rightarrow> nat \<Rightarrow> file_error + bytes" where
  "read_exact_at file offset len =
     (if offset + len \<le> length file then Inr (take len (drop offset file)) else Inl UnexpectedEof)"

fun section_jobs :: "nat \<Rightarrow> nat \<Rightarrow> nat list \<Rightarrow> u32 list \<Rightarrow> job list" where
  "section_jobs offset index [] sums = []"
| "section_jobs offset index (len # rest) sums =
     \<lparr>jb_offset = offset + index * BLOCK, jb_length = len,
      jb_checksum = (case sums of s # _ \<Rightarrow> s | [] \<Rightarrow> 0)\<rparr>
     # section_jobs offset (index + 1) rest (drop 1 sums)"

definition block_lengths :: "nat \<Rightarrow> nat list" where
  "block_lengths len = map length (chunks BLOCK (replicate len ()))"

fun all_jobs :: "nat \<Rightarrow> nat list \<Rightarrow> u32 list \<Rightarrow> job list list" where
  "all_jobs offset [] sums = []"
| "all_jobs offset (len # rest) sums =
     section_jobs offset 0 (block_lengths len) sums
     # all_jobs (offset + padded len) rest (drop (blocks len) sums)"

fun drain :: "bytes \<Rightarrow> (nat \<Rightarrow> bool) \<Rightarrow> job list \<Rightarrow> nat \<Rightarrow> file_error + (bytes \<times> nat)" where
  "drain file abort [] checks = (if abort checks then Inl Aborted else Inr ([], checks + 1))"
| "drain file abort (j # js) checks =
     (if abort checks then Inl Aborted
      else
        sbind (read_exact_at file (jb_offset j) (jb_length j)) (\<lambda>bs.
        if crc32c bs \<noteq> jb_checksum j then Inl InvalidFormat
        else sbind (drain file abort js (checks + 1)) (\<lambda>(rest, n). Inr (bs @ rest, n))))"

fun drain_sections :: "bytes \<Rightarrow> (nat \<Rightarrow> bool) \<Rightarrow> job list list \<Rightarrow> nat \<Rightarrow> file_error + bytes list" where
  "drain_sections file abort [] checks = Inr []"
| "drain_sections file abort (js # rest) checks =
     sbind (drain file abort js checks) (\<lambda>(bs, n).
     sbind (drain_sections file abort rest n) (\<lambda>bss. Inr (bs # bss)))"

fun expected_end :: "nat \<Rightarrow> nat list \<Rightarrow> nat option" where
  "expected_end start [] = Some start"
| "expected_end start (len # rest) =
     Option.bind (checked_next_multiple_of len ALIGN) (\<lambda>p.
     Option.bind (checked_add start p) (\<lambda>e. expected_end e rest))"

definition blocks_read ::
  "bytes \<Rightarrow> nat \<Rightarrow> nat list \<Rightarrow> string \<Rightarrow> (nat \<Rightarrow> bool) \<Rightarrow> file_error + bytes list" where
  "blocks_read file start lengths digits abort =
     (if start mod ALIGN \<noteq> 0 \<or> expected_end start lengths \<noteq> Some (length file) then Inl InvalidFormat
      else
        sbind (parse_checksums digits (sum_list (map blocks lengths))) (\<lambda>sums.
        drain_sections file abort (all_jobs start lengths sums) 0))"

section \<open>The file\<close>

record header =
  hd_model_key :: string
  hd_layout :: string
  hd_position :: nat
  hd_token_count :: nat
  hd_recurrent :: nat
  hd_mtp_hidden :: nat
  hd_target_kv :: nat
  hd_mtp_kv :: nat
  hd_payload_sha256 :: "string option"
  hd_payload_crc32c :: "string option"
  hd_session_id :: "string option"
  hd_reusable_boundary :: bool

record prompt_snapshot =
  ps_position :: nat
  ps_layout :: string
  ps_recurrent :: bytes
  ps_mtp_prev_hidden :: bytes
  ps_target_kv :: bytes
  ps_mtp_kv :: bytes

definition MAGIC :: bytes where
  "MAGIC = map of_char ''BPCACHE1''"

definition make_header ::
  "string \<Rightarrow> u32 list \<Rightarrow> string option \<Rightarrow> prompt_snapshot \<Rightarrow> bool \<Rightarrow> string \<Rightarrow> header" where
  "make_header model_key tokens session_id snapshot reusable_boundary sums =
     \<lparr>hd_model_key = model_key, hd_layout = ps_layout snapshot, hd_position = ps_position snapshot,
      hd_token_count = length tokens, hd_recurrent = length (ps_recurrent snapshot),
      hd_mtp_hidden = length (ps_mtp_prev_hidden snapshot),
      hd_target_kv = length (ps_target_kv snapshot), hd_mtp_kv = length (ps_mtp_kv snapshot),
      hd_payload_sha256 = None, hd_payload_crc32c = Some sums, hd_session_id = session_id,
      hd_reusable_boundary = reusable_boundary\<rparr>"

definition section_lengths :: "u32 list \<Rightarrow> prompt_snapshot \<Rightarrow> nat list" where
  "section_lengths tokens snapshot =
     [length tokens * 4, length (ps_recurrent snapshot), length (ps_mtp_prev_hidden snapshot),
      length (ps_target_kv snapshot), length (ps_mtp_kv snapshot)]"

definition preamble :: "(header \<Rightarrow> bytes) \<Rightarrow> header \<Rightarrow> bytes" where
  "preamble encode h =
     (let encoded = encode h;
          fixed = length MAGIC + 8;
          pad = next_multiple_of (fixed + length encoded) ALIGN - fixed
      in MAGIC @ le_bytes 8 pad @ encoded @ replicate (pad - length encoded) 0x20)"

definition stored_bytes ::
  "(header \<Rightarrow> bytes) \<Rightarrow> string \<Rightarrow> u32 list \<Rightarrow> string option \<Rightarrow> prompt_snapshot \<Rightarrow> bool \<Rightarrow> nat" where
  "stored_bytes encode model_key tokens session_id snapshot reusable_boundary =
     (let lengths = section_lengths tokens snapshot;
          placeholder = replicate (checksum_digits lengths) (CHR ''0'');
          h = make_header model_key tokens session_id snapshot reusable_boundary placeholder
      in length (preamble encode h) + sum_list (map padded lengths))"

definition token_bytes :: "u32 list \<Rightarrow> bytes" where
  "token_bytes tokens = concat (map (\<lambda>t. le_bytes 4 (unat t)) tokens)"

definition snapshot_sections :: "bytes \<Rightarrow> prompt_snapshot \<Rightarrow> bytes list" where
  "snapshot_sections tokens snapshot =
     [tokens, ps_recurrent snapshot, ps_mtp_prev_hidden snapshot, ps_target_kv snapshot,
      ps_mtp_kv snapshot]"

text \<open>What \<open>write_temporary\<close> writes; each piece is preceded by a check of the abort flag.\<close>

fun write_pieces :: "(nat \<Rightarrow> bool) \<Rightarrow> bytes list \<Rightarrow> nat \<Rightarrow> bytes \<Rightarrow> file_error + (bytes \<times> nat)" where
  "write_pieces abort [] checks file = Inr (file, checks)"
| "write_pieces abort (piece # rest) checks file =
     (if abort checks then Inl Aborted else write_pieces abort rest (checks + 1) (file @ piece))"

fun write_sections :: "(nat \<Rightarrow> bool) \<Rightarrow> bytes list \<Rightarrow> nat \<Rightarrow> bytes \<Rightarrow> file_error + bytes" where
  "write_sections abort [] checks file = Inr file"
| "write_sections abort (section # rest) checks file =
     sbind (write_pieces abort (chunks WRITE_PIECE section) checks file) (\<lambda>(file1, n).
     write_sections abort rest n (file1 @ replicate (padded (length section) - length section) 0))"

definition write_temporary :: "bytes \<Rightarrow> bytes list \<Rightarrow> (nat \<Rightarrow> bool) \<Rightarrow> nat \<Rightarrow> file_error + bytes" where
  "write_temporary pre sections abort checks = write_sections abort sections checks pre"

definition hex :: "bytes \<Rightarrow> string" where
  "hex bs = concat (map (\<lambda>b. hex_digits 2 (unat b)) bs)"

text \<open>\<open>store_abortable\<close>: the name of the committed file and its contents, or why nothing is
  committed.\<close>

definition store_abortable ::
  "(header \<Rightarrow> bytes) \<Rightarrow> (bytes \<Rightarrow> bytes) \<Rightarrow> (nat \<Rightarrow> string) \<Rightarrow> string \<Rightarrow> u32 list \<Rightarrow> string option
   \<Rightarrow> prompt_snapshot \<Rightarrow> bool \<Rightarrow> (nat \<Rightarrow> bool) \<Rightarrow> file_error + (string \<times> bytes)" where
  "store_abortable encode sha256 decimal model_key tokens session_id snapshot reusable_boundary abort =
     (let sections = snapshot_sections (token_bytes tokens) snapshot in
      case checksums sections WRITE_PIECE abort 0 of
        None \<Rightarrow> Inl Aborted
      | Some (sums, checks) \<Rightarrow>
          let name = hex (take 8 (sha256 (map of_char sums)));
              h = make_header model_key tokens session_id snapshot reusable_boundary sums
          in sbind (write_temporary (preamble encode h) sections abort checks) (\<lambda>file.
             Inr (decimal (ps_position snapshot) @ ''-'' @ name @ ''.bpc'', file)))"

text \<open>\<open>read_header\<close>: the header and the position after it.\<close>

definition read_header :: "(bytes \<Rightarrow> header option) \<Rightarrow> bytes \<Rightarrow> file_error + (header \<times> nat)" where
  "read_header decode file =
     sbind (read_exact_at file 0 8) (\<lambda>magic.
     if magic \<noteq> MAGIC then Inl InvalidFormat
     else sbind (read_exact_at file 8 8) (\<lambda>size_bytes.
     let size = from_le size_bytes in
     if size > 1024 * 1024 then Inl InvalidFormat
     else sbind (read_exact_at file 16 size) (\<lambda>encoded.
     sbind (ok_or (decode encoded) InvalidFormat) (\<lambda>h. Inr (h, 16 + size)))))"

definition read_index :: "(bytes \<Rightarrow> header option) \<Rightarrow> bytes \<Rightarrow> file_error + (header \<times> bytes)" where
  "read_index decode file =
     sbind (read_header decode file) (\<lambda>(h, pos).
     sbind (ok_or (checked_mul (hd_token_count h) 4) InvalidFormat) (\<lambda>n.
     sbind (read_exact_at file pos n) (\<lambda>bs. Inr (h, bs))))"

definition tokens_from_bytes :: "bytes \<Rightarrow> u32 list" where
  "tokens_from_bytes bs = map (\<lambda>c. word_of_nat (from_le c)) (filter (\<lambda>c. length c = 4) (chunks 4 bs))"

text \<open>The contiguous payload of an older file, checked against its SHA-256; \<open>read_hashed\<close> checks
  the abort flag before each mebibyte of each section.\<close>

fun total_length :: "nat \<Rightarrow> nat list \<Rightarrow> nat option" where
  "total_length acc [] = Some acc"
| "total_length acc (len # rest) = Option.bind (checked_add acc len) (\<lambda>a. total_length a rest)"

fun split_lengths :: "nat list \<Rightarrow> bytes \<Rightarrow> bytes list" where
  "split_lengths [] bs = []"
| "split_lengths (len # rest) bs = take len bs # split_lengths rest (drop len bs)"

definition read_sha256_payload ::
  "(bytes \<Rightarrow> bytes) \<Rightarrow> bytes \<Rightarrow> nat \<Rightarrow> nat list \<Rightarrow> string \<Rightarrow> (nat \<Rightarrow> bool) \<Rightarrow> file_error + bytes list" where
  "read_sha256_payload sha256 file start lengths digest abort =
     sbind (ok_or (total_length 0 lengths) InvalidFormat) (\<lambda>payload_bytes.
     if payload_bytes \<noteq> length file - start then Inl InvalidFormat
     else if \<exists>check < sum_list (map blocks lengths). abort check then Inl Aborted
     else
       let payload = take payload_bytes (drop start file) in
       if hex (sha256 payload) \<noteq> digest then Inl InvalidFormat
       else Inr (split_lengths lengths payload))"

definition load_abortable ::
  "(bytes \<Rightarrow> header option) \<Rightarrow> (bytes \<Rightarrow> bytes) \<Rightarrow> bytes \<Rightarrow> string \<Rightarrow> (nat \<Rightarrow> bool) \<Rightarrow> file_error + prompt_snapshot" where
  "load_abortable decode sha256 file model_key abort =
     sbind (read_header decode file) (\<lambda>(h, start).
     if hd_model_key h \<noteq> model_key then Inl InvalidFormat
     else
       sbind (ok_or (checked_mul (hd_token_count h) 4) InvalidFormat) (\<lambda>n.
       let lengths = [n, hd_recurrent h, hd_mtp_hidden h, hd_target_kv h, hd_mtp_kv h] in
       sbind (case (hd_payload_crc32c h, hd_payload_sha256 h) of
                (Some digits, _) \<Rightarrow> blocks_read file start lengths digits abort
              | (None, Some digest) \<Rightarrow> read_sha256_payload sha256 file start lengths digest abort
              | (None, None) \<Rightarrow> Inl InvalidFormat)
         (\<lambda>sections.
           case sections of
             [_, recurrent, hidden, target, mtp] \<Rightarrow>
               Inr \<lparr>ps_position = hd_position h, ps_layout = hd_layout h, ps_recurrent = recurrent,
                    ps_mtp_prev_hidden = hidden, ps_target_kv = target, ps_mtp_kv = mtp\<rparr>
           | _ \<Rightarrow> Inl InvalidFormat)))"

section \<open>CRC-32C tells apart any two blocks that differ in one byte\<close>

lemma crc_bit_if: "crc_bit x = drop_bit 1 x XOR (if odd x then 0x82F63B78 else 0)"
  by (cases "odd x") (simp_all add: crc_bit_def and_one_eq odd_iff_mod_2_eq_one even_iff_mod_2_eq_zero)

lemma drop_bit_top: "\<not> bit (drop_bit 1 (x :: u32)) 31"
  by (simp add: bit_drop_bit_eq impossible_bit)

lemma crc_bit_inj: "crc_bit x = crc_bit y \<Longrightarrow> x = y"
proof -
  assume eq: "crc_bit x = crc_bit y"
  have top: "bit (crc_bit z) 31 = odd z" for z
    using drop_bit_top [of z] by (simp add: crc_bit_if bit_xor_iff)
  then have odd: "odd x = odd y" using eq by metis
  then have "drop_bit 1 x = drop_bit 1 y"
    using arg_cong [OF eq, of "\<lambda>z. z XOR (if odd x then 0x82F63B78 else 0)"]
    by (simp add: crc_bit_if ac_simps)
  then have "x div 2 = y div 2" by (simp add: drop_bit_Suc)
  moreover have "x mod 2 = y mod 2" using odd by (simp add: mod_2_eq_odd)
  ultimately show "x = y" by (metis div_mult_mod_eq)
qed

lemma crc_bits_inj: "(crc_bit ^^ n) x = (crc_bit ^^ n) y \<Longrightarrow> x = y"
  by (induction n) (auto dest: crc_bit_inj)

lemma crc_byte_inj_state: "crc_byte x b = crc_byte y b \<Longrightarrow> x = y"
proof -
  assume "crc_byte x b = crc_byte y b"
  then have "x XOR ucast b = y XOR ucast b" unfolding crc_byte_def by (rule crc_bits_inj)
  then have "(x XOR ucast b) XOR ucast b = (y XOR ucast b) XOR ucast b" by simp
  then show "x = y" by (simp add: xor.assoc)
qed

lemma crc_byte_inj_byte: "crc_byte x b = crc_byte x c \<Longrightarrow> b = c"
proof -
  assume "crc_byte x b = crc_byte x c"
  then have "x XOR ucast b = x XOR ucast c" unfolding crc_byte_def by (rule crc_bits_inj)
  then have "x XOR (x XOR ucast b) = x XOR (x XOR ucast c :: u32)" by simp
  then have "(ucast b :: u32) = ucast c" by (simp add: xor.assoc [symmetric])
  then have "unat (ucast b :: u32) = unat (ucast c :: u32)" by simp
  moreover have "unat x < 2 ^ 32" for x :: u8
  proof -
    have "unat x < 2 ^ LENGTH(8)" by (rule unsigned_less)
    then show ?thesis by simp
  qed
  ultimately show "b = c" by (simp add: unsigned_ucast_eq take_bit_nat_eq_self unsigned_word_eqI)
qed

lemma foldl_crc_inj: "foldl crc_byte x bs = foldl crc_byte y bs \<Longrightarrow> x = y"
  by (induction bs arbitrary: x y) (auto dest: crc_byte_inj_state)

lemma crc32c_single_byte:
  assumes "i < length bs" "b \<noteq> bs ! i"
  shows "crc32c (bs[i := b]) \<noteq> crc32c bs"
proof
  assume "crc32c (bs[i := b]) = crc32c bs"
  then have eq: "foldl crc_byte (- 1) (bs[i := b]) = foldl crc_byte (- 1) bs"
    by (metis bit.double_compl crc32c_def)
  let ?s = "foldl crc_byte (- 1) (take i bs)"
  have "foldl crc_byte (crc_byte ?s b) (drop (Suc i) bs) = foldl crc_byte (crc_byte ?s (bs ! i)) (drop (Suc i) bs)"
    using eq assms(1) by (metis foldl_Cons foldl_append id_take_nth_drop upd_conv_take_nth_drop)
  then have "crc_byte ?s b = crc_byte ?s (bs ! i)" by (rule foldl_crc_inj)
  then show False using crc_byte_inj_byte assms(2) by blast
qed

section \<open>Round trips of the encodings\<close>

lemma length_le_bytes [simp]: "length (le_bytes k n) = k"
  by (induction k arbitrary: n) simp_all

lemma from_le_le_bytes: "n < 256 ^ k \<Longrightarrow> from_le (le_bytes k n) = n"
proof (induction k arbitrary: n)
  case 0
  then show ?case by simp
next
  case (Suc k)
  have "n div 256 < 256 ^ k" using Suc.prems by (simp add: div_less_iff_less_mult mult.commute)
  moreover have "unat (word_of_nat n :: u8) = n mod 256" by (simp add: unat_of_nat take_bit_eq_mod)
  ultimately show ?case using Suc.IH by simp
qed

lemma chunks_simps [simp]: "chunks n [] = []" "chunks 0 xs = []"
  by (simp_all add: chunks.simps)

lemma chunks_step: "0 < n \<Longrightarrow> xs \<noteq> [] \<Longrightarrow> chunks n xs = take n xs # chunks n (drop n xs)"
  by (simp add: chunks.simps [of n xs])

lemma chunk_induct [consumes 1, case_names Nil Step]:
  assumes "0 < n" "P []" "\<And>xs. xs \<noteq> [] \<Longrightarrow> P (drop n xs) \<Longrightarrow> P xs"
  shows "P xs"
proof (induction xs rule: length_induct)
  case (1 xs)
  show ?case
  proof (cases "xs = []")
    case False
    then have "length (drop n xs) < length xs" using assms(1) by (cases xs) auto
    then show ?thesis using 1 assms(3) False by blast
  qed (use assms(2) in simp)
qed

lemma concat_chunks:
  assumes "0 < n"
  shows "concat (chunks n xs) = xs"
  using assms
proof (induction xs rule: chunk_induct)
  case (Step xs)
  then show ?case using assms by (simp add: chunks_step)
qed simp

lemma length_chunks:
  assumes "0 < n"
  shows "length (chunks n xs) = (length xs + n - 1) div n"
  using assms
proof (induction xs rule: chunk_induct)
  case (Step xs)
  have "0 < length xs" using Step(1) by simp
  show ?case
  proof (cases "n \<le> length xs")
    case True
    have "length (chunks n xs) = Suc (length (chunks n (drop n xs)))"
      using chunks_step [OF assms Step(1)] by simp
    also have "\<dots> = Suc ((length xs - n + n - 1) div n)" unfolding Step(2) length_drop ..
    also have "length xs - n + n - 1 = length xs - 1" using True by simp
    also have "Suc ((length xs - 1) div n) = (length xs - 1 + n) div n"
      using assms div_add_self2 [of n "length xs - 1"] by simp
    also have "length xs - 1 + n = length xs + n - 1" using \<open>0 < length xs\<close> by linarith
    finally show ?thesis .
  next
    case False
    then have "drop n xs = []" by simp
    moreover have "(length xs + n - 1) div n = 1"
    proof -
      have "length xs + n - 1 = length xs - 1 + n" using \<open>0 < length xs\<close> by linarith
      moreover have "(length xs - 1) div n = 0" using False by simp
      moreover have "(length xs - 1 + n) div n = (length xs - 1) div n + 1"
        using assms by (intro div_add_self2) simp
      ultimately show ?thesis by (metis add_0)
    qed
    ultimately show ?thesis using Step assms by (simp add: chunks_step)
  qed
qed (use assms in simp)

lemma chunks_lengths:
  assumes "0 < n" "length xs = length ys"
  shows "map length (chunks n xs) = map length (chunks n ys)"
  using assms(1,2)
proof (induction xs arbitrary: ys rule: chunk_induct)
  case (Step xs)
  then have "ys \<noteq> []" by auto
  then show ?case using Step assms(1) Step(2) [of "drop n ys"] by (simp add: chunks_step)
qed simp

lemma block_lengths_chunks: "block_lengths (length xs) = map length (chunks BLOCK xs)"
  unfolding block_lengths_def by (rule chunks_lengths) (simp_all add: BLOCK_def)

lemma length_chunks_BLOCK: "length (chunks BLOCK xs) = blocks (length xs)"
  by (simp add: length_chunks BLOCK_def blocks_def)

lemma chunks_concat:
  "0 < n \<Longrightarrow> list_all (\<lambda>c. length c = n) cs \<Longrightarrow> chunks n (concat cs) = cs"
proof (induction cs)
  case (Cons c cs)
  then have "c @ concat cs \<noteq> []" by auto
  then show ?case using Cons by (simp add: chunks_step)
qed simp

lemma token_round_trip: "tokens_from_bytes (token_bytes tokens) = tokens"
proof -
  have "chunks 4 (token_bytes tokens) = map (\<lambda>t. le_bytes 4 (unat t)) tokens"
    unfolding token_bytes_def by (rule chunks_concat) (simp_all add: list_all_iff)
  moreover have "from_le (le_bytes 4 (unat (t :: u32))) = unat t" for t
  proof (rule from_le_le_bytes)
    have "unat t < 2 ^ LENGTH(32)" by (rule unsigned_less)
    then show "unat t < 256 ^ 4" by simp
  qed
  ultimately show ?thesis by (simp add: tokens_from_bytes_def comp_def)
qed

lemma length_token_bytes: "length (token_bytes tokens) = length tokens * 4"
  by (induction tokens) (simp_all add: token_bytes_def)

text \<open>Hexadecimal checksums.\<close>

lemma length_hex_digits [simp]: "length (hex_digits k n) = k"
  by (induction k arbitrary: n) simp_all

lemma from_hex_digit_hex_digit: "d < 16 \<Longrightarrow> from_hex_digit (hex_digit d) = Some d"
  by (auto simp: hex_digit_def from_hex_digit_def Let_def)

lemma hex_value_append: "hex_value a (xs @ ys) = Option.bind (hex_value a xs) (\<lambda>b. hex_value b ys)"
  by (induction xs arbitrary: a) (auto split: option.splits)

lemma hex_value_hex_digits: "hex_value a (hex_digits k n) = Some (a * 16 ^ k + n mod 16 ^ k)"
proof (induction k arbitrary: n)
  case 0
  then show ?case by simp
next
  case (Suc k)
  have "n mod (16 * 16 ^ k) = 16 * (n div 16 mod 16 ^ k) + n mod 16" by (simp add: mod_mult2_eq)
  then show ?case using Suc by (simp add: hex_value_append from_hex_digit_hex_digit algebra_simps)
qed

lemma hex_digits_ascii: "c \<in> set (hex_digits k n) \<Longrightarrow> \<exists>d < 16. c = hex_digit d"
proof (induction k arbitrary: n)
  case (Suc k)
  then show ?case by (cases "c = hex_digit (n mod 16)") (auto intro: exI [of _ "n mod 16"])
qed simp

lemma hex_digit_code: "d < 16 \<Longrightarrow> (of_char (hex_digit d) :: nat) < 128 \<and> hex_digit d \<noteq> CHR ''+''"
proof -
  assume d: "d < 16"
  then have e: "(of_char (hex_digit d) :: nat) = (if d < 10 then 48 + d else 87 + d)"
    by (auto simp: hex_digit_def)
  have "hex_digit d \<noteq> CHR ''+''"
  proof
    assume "hex_digit d = CHR ''+''"
    then have "(of_char (hex_digit d) :: nat) = of_char (CHR ''+'')" by (rule arg_cong)
    then show False using e by (simp split: if_splits)
  qed
  then show ?thesis using e d by simp
qed

lemma from_str_radix_hex: "from_str_radix (hex_digits 8 (unat v)) = Some (v :: u32)"
proof -
  obtain c cs where c: "hex_digits 8 (unat v) = c # cs"
    using length_hex_digits [of 8 "unat v"] by (cases "hex_digits 8 (unat v)") auto
  then have "c \<noteq> CHR ''+''" using hex_digits_ascii [of c 8 "unat v"] hex_digit_code by auto
  moreover have "hex_value 0 (c # cs) = Some (unat v mod 16 ^ 8)"
    using hex_value_hex_digits [of 0 8 "unat v"] unfolding c by simp
  moreover have v: "unat v < 2 ^ 32"
  proof -
    have "unat v < 2 ^ LENGTH(32)" by (rule unsigned_less)
    then show ?thesis by simp
  qed
  ultimately show ?thesis by (simp add: from_str_radix_def Let_def c)
qed

definition hex_all :: "u32 list \<Rightarrow> string" where
  "hex_all vs = concat (map (\<lambda>v. hex_digits 8 (unat v)) vs)"

lemma parse_checksums_hex_all: "parse_checksums (hex_all vs) (length vs) = Inr vs"
proof -
  have "length (hex_all vs) = length vs * DIGITS"
    by (induction vs) (simp_all add: hex_all_def DIGITS_def)
  moreover have "list_all (\<lambda>c. (of_char c :: nat) < 128) (hex_all vs)"
    using hex_digits_ascii hex_digit_code by (fastforce simp: hex_all_def list_all_iff)
  moreover have "chunks DIGITS (hex_all vs) = map (\<lambda>v. hex_digits 8 (unat v)) vs"
    unfolding hex_all_def by (rule chunks_concat) (simp_all add: DIGITS_def list_all_iff)
  moreover have "parse_all (map (\<lambda>v. hex_digits 8 (unat v)) vs) = Some vs"
    by (induction vs) (simp_all add: from_str_radix_hex)
  ultimately show ?thesis by (simp add: parse_checksums_def)
qed

section \<open>What the store writes\<close>

definition section_sums :: "bytes \<Rightarrow> u32 list" where
  "section_sums xs = map crc32c (chunks BLOCK xs)"

definition pad_section :: "bytes \<Rightarrow> bytes" where
  "pad_section xs = xs @ replicate (padded (length xs) - length xs) 0"

lemma length_section_sums [simp]: "length (section_sums xs) = blocks (length xs)"
  by (simp add: section_sums_def length_chunks_BLOCK)

lemma next_multiple_ge:
  assumes "0 < a"
  shows "n \<le> next_multiple_of n a"
proof -
  have "(n + a - 1) div a * a + (n + a - 1) mod a = n + a - 1" "(n + a - 1) mod a < a"
    using assms by simp_all
  then show ?thesis unfolding next_multiple_of_def using assms by linarith
qed

lemma padded_ge: "n \<le> padded n"
  by (simp add: padded_def next_multiple_ge ALIGN_def)

lemma padded_align: "padded n mod ALIGN = 0"
  by (simp add: padded_def next_multiple_of_def)

lemma length_pad_section [simp]: "length (pad_section xs) = padded (length xs)"
  using padded_ge [of "length xs"] by (simp add: pad_section_def)

lemma checksum_blocks_digits:
  "checksum_blocks pp abort i bs n digits = Some (d, n') \<Longrightarrow> d = digits @ hex_all (map crc32c bs)"
  by (induction pp abort i bs n digits rule: checksum_blocks.induct)
    (auto simp: hex_all_def push_hex_def split: if_splits)

lemma checksum_sections_digits:
  "checksum_sections pp abort ss n digits = Some (d, n') \<Longrightarrow>
     d = digits @ hex_all (concat (map section_sums ss))"
proof (induction ss arbitrary: n digits)
  case (Cons s ss)
  obtain d1 n1 where b: "checksum_blocks pp abort 0 (chunks BLOCK s) n digits = Some (d1, n1)"
    and r: "checksum_sections pp abort ss n1 d1 = Some (d, n')"
    using Cons.prems by (auto split: option.splits)
  show ?case using Cons.IH [OF r] checksum_blocks_digits [OF b] by (simp add: section_sums_def hex_all_def)
qed (simp add: hex_all_def)

lemma write_pieces_file: "write_pieces abort ps n f = Inr (f', n') \<Longrightarrow> f' = f @ concat ps"
  by (induction abort ps n f rule: write_pieces.induct) (auto split: if_splits)

lemma write_sections_file: "write_sections abort ss n f = Inr f' \<Longrightarrow> f' = f @ concat (map pad_section ss)"
proof (induction ss arbitrary: n f)
  case (Cons s ss)
  obtain f1 n1 where p: "write_pieces abort (chunks WRITE_PIECE s) n f = Inr (f1, n1)"
    and r: "write_sections abort ss n1 (f1 @ replicate (padded (length s) - length s) 0) = Inr f'"
    using Cons.prems by auto
  have "f1 = f @ s" using write_pieces_file [OF p] by (simp add: concat_chunks WRITE_PIECE_def)
  then show ?case using Cons.IH [OF r] by (simp add: pad_section_def)
qed simp

definition stored_header :: "string \<Rightarrow> u32 list \<Rightarrow> string option \<Rightarrow> prompt_snapshot \<Rightarrow> bool \<Rightarrow> header" where
  "stored_header key tokens sid snap boundary =
     make_header key tokens sid snap boundary
       (hex_all (concat (map section_sums (snapshot_sections (token_bytes tokens) snap))))"

definition stored_file ::
  "(header \<Rightarrow> bytes) \<Rightarrow> string \<Rightarrow> u32 list \<Rightarrow> string option \<Rightarrow> prompt_snapshot \<Rightarrow> bool \<Rightarrow> bytes" where
  "stored_file encode key tokens sid snap boundary =
     preamble encode (stored_header key tokens sid snap boundary) @
     concat (map pad_section (snapshot_sections (token_bytes tokens) snap))"

lemma store_file:
  assumes "store_abortable encode sha256 decimal key tokens sid snap boundary abort = Inr (name, file)"
  shows "file = stored_file encode key tokens sid snap boundary"
proof -
  obtain sums n where c: "checksums (snapshot_sections (token_bytes tokens) snap) WRITE_PIECE abort 0 = Some (sums, n)"
    and w: "write_sections abort (snapshot_sections (token_bytes tokens) snap) n
        (preamble encode (make_header key tokens sid snap boundary sums)) = Inr file"
    using assms by (auto simp: store_abortable_def write_temporary_def Let_def split: option.splits)
  have "sums = hex_all (concat (map section_sums (snapshot_sections (token_bytes tokens) snap)))"
    using checksum_sections_digits c by (fastforce simp: checksums_def)
  then show ?thesis using write_sections_file [OF w] by (simp add: stored_file_def stored_header_def)
qed

text \<open>Without an abort the store commits.\<close>

lemma checksum_blocks_total: "\<exists>r. checksum_blocks pp (\<lambda>_. False) i bs n digits = Some r"
  by (induction bs arbitrary: i n digits) simp_all

lemma checksum_sections_total: "\<exists>r. checksum_sections pp (\<lambda>_. False) ss n digits = Some r"
proof (induction ss arbitrary: n digits)
  case (Cons s ss)
  obtain r where "checksum_blocks pp (\<lambda>_. False) 0 (chunks BLOCK s) n digits = Some r"
    using checksum_blocks_total by blast
  then show ?case using Cons by (cases r) simp
qed simp

lemma write_pieces_total: "\<exists>r. write_pieces (\<lambda>_. False) ps n f = Inr r"
  by (induction ps arbitrary: n f) simp_all

lemma write_sections_total: "\<exists>r. write_sections (\<lambda>_. False) ss n f = Inr r"
proof (induction ss arbitrary: n f)
  case (Cons s ss)
  obtain r where "write_pieces (\<lambda>_. False) (chunks WRITE_PIECE s) n f = Inr r"
    using write_pieces_total by blast
  then show ?case using Cons by (cases r) simp
qed simp

lemma store_total:
  "\<exists>name file. store_abortable encode sha256 decimal key tokens sid snap boundary (\<lambda>_. False) = Inr (name, file)"
proof -
  obtain sums n where c: "checksums (snapshot_sections (token_bytes tokens) snap) WRITE_PIECE (\<lambda>_. False) 0
      = Some (sums, n)"
    using checksum_sections_total unfolding checksums_def by (metis surj_pair)
  obtain content where "write_sections (\<lambda>_. False) (snapshot_sections (token_bytes tokens) snap) n
      (preamble encode (make_header key tokens sid snap boundary sums)) = Inr content"
    using write_sections_total by blast
  then show ?thesis using c by (simp add: store_abortable_def write_temporary_def Let_def)
qed

section \<open>What a load accepts\<close>

text \<open>A section that is read is the file's bytes at its place, and its blocks have the
  checksums given.\<close>

lemma section_drain:
  assumes "off + i * BLOCK + length xs \<le> length file" "take (length xs) (drop (off + i * BLOCK) file) = xs"
    and "blocks (length xs) \<le> length sums"
  shows "drain file (\<lambda>_. False) (section_jobs off i (map length (chunks BLOCK xs)) sums) n =
    (if section_sums xs = take (blocks (length xs)) sums then Inr (xs, n + blocks (length xs) + 1)
     else Inl InvalidFormat)"
proof -
  have "0 < BLOCK" by (simp add: BLOCK_def)
  then show ?thesis using assms
  proof (induction xs arbitrary: i sums n rule: chunk_induct)
    case Nil
    then show ?case by (simp add: section_sums_def blocks_def BLOCK_def)
  next
    case (Step xs)
    let ?b = "take BLOCK xs" and ?r = "drop BLOCK xs"
    have ch: "chunks BLOCK xs = ?b # chunks BLOCK ?r" using Step(1) by (simp add: chunks_step BLOCK_def)
    have bl: "blocks (length xs) = Suc (blocks (length ?r))"
      using length_chunks_BLOCK [of xs] length_chunks_BLOCK [of ?r] ch by simp
    obtain s ss where sums: "sums = s # ss" using Step.prems(3) bl by (cases sums) auto
    have read: "read_exact_at file (off + i * BLOCK) (length ?b) = Inr ?b"
    proof -
      have "take (length ?b) (drop (off + i * BLOCK) file) =
          take (length ?b) (take (length xs) (drop (off + i * BLOCK) file))" by (simp add: min_def)
      also have "\<dots> = ?b" unfolding Step.prems(2) by (cases "length xs \<le> BLOCK") simp_all
      finally show ?thesis using Step.prems(1) by (simp add: read_exact_at_def)
    qed
    have next_file: "?r = [] \<or> off + Suc i * BLOCK + length ?r \<le> length file \<and>
        take (length ?r) (drop (off + Suc i * BLOCK) file) = ?r"
    proof (cases "BLOCK < length xs")
      case True
      have "drop (off + Suc i * BLOCK) file = drop BLOCK (drop (off + i * BLOCK) file)"
        by (simp add: drop_drop algebra_simps)
      moreover have "take (length ?r) (drop BLOCK (drop (off + i * BLOCK) file)) = ?r"
        using True Step.prems(2) by (metis drop_take length_drop)
      ultimately show ?thesis using Step.prems(1) True by simp
    qed simp
    have rest: "drain file (\<lambda>_. False) (section_jobs off (i + 1) (map length (chunks BLOCK ?r)) ss) (n + 1) =
        (if section_sums ?r = take (blocks (length ?r)) ss then Inr (?r, n + 1 + blocks (length ?r) + 1)
         else Inl InvalidFormat)"
    proof (cases "?r = []")
      case True
      then show ?thesis by (simp add: section_sums_def blocks_def BLOCK_def)
    next
      case False
      then show ?thesis using next_file Step.prems(3) bl sums
        by (intro Step.IH) auto
    qed
    have sum: "section_sums xs = crc32c ?b # section_sums ?r" by (simp add: section_sums_def ch)
    show ?case using rest read by (simp add: ch sums sum bl)
  qed
qed

text \<open>A file that is a preamble and padded sections is read back section by section exactly
  when the checksums given are those of its blocks.\<close>

lemma layout_drain:
  assumes "sum_list (map (\<lambda>x. blocks (length x)) xss) \<le> length sums"
  shows "drain_sections (pre @ concat (map pad_section xss)) (\<lambda>_. False)
      (all_jobs (length pre) (map length xss) sums) n =
    (if concat (map section_sums xss) = take (sum_list (map (\<lambda>x. blocks (length x)) xss)) sums then Inr xss
     else Inl InvalidFormat)"
  using assms
proof (induction xss arbitrary: pre sums n)
  case Nil
  then show ?case by simp
next
  case (Cons xs xss)
  let ?file = "pre @ concat (map pad_section (xs # xss))"
  let ?k = "blocks (length xs)"
  have slice: "take (length xs) (drop (length pre + 0 * BLOCK) ?file) = xs"
    and fits: "length pre + 0 * BLOCK + length xs \<le> length ?file"
    using padded_ge [of "length xs"] by (simp_all add: pad_section_def)
  have first: "drain ?file (\<lambda>_. False) (section_jobs (length pre) 0 (block_lengths (length xs)) sums) n =
      (if section_sums xs = take ?k sums then Inr (xs, n + ?k + 1) else Inl InvalidFormat)"
    unfolding block_lengths_chunks using Cons.prems by (intro section_drain slice fits) simp
  have rest: "drain_sections ?file (\<lambda>_. False)
      (all_jobs (length pre + padded (length xs)) (map length xss) (drop ?k sums)) n' =
      (if concat (map section_sums xss) = take (sum_list (map (\<lambda>x. blocks (length x)) xss)) (drop ?k sums)
       then Inr xss else Inl InvalidFormat)" for n'
    using Cons.IH [of "drop ?k sums" "pre @ pad_section xs" n'] Cons.prems by simp
  have "concat (map section_sums (xs # xss)) = take (sum_list (map (\<lambda>x. blocks (length x)) (xs # xss))) sums \<longleftrightarrow>
      section_sums xs = take ?k sums \<and>
      concat (map section_sums xss) = take (sum_list (map (\<lambda>x. blocks (length x)) xss)) (drop ?k sums)"
    using Cons.prems by (simp add: take_add append_eq_append_conv)
  then show ?case using first rest by simp
qed

lemma expected_end_sum:
  "start + sum_list (map padded lengths) < 2 ^ 64 \<Longrightarrow>
   expected_end start lengths = Some (start + sum_list (map padded lengths))"
proof (induction lengths arbitrary: start)
  case (Cons len lengths)
  then show ?case
    by (simp add: checked_next_multiple_of_def checked_add_def padded_def add.assoc)
qed simp

lemma layout_read:
  assumes "length pre mod ALIGN = 0" "length (pre @ concat (map pad_section xss)) < 2 ^ 64"
    and "length sums = sum_list (map (\<lambda>x. blocks (length x)) xss)"
  shows "blocks_read (pre @ concat (map pad_section xss)) (length pre) (map length xss) (hex_all sums) (\<lambda>_. False) =
    (if concat (map section_sums xss) = sums then Inr xss else Inl InvalidFormat)"
proof -
  have len: "length (pre @ concat (map pad_section xss)) = length pre + sum_list (map padded (map length xss))"
    by (induction xss) (simp_all add: algebra_simps)
  have "expected_end (length pre) (map length xss) = Some (length (pre @ concat (map pad_section xss)))"
    unfolding len by (rule expected_end_sum) (use assms(2) len in simp)
  moreover have "parse_checksums (hex_all sums) (sum_list (map blocks (map length xss))) = Inr sums"
    using parse_checksums_hex_all [of sums] assms(3) by (simp add: comp_def)
  ultimately show ?thesis using layout_drain [of xss sums pre 0] assms
    by (simp add: blocks_read_def)
qed

section \<open>The preamble\<close>

text \<open>What is used of the JSON codec: an encoded header followed by spaces decodes to itself.\<close>

definition header_codec :: "(header \<Rightarrow> bytes) \<Rightarrow> (bytes \<Rightarrow> header option) \<Rightarrow> header \<Rightarrow> bool" where
  "header_codec encode decode h \<longleftrightarrow> (\<forall>k. decode (encode h @ replicate k 0x20) = Some h)"

lemma length_MAGIC [simp]: "length MAGIC = 8"
  by (simp add: MAGIC_def)

lemma length_preamble: "length (preamble encode h) = next_multiple_of (16 + length (encode h)) ALIGN"
  using next_multiple_ge [of ALIGN "16 + length (encode h)"]
  by (simp add: preamble_def Let_def ALIGN_def)

lemma preamble_align: "length (preamble encode h) mod ALIGN = 0"
  by (simp add: length_preamble next_multiple_of_def)

lemma read_header_preamble:
  assumes "header_codec encode decode h" "length (preamble encode h) \<le> 16 + 2 ^ 20"
  shows "read_header decode (preamble encode h @ rest) = Inr (h, length (preamble encode h))"
proof -
  define pad where "pad = next_multiple_of (16 + length (encode h)) ALIGN - 16"
  have p: "length (encode h) \<le> pad" "length (preamble encode h) = 16 + pad"
    using next_multiple_ge [of ALIGN "16 + length (encode h)"] unfolding length_preamble pad_def
    by (simp_all add: ALIGN_def)
  have eq: "preamble encode h = MAGIC @ le_bytes 8 pad @ encode h @ replicate (pad - length (encode h)) 0x20"
    by (simp add: preamble_def Let_def pad_def)
  have small: "pad \<le> 2 ^ 20" using assms(2) p by simp
  have "from_le (le_bytes 8 pad) = pad" using small by (intro from_le_le_bytes) simp
  moreover have "read_exact_at (preamble encode h @ rest) 0 8 = Inr MAGIC"
    "read_exact_at (preamble encode h @ rest) 8 8 = Inr (le_bytes 8 pad)"
    "read_exact_at (preamble encode h @ rest) 16 pad =
       Inr (encode h @ replicate (pad - length (encode h)) 0x20)"
    using p(1) by (simp_all add: eq read_exact_at_def)
  moreover have "decode (encode h @ replicate (pad - length (encode h)) 0x20) = Some h"
    using assms(1) by (simp add: header_codec_def)
  ultimately show ?thesis using small p(2) by (simp add: read_header_def Let_def ok_or_def)
qed

section \<open>Damage\<close>

lemma section_sums_change:
  assumes "i < length xs" "b \<noteq> xs ! i"
  shows "section_sums (xs[i := b]) \<noteq> section_sums xs"
proof -
  have B: "0 < BLOCK" by (simp add: BLOCK_def)
  then show ?thesis using assms
  proof (induction xs arbitrary: i rule: chunk_induct)
    case (Step xs)
    have ch: "section_sums ys = crc32c (take BLOCK ys) # section_sums (drop BLOCK ys)" if "ys \<noteq> []" for ys
      using chunks_step [OF B that] by (simp add: section_sums_def)
    have ne: "xs[i := b] \<noteq> []" using Step(1) by simp
    show ?case
    proof (cases "i < BLOCK")
      case True
      then have "take BLOCK (xs[i := b]) = (take BLOCK xs)[i := b]" by (simp add: take_update_swap)
      moreover have "crc32c ((take BLOCK xs)[i := b]) \<noteq> crc32c (take BLOCK xs)"
        using True Step.prems by (intro crc32c_single_byte) auto
      ultimately show ?thesis unfolding ch [OF ne] ch [OF Step(1)] by simp
    next
      case False
      then have "drop BLOCK (xs[i := b]) = (drop BLOCK xs)[i - BLOCK := b]" by (simp add: drop_update_swap)
      moreover have "section_sums ((drop BLOCK xs)[i - BLOCK := b]) \<noteq> section_sums (drop BLOCK xs)"
        using False Step.prems by (intro Step.IH) auto
      ultimately show ?thesis unfolding ch [OF ne] ch [OF Step(1)] by simp
    qed
  qed simp
qed

text \<open>Changing a byte of section \<open>m\<close> in the file is changing it in the section.\<close>

lemma layout_update:
  assumes "m < length xss" "i < length (xss ! m)"
  shows "(concat (map pad_section xss))[sum_list (map padded (map length (take m xss))) + i := b] =
    concat (map pad_section (xss[m := (xss ! m)[i := b]]))"
  using assms
proof (induction xss arbitrary: m)
  case (Cons xs xss)
  show ?case
  proof (cases m)
    case 0
    then show ?thesis using Cons.prems padded_ge [of "length xs"]
      by (simp add: pad_section_def list_update_append)
  next
    case (Suc k)
    then show ?thesis using Cons.prems Cons.IH [of k] by (simp add: list_update_append add.assoc)
  qed
qed simp

lemma layout_offset:
  assumes "m < length xss" "i < length (xss ! m)"
  shows "sum_list (map padded (map length (take m xss))) + i < length (concat (map pad_section xss))"
  using assms
proof (induction xss arbitrary: m)
  case (Cons xs xss)
  show ?case
  proof (cases m)
    case 0
    then show ?thesis using Cons.prems padded_ge [of "length xs"] by simp
  next
    case (Suc k)
    then show ?thesis using Cons.prems Cons.IH [of k] by simp
  qed
qed simp

lemma layout_nth:
  assumes "m < length xss" "i < length (xss ! m)"
  shows "concat (map pad_section xss) ! (sum_list (map padded (map length (take m xss))) + i) = xss ! m ! i"
  using assms
proof (induction xss arbitrary: m)
  case (Cons xs xss)
  show ?case
  proof (cases m)
    case 0
    then show ?thesis using Cons.prems by (simp add: pad_section_def nth_append)
  next
    case (Suc k)
    then show ?thesis using Cons.prems Cons.IH [of k] by (simp add: nth_append add.assoc)
  qed
qed simp

lemma concat_sums_change:
  assumes "m < length xss" "i < length (xss ! m)" "b \<noteq> xss ! m ! i"
  shows "concat (map section_sums (xss[m := (xss ! m)[i := b]])) \<noteq> concat (map section_sums xss)"
proof -
  have len: "map length (map section_sums (xss[m := (xss ! m)[i := b]])) = map length (map section_sums xss)"
    using assms(1) by (intro nth_equalityI) (auto simp: nth_list_update)
  have "map section_sums (xss[m := (xss ! m)[i := b]]) \<noteq> map section_sums xss"
    using section_sums_change [OF assms(2,3)] assms(1)
    by (metis length_list_update nth_list_update_eq nth_map)
  moreover have "concat us = concat vs \<Longrightarrow> map length us = map length vs \<Longrightarrow> us = vs" for us vs :: "u32 list list"
    by (induction us arbitrary: vs) (auto simp: append_eq_append_conv Cons_eq_map_conv)
  ultimately show ?thesis using len by blast
qed

section \<open>Loading a stored snapshot\<close>

lemma load_layout:
  assumes codec: "header_codec encode decode h" and small: "length (preamble encode h) \<le> 16 + 2 ^ 20"
    and h: "h = stored_header key tokens sid snap boundary"
    and xss: "length xss = 5" "map length xss = section_lengths tokens snap"
    and size: "length (preamble encode h @ concat (map pad_section xss)) < 2 ^ 64"
  shows "load_abortable decode sha256 (preamble encode h @ concat (map pad_section xss)) key (\<lambda>_. False) =
    (if concat (map section_sums xss) =
        concat (map section_sums (snapshot_sections (token_bytes tokens) snap))
     then Inr (snap\<lparr>ps_recurrent := xss ! 1, ps_mtp_prev_hidden := xss ! 2, ps_target_kv := xss ! 3,
                   ps_mtp_kv := xss ! 4\<rparr>)
     else Inl InvalidFormat)"
proof -
  let ?file = "preamble encode h @ concat (map pad_section xss)"
  let ?sums = "concat (map section_sums (snapshot_sections (token_bytes tokens) snap))"
  obtain a b c d e where abc: "xss = [a, b, c, d, e]" using xss(1) by (auto simp: length_Suc_conv numeral_eq_Suc)
  have n: "length tokens * 4 < 2 ^ 64"
  proof -
    have "length a \<le> length ?file" using padded_ge [of "length a"] by (simp add: abc)
    moreover have "length a = length tokens * 4" using xss(2) by (simp add: abc section_lengths_def)
    ultimately show ?thesis using size by simp
  qed
  have sums: "length ?sums = sum_list (map (\<lambda>x. blocks (length x)) xss)"
    using xss(2) by (simp add: abc snapshot_sections_def section_lengths_def length_token_bytes)
  have read: "blocks_read ?file (length (preamble encode h)) (section_lengths tokens snap) (hex_all ?sums) (\<lambda>_. False) =
      (if concat (map section_sums xss) = ?sums then Inr xss else Inl InvalidFormat)"
    using layout_read [OF preamble_align size sums] xss(2) by simp
  have hd: "hd_model_key h = key" "hd_token_count h = length tokens" "hd_payload_crc32c h = Some (hex_all ?sums)"
    "hd_position h = ps_position snap" "hd_layout h = ps_layout snap"
    "[length tokens * 4, hd_recurrent h, hd_mtp_hidden h, hd_target_kv h, hd_mtp_kv h] = section_lengths tokens snap"
    by (simp_all add: h stored_header_def make_header_def section_lengths_def)
  show ?thesis
    using read_header_preamble [OF codec small] n read hd
    by (simp add: load_abortable_def checked_mul_def ok_or_def Let_def abc)
qed

lemma section_lengths_stored:
  "map length (snapshot_sections (token_bytes tokens) snap) = section_lengths tokens snap"
  by (simp add: snapshot_sections_def section_lengths_def length_token_bytes)

text \<open>A concrete codec for one header, and a snapshot of one token.\<close>

definition example_snapshot :: prompt_snapshot where
  "example_snapshot = \<lparr>ps_position = 1, ps_layout = ''l'', ps_recurrent = [1, 2], ps_mtp_prev_hidden = [],
     ps_target_kv = [3], ps_mtp_kv = []\<rparr>"

definition example_encode :: "header \<Rightarrow> bytes" where "example_encode h = [0x7B, 0x7D]"

definition example_decode :: "bytes \<Rightarrow> header option" where
  "example_decode bs = Some (stored_header ''k'' [7] None example_snapshot True)"

lemma example_codec: "header_codec example_encode example_decode (stored_header ''k'' [7] None example_snapshot True)"
  by (simp add: header_codec_def example_decode_def)

lemma example_preamble: "length (preamble example_encode h) = 16384"
  by (simp add: length_preamble example_encode_def next_multiple_of_def ALIGN_def)

lemma example_small: "length (preamble example_encode h) \<le> 16 + 2 ^ 20"
  by (simp add: example_preamble)

lemma example_size: "length (stored_file example_encode ''k'' [7] None example_snapshot True) < 2 ^ 64"
  by (simp add: stored_file_def example_preamble snapshot_sections_def length_token_bytes
      example_snapshot_def padded_def next_multiple_of_def ALIGN_def)

section \<open>Properties\<close>

text \<open>C5. A snapshot comes back as stored: storing without an abort commits a file, and loading
  that file for the same model returns the snapshot; reading only its index returns its tokens.
  The header codec is the JSON encoder and decoder, of which a decoder that ignores trailing
  spaces is all that is used.\<close>

theorem store_load_roundtrip:
  assumes codec: "header_codec encode decode (stored_header key tokens sid snap boundary)"
    and small: "length (preamble encode (stored_header key tokens sid snap boundary)) \<le> 16 + 2 ^ 20"
    and size: "length (stored_file encode key tokens sid snap boundary) < 2 ^ 64"
  shows "\<exists>name file.
    store_abortable encode sha256 decimal key tokens sid snap boundary (\<lambda>_. False) = Inr (name, file) \<and>
    load_abortable decode sha256 file key (\<lambda>_. False) = Inr snap \<and>
    (\<exists>bs. read_index decode file = Inr (stored_header key tokens sid snap boundary, bs) \<and>
       tokens_from_bytes bs = tokens)"
proof -
  let ?h = "stored_header key tokens sid snap boundary"
  let ?xss = "snapshot_sections (token_bytes tokens) snap"
  let ?file = "stored_file encode key tokens sid snap boundary"
  obtain name content where st:
    "store_abortable encode sha256 decimal key tokens sid snap boundary (\<lambda>_. False) = Inr (name, content)"
    using store_total by blast
  have c: "content = preamble encode ?h @ concat (map pad_section ?xss)"
    using store_file [OF st] by (simp add: stored_file_def)
  have size': "length (preamble encode ?h @ concat (map pad_section ?xss)) < 2 ^ 64"
    using size by (simp add: stored_file_def)
  have "load_abortable decode sha256 content key (\<lambda>_. False) = Inr snap"
    unfolding c using load_layout [OF codec small refl _ section_lengths_stored size', of sha256]
    by (simp add: snapshot_sections_def)
  moreover have "read_index decode content = Inr (?h, token_bytes tokens)"
  proof -
    have "length tokens * 4 < 2 ^ 64"
      using size' padded_ge [of "length tokens * 4"] by (simp add: snapshot_sections_def length_token_bytes)
    moreover have "read_exact_at content (length (preamble encode ?h)) (length tokens * 4) = Inr (token_bytes tokens)"
      using padded_ge [of "length tokens * 4"]
      by (simp add: c read_exact_at_def snapshot_sections_def length_token_bytes pad_section_def)
    moreover have "hd_token_count ?h = length tokens" by (simp add: stored_header_def make_header_def)
    ultimately show ?thesis using read_header_preamble [OF codec small]
      by (simp add: read_index_def c checked_mul_def ok_or_def del: sbind_Inr)
  qed
  ultimately show ?thesis using st token_round_trip by blast
qed

theorem store_load_roundtrip_witness:
  "\<exists>name file. store_abortable example_encode (\<lambda>_. []) (\<lambda>_. ''1'') ''k'' [7] None example_snapshot True (\<lambda>_. False)
       = Inr (name, file) \<and>
     load_abortable example_decode (\<lambda>_. []) file ''k'' (\<lambda>_. False) = Inr example_snapshot"
  using store_load_roundtrip [OF example_codec example_small example_size] by blast

text \<open>C11. A damaged snapshot is never loaded: changing any one byte of any section of the file
  makes the load fail, since the CRC-32C of the block that holds it changes.\<close>

theorem damaged_byte_refused:
  assumes codec: "header_codec encode decode (stored_header key tokens sid snap boundary)"
    and small: "length (preamble encode (stored_header key tokens sid snap boundary)) \<le> 16 + 2 ^ 20"
    and size: "length (stored_file encode key tokens sid snap boundary) < 2 ^ 64"
    and m: "m < 5" "i < section_lengths tokens snap ! m"
    and k: "k = length (preamble encode (stored_header key tokens sid snap boundary)) +
                sum_list (map padded (take m (section_lengths tokens snap))) + i"
    and b: "b \<noteq> stored_file encode key tokens sid snap boundary ! k"
  shows "load_abortable decode sha256 ((stored_file encode key tokens sid snap boundary)[k := b]) key (\<lambda>_. False)
    = Inl InvalidFormat"
proof -
  let ?h = "stored_header key tokens sid snap boundary"
  let ?xss = "snapshot_sections (token_bytes tokens) snap"
  let ?off = "sum_list (map padded (map length (take m ?xss))) + i"
  have lens: "map length ?xss = section_lengths tokens snap" by (rule section_lengths_stored)
  have m5: "m < length ?xss" using m(1) by (simp add: snapshot_sections_def)
  have i: "i < length (?xss ! m)" using m(2) m5 lens by (metis nth_map)
  have off: "k = length (preamble encode ?h) + ?off"
    unfolding k lens [symmetric] take_map [symmetric] by simp
  have upd: "(concat (map pad_section ?xss))[?off := c] = concat (map pad_section (?xss[m := (?xss ! m)[i := c]]))" for c
    by (rule layout_update [OF m5 i])
  have inside: "?off < length (concat (map pad_section ?xss))"
    using layout_offset [OF m5 i] .
  have old: "stored_file encode key tokens sid snap boundary ! k = ?xss ! m ! i"
    using layout_nth [OF m5 i] unfolding stored_file_def off by (simp add: nth_append)
  let ?yss = "?xss[m := (?xss ! m)[i := b]]"
  have f: "(stored_file encode key tokens sid snap boundary)[k := b] =
      preamble encode ?h @ concat (map pad_section ?yss)"
    unfolding stored_file_def off list_update_append
    by (simp only: not_add_less1 if_False add_diff_cancel_left' upd)
  have y: "length ?yss = 5" "map length ?yss = section_lengths tokens snap"
  proof -
    have "length ?xss = 5" by (simp add: snapshot_sections_def)
    then show "length ?yss = 5" by (simp only: length_list_update)
    have "map length ?yss = (map length ?xss)[m := length (?xss ! m)]" by (simp only: map_update length_list_update)
    also have "\<dots> = map length ?xss" using m5 by (metis list_update_id nth_map)
    finally show "map length ?yss = section_lengths tokens snap" using lens by simp
  qed
  have sz: "length (preamble encode ?h @ concat (map pad_section ?yss)) < 2 ^ 64"
    using size unfolding f [symmetric] by simp
  show ?thesis unfolding f
    using load_layout [OF codec small refl y sz, of sha256] concat_sums_change [OF m5 i] b old by simp
qed

theorem damaged_byte_refused_witness:
  "load_abortable example_decode (\<lambda>_. [])
     ((stored_file example_encode ''k'' [7] None example_snapshot True)
        [32768 := stored_file example_encode ''k'' [7] None example_snapshot True ! 32768 + 1]) ''k'' (\<lambda>_. False)
   = Inl InvalidFormat"
  by (rule damaged_byte_refused [OF example_codec example_small example_size, of 1 0])
    (simp_all add: section_lengths_def example_preamble example_snapshot_def padded_def next_multiple_of_def ALIGN_def)

text \<open>The size the budget is charged is exact: \<open>stored_bytes\<close>, computed before any checksum,
  is the length of the file the store commits, when the length of the encoded header depends on
  the checksums only through their number of digits.\<close>

theorem stored_bytes_exact:
  assumes len: "\<And>h s t. length s = length t \<Longrightarrow>
      length (encode (h\<lparr>hd_payload_crc32c := Some s\<rparr>)) = length (encode (h\<lparr>hd_payload_crc32c := Some t\<rparr>))"
    and st: "store_abortable encode sha256 decimal key tokens sid snap boundary abort = Inr (name, file)"
  shows "stored_bytes encode key tokens sid snap boundary = length file"
proof -
  let ?xss = "snapshot_sections (token_bytes tokens) snap"
  let ?digits = "hex_all (concat (map section_sums ?xss))"
  let ?zeros = "replicate (checksum_digits (section_lengths tokens snap)) (CHR ''0'')"
  have mk: "make_header key tokens sid snap boundary s =
      (make_header key tokens sid snap boundary [])\<lparr>hd_payload_crc32c := Some s\<rparr>" for s
    by (simp add: make_header_def)
  have "length (hex_all vs) = length vs * DIGITS" for vs
    by (induction vs) (simp_all add: hex_all_def DIGITS_def)
  then have "length ?digits = length ?zeros"
    by (simp add: checksum_digits_def section_lengths_stored [symmetric] snapshot_sections_def DIGITS_def)
  then have "length (encode (make_header key tokens sid snap boundary ?zeros)) =
      length (encode (stored_header key tokens sid snap boundary))"
    unfolding stored_header_def by (subst (1 2) mk) (rule len [OF sym])
  moreover have "length (concat (map pad_section ?xss)) = sum_list (map padded (section_lengths tokens snap))"
    by (simp add: section_lengths_stored [symmetric] snapshot_sections_def)
  ultimately show ?thesis
    unfolding store_file [OF st] by (simp add: stored_bytes_def stored_file_def length_preamble Let_def)
qed

theorem stored_bytes_exact_witness:
  "\<exists>name file. store_abortable example_encode (\<lambda>_. []) (\<lambda>_. ''1'') ''k'' [7] None example_snapshot True (\<lambda>_. False)
       = Inr (name, file) \<and>
     stored_bytes example_encode ''k'' [7] None example_snapshot True = length file"
proof -
  obtain name content where st: "store_abortable example_encode (\<lambda>_. []) (\<lambda>_. ''1'') ''k'' [7] None
      example_snapshot True (\<lambda>_. False) = Inr (name, content)"
    using store_total by blast
  have "stored_bytes example_encode ''k'' [7] None example_snapshot True = length content"
    by (rule stored_bytes_exact [OF _ st]) (simp add: example_encode_def)
  then show ?thesis using st by blast
qed

end
