(* ===== verification/Tool_Calls.thy ===== *)
theory Tool_Calls
  imports Strings
begin

text \<open>
  Tool calls in the checkpoint's own format (\<open>local-engine/src/tools.rs\<close>): the tool definitions of a
  request and their compiled schemas, the prompt that lists them and replays calls and results, the
  checks on a replayed history, and reading a call back from the text of a \<open><tool_call>\<close> block.
  Texts are UTF-8 bytes.  \<open>serde_json\<close> (\<open>from_str\<close>, \<open>to_string\<close>), the \<open>jsonschema\<close> crate
  (\<open>schema_lib\<close>) and the grammar's classification of strict tools are parameters.  Every error
  of the code is a constructor; its wording is left out.
\<close>

section \<open>Data\<close>

definition CALL_START :: string where "CALL_START = ''<tool_call>''"
definition CALL_END :: string where "CALL_END = ''</tool_call>''"
definition TOOL_RESPONSE_START :: string where "TOOL_RESPONSE_START = ''<tool_response>''"
definition TOOL_RESPONSE_END :: string where "TOOL_RESPONSE_END = ''</tool_response>''"

abbreviation newline :: string where "newline \<equiv> [CHR 0x0A]"

definition PARAMETER_CLOSE :: string where "PARAMETER_CLOSE = newline @ ''</parameter>''"
definition PARAMETER_OPEN :: string where "PARAMETER_OPEN = newline @ ''<parameter=''"
definition STRICT_CALL_END :: string where
  "STRICT_CALL_END = newline @ ''</function>'' @ newline @ ''</tool_call>''"
definition FUNCTION_OPEN :: string where "FUNCTION_OPEN = newline @ ''<function=''"

record tool_definition =
  td_name :: string
  td_description :: "string option"
  td_parameters :: json
  td_strict :: bool

datatype tool_choice =
    Choice_Auto
  | Choice_None
  | Choice_Required
  | Choice_Function string
  | Choice_Allowed "string list" bool

record tool_call =
  tc_id :: string
  tc_name :: string
  tc_arguments :: json

text \<open>A compiled validator: the error of a value it refuses.\<close>

type_synonym validator = "json \<Rightarrow> string option"

definition is_valid :: "validator \<Rightarrow> json \<Rightarrow> bool" where
  "is_valid v value \<longleftrightarrow> v value = None"

record parameter =
  pm_validator :: validator
  pm_unconstrained :: bool
  pm_any_string :: bool

record argument_schema =
  ag_arguments :: validator
  ag_properties :: "string \<rightharpoonup> parameter"
  ag_additional :: "parameter option"

text \<open>\<open>grammar::StrictTool\<close>: how a strict tool's arguments are spelled.\<close>

datatype value_kind = Kind_Raw "string list" | Kind_Json json

record strict_parameter =
  stp_name :: string
  stp_required :: bool
  stp_value :: value_kind

type_synonym strict_tool = "strict_parameter list"

definition strict_lookup :: "strict_tool \<Rightarrow> string \<Rightarrow> strict_parameter option" where
  "strict_lookup st name = List.find (\<lambda>p. stp_name p = name) st"

record tool =
  tl_definition :: tool_definition
  tl_schema :: "argument_schema option"
  tl_strict :: "(string + strict_tool) option"

type_synonym tool_set = "tool list"

definition get_tool :: "tool_set \<Rightarrow> string \<Rightarrow> tool option" where
  "get_tool tools name = List.find (\<lambda>t. td_name (tl_definition t) = name) tools"

definition any_strict :: "tool_set \<Rightarrow> bool" where
  "any_strict tools \<longleftrightarrow> list_ex (\<lambda>t. tl_strict t \<noteq> None) tools"

section \<open>Names\<close>

definition name_byte :: "char \<Rightarrow> bool" where
  "name_byte c \<longleftrightarrow> (let b = (of_char c :: nat) in
     0x30 \<le> b \<and> b \<le> 0x39 \<or> 0x41 \<le> b \<and> b \<le> 0x5A \<or> 0x61 \<le> b \<and> b \<le> 0x7A \<or>
     c = CHR ''_'' \<or> c = CHR ''-'' \<or> c = CHR ''.'')"

definition check_tool_name :: "string \<Rightarrow> bool" where
  "check_tool_name name \<longleftrightarrow> 1 \<le> length name \<and> length name \<le> 64 \<and> list_all name_byte name"

definition check_parameter_name :: "string \<Rightarrow> bool" where
  "check_parameter_name name \<longleftrightarrow>
     name \<noteq> [] \<and>
     \<not> list_ex (\<lambda>c. c = ''<'' \<or> c = ''>'' \<or> is_whitespace c \<or> is_control c) (chars name)"

section \<open>Compiling the tools of a request\<close>

datatype schema_error =
    Not_An_Object
  | Top_Level_Type
  | Invalid_Schema string
  | Invalid_Schema_At string string
  | Schema_Parameter_Name string

text \<open>What the code calls of the \<open>jsonschema\<close> crate: compiling a schema, registering one document
  with retrieval refused, and compiling a schema that may refer into that document.\<close>

record schema_lib =
  sl_build :: "json \<Rightarrow> string + validator"
  sl_registry :: "json \<Rightarrow> string + unit"
  sl_build_in :: "json \<Rightarrow> json \<Rightarrow> string + validator"

definition SCHEMA_URI :: string where "SCHEMA_URI = ''urn:local-ai:tool-parameters''"

definition percent_digit :: "nat \<Rightarrow> char" where
  "percent_digit n = ''0123456789ABCDEF'' ! n"

definition escape_pointer :: "string \<Rightarrow> string" where
  "escape_pointer name =
     concat (map (\<lambda>c. if c = CHR ''/'' then ''~1'' else [c])
       (concat (map (\<lambda>c. if c = CHR ''~'' then ''~0'' else [c]) name)))"

definition fragment_segment :: "string \<Rightarrow> string" where
  "fragment_segment name =
     concat (map (\<lambda>c. let b = (of_char c :: nat) in
       if name_byte c \<or> c = CHR ''~'' then [c]
       else [CHR ''%'', percent_digit (b div 16), percent_digit (b mod 16)]) (escape_pointer name))"

definition ANNOTATION_KEYS :: "string list" where
  "ANNOTATION_KEYS =
     [''type'', ''description'', ''title'', ''examples'', ''default'', ''$comment'', ''deprecated'',
      ''readOnly'', ''writeOnly'']"

definition accepts_every_string :: "json \<Rightarrow> bool" where
  "accepts_every_string schema =
     (case schema of
        JObj members \<Rightarrow>
          (case map_of members ''type'' of
             Some (JStr kind) \<Rightarrow> kind = ''string''
           | Some (JArr kinds) \<Rightarrow> list_ex (\<lambda>k. k = JStr ''string'') kinds
           | _ \<Rightarrow> False) \<and>
          list_all (\<lambda>(key, _). List.member ANNOTATION_KEYS key) members
      | _ \<Rightarrow> False)"

definition PROBES :: "json list" where
  "PROBES = [JNull, JBool False, JNum ''0'', JStr [], JArr [], JObj []]"

definition compile_parameter ::
  "schema_lib \<Rightarrow> json \<Rightarrow> (string \<times> json) list \<Rightarrow> string \<Rightarrow> json \<Rightarrow> schema_error + parameter" where
  "compile_parameter lib schema members pointer declared =
     (let dialect = (case map_of members ''$schema'' of Some d \<Rightarrow> [(''$schema'', d)] | None \<Rightarrow> []);
          reference = JObj (dialect @ [(''$ref'', JStr (SCHEMA_URI @ ''#'' @ pointer))])
      in case sl_build_in lib schema reference of
           Inl e \<Rightarrow> Inl (Invalid_Schema_At pointer e)
         | Inr v \<Rightarrow>
             Inr \<lparr>pm_validator = v, pm_unconstrained = list_all (is_valid v) PROBES,
                  pm_any_string = accepts_every_string declared\<rparr>)"

fun compile_properties ::
  "schema_lib \<Rightarrow> json \<Rightarrow> (string \<times> json) list \<Rightarrow> (string \<times> json) list \<Rightarrow> (string \<rightharpoonup> parameter)
   \<Rightarrow> schema_error + (string \<rightharpoonup> parameter)" where
  "compile_properties lib schema members [] properties = Inr properties"
| "compile_properties lib schema members ((name, declared) # rest) properties =
     (if \<not> check_parameter_name name then Inl (Schema_Parameter_Name name)
      else
        sbind (compile_parameter lib schema members (''/properties/'' @ fragment_segment name) declared)
          (\<lambda>p. compile_properties lib schema members rest (properties(name \<mapsto> p))))"

definition compile_parameters ::
  "schema_lib \<Rightarrow> json \<Rightarrow> schema_error + argument_schema option" where
  "compile_parameters lib schema =
     (case schema of
        JNull \<Rightarrow> Inr None
      | JObj members \<Rightarrow>
          if (case map_of members ''type'' of Some kind \<Rightarrow> kind \<noteq> JStr ''object'' | None \<Rightarrow> False)
          then Inl Top_Level_Type
          else
            (case sl_build lib schema of
               Inl e \<Rightarrow> Inl (Invalid_Schema e)
             | Inr arguments \<Rightarrow>
                 (case sl_registry lib schema of
                    Inl e \<Rightarrow> Inl (Invalid_Schema e)
                  | Inr _ \<Rightarrow>
                      sbind (case map_of members ''properties'' of
                               Some (JObj declared) \<Rightarrow>
                                 compile_properties lib schema members declared Map.empty
                             | _ \<Rightarrow> Inr Map.empty)
                        (\<lambda>properties.
                           sbind (case map_of members ''additionalProperties'' of
                                    Some (JObj additional) \<Rightarrow>
                                      (case compile_parameter lib schema members
                                              ''/additionalProperties'' (JObj additional) of
                                         Inl e \<Rightarrow> Inl e | Inr p \<Rightarrow> Inr (Some p))
                                  | _ \<Rightarrow> Inr None)
                             (\<lambda>additional.
                                Inr (Some \<lparr>ag_arguments = arguments, ag_properties = properties,
                                           ag_additional = additional\<rparr>)))))
      | _ \<Rightarrow> Inl Not_An_Object)"

datatype tools_error =
    Invalid_Tool_Name string
  | Duplicate_Tool_Name string
  | Tool_Parameters string schema_error
  | Choice_Needs_Tool
  | Choice_Unknown_Tool string
  | Allowed_Needs_Tool
  | Allowed_Unknown_Tool string

fun compile_tools ::
  "schema_lib \<Rightarrow> (json \<Rightarrow> string + strict_tool) \<Rightarrow> string list \<Rightarrow> tool_definition list
   \<Rightarrow> tools_error + tool_set" where
  "compile_tools lib classify names [] = Inr []"
| "compile_tools lib classify names (d # ds) =
     (if \<not> check_tool_name (td_name d) then Inl (Invalid_Tool_Name (td_name d))
      else if List.member names (td_name d) then Inl (Duplicate_Tool_Name (td_name d))
      else
        (case compile_parameters lib (td_parameters d) of
           Inl e \<Rightarrow> Inl (Tool_Parameters (td_name d) e)
         | Inr schema \<Rightarrow>
             sbind (compile_tools lib classify (td_name d # names) ds)
               (\<lambda>tools. Inr (\<lparr>tl_definition = d, tl_schema = schema,
                  tl_strict = (if td_strict d then Some (classify (td_parameters d)) else None)\<rparr> # tools))))"

definition toolset_new ::
  "schema_lib \<Rightarrow> (json \<Rightarrow> string + strict_tool) \<Rightarrow> tool_definition list \<Rightarrow> tools_error + tool_set" where
  "toolset_new lib classify ds = compile_tools lib classify [] ds"

definition check_choice :: "tool_definition list \<Rightarrow> tool_choice \<Rightarrow> tools_error + unit" where
  "check_choice tools choice =
     (let known = (\<lambda>name. list_ex (\<lambda>t. td_name t = name) tools) in
      case choice of
        Choice_Required \<Rightarrow> if tools = [] then Inl Choice_Needs_Tool else Inr ()
      | Choice_Auto \<Rightarrow> Inr ()
      | Choice_None \<Rightarrow> Inr ()
      | Choice_Function name \<Rightarrow> if known name then Inr () else Inl (Choice_Unknown_Tool name)
      | Choice_Allowed allowed _ \<Rightarrow>
          if allowed = [] then Inl Allowed_Needs_Tool
          else (case List.find (\<lambda>name. \<not> known name) allowed of
                  None \<Rightarrow> Inr () | Some name \<Rightarrow> Inl (Allowed_Unknown_Tool name)))"

section \<open>Rendering\<close>

record turn =
  tn_role :: string
  tn_content :: string
  tn_reasoning :: "string option"
  tn_calls :: "tool_call list"
  tn_call_id :: "string option"

abbreviation is_tool :: "turn \<Rightarrow> bool" where
  "is_tool t \<equiv> tn_role t = ''tool''"

text \<open>Python's \<open>json.dumps\<close> separators; scalars print as \<open>serde_json\<close> prints them.\<close>

definition push_json_string :: "(json \<Rightarrow> string) \<Rightarrow> string \<Rightarrow> string" where
  "push_json_string to_string text = to_string (JStr text)"

fun commas :: "string list \<Rightarrow> string" where
  "commas [] = []"
| "commas [x] = x"
| "commas (x # xs) = x @ '', '' @ commas xs"

fun push_python_json :: "(json \<Rightarrow> string) \<Rightarrow> json \<Rightarrow> string" where
  "push_python_json to_string (JArr items) =
     ''['' @ commas (map (push_python_json to_string) items) @ '']''"
| "push_python_json to_string (JObj members) =
     ''{'' @ commas (map (\<lambda>(key, item).
        push_json_string to_string key @ '': '' @ push_python_json to_string item) members) @ ''}''"
| "push_python_json to_string scalar = to_string scalar"

definition render_tool :: "(json \<Rightarrow> string) \<Rightarrow> tool_definition \<Rightarrow> string" where
  "render_tool to_string d =
     ''{\"type\": \"function\", \"function\": {\"name\": '' @ push_json_string to_string (td_name d) @
     (case td_description d of
        Some description \<Rightarrow> '', \"description\": '' @ push_json_string to_string description
      | None \<Rightarrow> []) @
     (if td_parameters d \<noteq> JNull
      then '', \"parameters\": '' @ push_python_json to_string (td_parameters d) else []) @
     ''}}''"

definition render_value :: "(json \<Rightarrow> string) \<Rightarrow> json \<Rightarrow> string" where
  "render_value to_string v =
     (case v of JStr text \<Rightarrow> text | other \<Rightarrow> push_python_json to_string other)"

definition render_parameter :: "(json \<Rightarrow> string) \<Rightarrow> string \<times> json \<Rightarrow> string" where
  "render_parameter to_string p =
     ''<parameter='' @ fst p @ ''>'' @ newline @ render_value to_string (snd p) @
     newline @ ''</parameter>'' @ newline"

definition render_call :: "(json \<Rightarrow> string) \<Rightarrow> tool_call \<Rightarrow> string" where
  "render_call to_string call =
     ''<tool_call>'' @ newline @ ''<function='' @ tc_name call @ ''>'' @ newline @
     (case tc_arguments call of
        JObj members \<Rightarrow> concat (map (render_parameter to_string) members) | _ \<Rightarrow> []) @
     ''</function>'' @ newline @ ''</tool_call>''"

definition TOOLS_HEADER :: string where
  "TOOLS_HEADER =
     ''# Tools'' @ newline @ newline @ ''You have access to the following functions:'' @
     newline @ newline @ ''<tools>''"

definition TOOLS_FOOTER :: string where
  "TOOLS_FOOTER =
     newline @ ''</tools>'' @ newline @ newline @
     ''If you choose to call a function ONLY reply in the following format with NO suffix:'' @
     newline @ newline @ ''<tool_call>'' @ newline @ ''<function=example_function_name>'' @ newline @
     ''<parameter=example_parameter_1>'' @ newline @ ''value_1'' @ newline @ ''</parameter>'' @ newline @
     ''<parameter=example_parameter_2>'' @ newline @ ''This is the value for the second parameter'' @
     newline @ ''that can span'' @ newline @ ''multiple lines'' @ newline @ ''</parameter>'' @ newline @
     ''</function>'' @ newline @ ''</tool_call>'' @ newline @ newline @ ''<IMPORTANT>'' @ newline @
     ''Reminder:'' @ newline @
     ''- Function calls MUST follow the specified format: an inner <function=...></function> block must be nested within <tool_call></tool_call> XML tags'' @ newline @
     ''- Required parameters MUST be specified'' @ newline @
     ''- You may provide optional reasoning for your function call in natural language BEFORE the function call, but NOT after'' @ newline @
     ''- If there is no function call available, answer the question like normal with your current knowledge and do not tell the user about function calls'' @
     newline @ ''</IMPORTANT>''"

datatype reasoning_effort = Low | Medium | XHigh

definition DEFAULT_REASONING_INSTRUCTION :: string where
  "DEFAULT_REASONING_INSTRUCTION = ''Reasoning effort is set to xhigh. Please think carefully through the task, validate key assumptions, consider plausible alternatives, and prioritize correctness, consistency, and clarity in the final answer.''"

definition LOW_REASONING_INSTRUCTION :: string where
  "LOW_REASONING_INSTRUCTION = ''Reasoning effort is set to low. Keep your thinking brief and focused, moving directly to the conclusion without unnecessary elaboration.''"

fun effort_instruction :: "reasoning_effort \<Rightarrow> string option" where
  "effort_instruction Low = Some LOW_REASONING_INSTRUCTION"
| "effort_instruction Medium = None"
| "effort_instruction XHigh = Some DEFAULT_REASONING_INSTRUCTION"

definition instruction_role :: "string \<Rightarrow> bool" where
  "instruction_role role \<longleftrightarrow> role = ''system'' \<or> role = ''developer''"

fun join_instructions :: "string \<Rightarrow> string list \<Rightarrow> string" where
  "join_instructions system [] = system"
| "join_instructions system (content # rest) =
     join_instructions ((if system \<noteq> [] then system @ newline @ newline else system) @ content) rest"

definition leading_instructions :: "turn list \<Rightarrow> string" where
  "leading_instructions turns =
     join_instructions [] (filter (\<lambda>c. c \<noteq> []) (map (\<lambda>t. trim (tn_content t)) turns))"

definition render_system :: "(json \<Rightarrow> string) \<Rightarrow> string \<Rightarrow> string option \<Rightarrow> tool_set \<Rightarrow> string" where
  "render_system to_string system instruction tools =
     (if tools \<noteq> [] then
        ''<|im_start|>system'' @ newline @
        (case instruction of Some i \<Rightarrow> i @ newline @ newline | None \<Rightarrow> []) @
        TOOLS_HEADER @
        concat (map (\<lambda>t. newline @ render_tool to_string (tl_definition t)) tools) @
        TOOLS_FOOTER @
        (if system \<noteq> [] then newline @ newline @ system else []) @
        ''<|im_end|>'' @ newline
      else if instruction \<noteq> None \<or> system \<noteq> [] then
        ''<|im_start|>system'' @ newline @
        (case instruction of
           Some i \<Rightarrow> i @ (if system \<noteq> [] then newline @ newline else []) | None \<Rightarrow> []) @
        system @ ''<|im_end|>'' @ newline
      else [])"

section \<open>Checking a replayed history\<close>

datatype render_error =
    No_Messages
  | Empty_Content
  | No_User_Query
  | Misplaced_Instruction string
  | Unsupported_Role string
  | No_Tool_Result string
  | Role_Cannot_Call string
  | Role_Cannot_Answer string
  | Empty_Call_Id
  | Duplicate_Call_Id string
  | Bad_Call_Name string
  | Arguments_Not_Object string
  | Bad_Argument_Name string
  | Call_Arguments string string
  | Missing_Call_Id
  | Answers_No_Call string
  | Results_Do_Not_Match
  | Needs_One_Result string

definition validate_arguments :: "tool \<Rightarrow> json \<Rightarrow> string option" where
  "validate_arguments t arguments =
     (case tl_schema t of
        None \<Rightarrow> if arguments = JObj [] then None else Some ''takes no arguments''
      | Some schema \<Rightarrow> ag_arguments schema arguments)"

definition strict_tool_of :: "tool_set \<Rightarrow> string \<Rightarrow> tool option" where
  "strict_tool_of tools name =
     (case get_tool tools name of
        Some t \<Rightarrow> if tl_strict t \<noteq> None then Some t else None
      | None \<Rightarrow> None)"

fun validate_calls ::
  "tool_set \<Rightarrow> tool_call list \<Rightarrow> string list \<times> string list \<Rightarrow> render_error + string list \<times> string list" where
  "validate_calls tools [] (seen, pending) = Inr (seen, pending)"
| "validate_calls tools (call # calls) (seen, pending) =
     (if trim (tc_id call) = [] then Inl Empty_Call_Id
      else if List.member seen (tc_id call) then Inl (Duplicate_Call_Id (tc_id call))
      else if \<not> check_tool_name (tc_name call) then Inl (Bad_Call_Name (tc_name call))
      else case tc_arguments call of
        JObj members \<Rightarrow>
          (case List.find (\<lambda>key. \<not> check_parameter_name key) (map fst members) of
             Some key \<Rightarrow> Inl (Bad_Argument_Name key)
           | None \<Rightarrow>
               (case Option.bind (strict_tool_of tools (tc_name call))
                       (\<lambda>t. validate_arguments t (tc_arguments call)) of
                  Some e \<Rightarrow> Inl (Call_Arguments (tc_id call) e)
                | None \<Rightarrow>
                    validate_calls tools calls (tc_id call # seen, pending @ [tc_id call])))
      | _ \<Rightarrow> Inl (Arguments_Not_Object (tc_id call)))"

definition validate_turn ::
  "tool_set \<Rightarrow> turn \<Rightarrow> string list \<times> string list \<Rightarrow> render_error + string list \<times> string list" where
  "validate_turn tools t st =
     (case st of (seen, pending) \<Rightarrow>
        if \<not> is_tool t \<and> pending \<noteq> [] then Inl (No_Tool_Result (hd pending))
        else if tn_role t \<noteq> ''assistant'' \<and> tn_calls t \<noteq> [] then Inl (Role_Cannot_Call (tn_role t))
        else if \<not> is_tool t \<and> tn_call_id t \<noteq> None then Inl (Role_Cannot_Answer (tn_role t))
        else if tn_role t = ''assistant'' then validate_calls tools (tn_calls t) st
        else if is_tool t then
          (case tn_call_id t of
             None \<Rightarrow> Inl Missing_Call_Id
           | Some i \<Rightarrow>
               (case position (\<lambda>p. p = i) pending of
                  Some at \<Rightarrow> Inr (seen, vec_remove at pending)
                | None \<Rightarrow> Inl (Answers_No_Call i)))
        else Inr st)"

fun validate_turns ::
  "tool_set \<Rightarrow> turn list \<Rightarrow> string list \<times> string list \<Rightarrow> render_error + string list \<times> string list" where
  "validate_turns tools [] st = Inr st"
| "validate_turns tools (t # ts) st = sbind (validate_turn tools t st) (validate_turns tools ts)"

definition validate_history :: "turn list \<Rightarrow> tool_set \<Rightarrow> render_error + unit" where
  "validate_history turns tools =
     sbind (validate_turns tools turns ([], []))
       (\<lambda>(seen, pending). if pending \<noteq> [] then Inl (No_Tool_Result (hd pending)) else Inr ())"

text \<open>\<open>order_results\<close>: \<open>calls\<close> are those of the turn before the first of \<open>turns\<close>.\<close>

fun pick_results :: "turn list \<Rightarrow> tool_call list \<Rightarrow> render_error + turn list" where
  "pick_results results [] = Inr []"
| "pick_results results (call # calls) =
     (case filter (\<lambda>r. tn_call_id r = Some (tc_id call)) results of
        [result] \<Rightarrow> sbind (pick_results results calls) (\<lambda>rest. Inr (result # rest))
      | _ \<Rightarrow> Inl (Needs_One_Result (tc_id call)))"

function order_from :: "tool_call list \<Rightarrow> turn list \<Rightarrow> render_error + turn list" where
  "order_from calls [] = Inr []"
| "order_from calls (t # ts) =
     (if \<not> is_tool t then sbind (order_from (tn_calls t) ts) (\<lambda>rest. Inr (t # rest))
      else
        let results = takeWhile is_tool (t # ts); after = dropWhile is_tool (t # ts) in
        if length calls \<noteq> length results then Inl Results_Do_Not_Match
        else
          sbind (pick_results results calls)
            (\<lambda>picked. sbind (order_from (tn_calls (last results)) after)
               (\<lambda>rest. Inr (picked @ rest))))"
  by pat_completeness auto
termination
  by (relation "measure (length \<circ> snd)") (auto simp: less_Suc_eq_le length_dropWhile_le)

definition order_results :: "turn list \<Rightarrow> render_error + turn list" where
  "order_results turns = order_from [] turns"

section \<open>The prompt\<close>

definition is_query :: "turn \<Rightarrow> bool" where
  "is_query t \<longleftrightarrow>
     (let content = trim (tn_content t) in
      tn_role t = ''user'' \<and>
      \<not> (prefix TOOL_RESPONSE_START content \<and> suffix TOOL_RESPONSE_END content))"

fun render_calls :: "(json \<Rightarrow> string) \<Rightarrow> string \<Rightarrow> tool_call list \<Rightarrow> string" where
  "render_calls to_string content [] = []"
| "render_calls to_string content (call # calls) =
     (if content \<noteq> [] then newline @ newline else []) @ render_call to_string call @
     concat (map (\<lambda>c. newline @ render_call to_string c) calls)"

text \<open>One turn of the loop, between the turn before it and the turn after it.\<close>

definition render_turn ::
  "(json \<Rightarrow> string) \<Rightarrow> nat \<Rightarrow> bool \<Rightarrow> nat \<Rightarrow> nat \<Rightarrow> turn option \<Rightarrow> turn \<Rightarrow> turn option
   \<Rightarrow> render_error + string" where
  "render_turn to_string leading preserve_thinking last_query index previous t following =
     (let content = trim (tn_content t); role = tn_role t in
      if instruction_role role then
        if index \<ge> leading then Inl (Misplaced_Instruction role) else Inr []
      else if role = ''user'' then
        Inr (''<|im_start|>user'' @ newline @ content @ ''<|im_end|>'' @ newline)
      else if role = ''assistant'' then
        Inr (''<|im_start|>assistant'' @ newline @
          (if preserve_thinking \<or> index > last_query
           then ''<think>'' @ newline @
             trim (case tn_reasoning t of Some r \<Rightarrow> r | None \<Rightarrow> []) @
             newline @ ''</think>'' @ newline @ newline
           else []) @
          content @ render_calls to_string content (tn_calls t) @ ''<|im_end|>'' @ newline)
      else if role = ''tool'' then
        Inr ((case previous of
                Some p \<Rightarrow> if \<not> is_tool p then ''<|im_start|>user'' else [] | None \<Rightarrow> []) @
          newline @ TOOL_RESPONSE_START @ newline @ content @ newline @ TOOL_RESPONSE_END @
          (case following of
             Some n \<Rightarrow> if \<not> is_tool n then ''<|im_end|>'' @ newline else []
           | None \<Rightarrow> ''<|im_end|>'' @ newline))
      else Inl (Unsupported_Role role))"

fun render_turns ::
  "(json \<Rightarrow> string) \<Rightarrow> nat \<Rightarrow> bool \<Rightarrow> nat \<Rightarrow> nat \<Rightarrow> turn option \<Rightarrow> turn list \<Rightarrow> render_error + string" where
  "render_turns to_string leading preserve_thinking last_query index previous [] = Inr []"
| "render_turns to_string leading preserve_thinking last_query index previous (t # ts) =
     sbind (render_turn to_string leading preserve_thinking last_query index previous t
              (case ts of [] \<Rightarrow> None | n # _ \<Rightarrow> Some n))
       (\<lambda>text. sbind (render_turns to_string leading preserve_thinking last_query (Suc index) (Some t) ts)
          (\<lambda>rest. Inr (text @ rest)))"

definition generation_prompt :: "reasoning_effort option \<Rightarrow> string" where
  "generation_prompt thinking =
     ''<|im_start|>assistant'' @ newline @
     (if thinking \<noteq> None then ''<think>'' @ newline
      else ''<think>'' @ newline @ newline @ ''</think>'' @ newline @ newline)"

definition render ::
  "(json \<Rightarrow> string) \<Rightarrow> turn list \<Rightarrow> reasoning_effort option \<Rightarrow> bool \<Rightarrow> tool_set
   \<Rightarrow> render_error + string" where
  "render to_string turns0 thinking preserve_thinking tools =
     (if turns0 = [] then Inl No_Messages
      else if length turns0 = 1 \<and> tn_role (hd turns0) = ''user'' \<and> trim (tn_content (hd turns0)) = []
      then Inl Empty_Content
      else
        sbind (validate_history turns0 tools) (\<lambda>_.
          if \<not> list_ex is_query turns0 then Inl No_User_Query
          else
            sbind (order_results turns0) (\<lambda>turns.
              let last_query = (case rposition is_query turns of Some i \<Rightarrow> i | None \<Rightarrow> 0);
                  leading = length (takeWhile (\<lambda>t. instruction_role (tn_role t)) turns);
                  system = leading_instructions (take leading turns);
                  instruction = Option.bind thinking effort_instruction
              in sbind (render_turns to_string leading preserve_thinking last_query 0 None turns)
                   (\<lambda>body. Inr (render_system to_string system instruction tools @ body @
                                generation_prompt thinking)))))"

section \<open>Reading a call\<close>

datatype call_error =
    Expected_Function
  | Unterminated_Function
  | Missing_Function_End
  | Call_Tool_Name string
  | Text_Outside_Parameters
  | Unterminated_Parameter
  | Call_Parameter_Name string
  | Missing_Parameter_End string
  | Duplicate_Parameter string
  | Arguments_Refused string
  | No_Enforced_Layout
  | Expected_Parameter
  | Unknown_Parameter string
  | Not_Json string

definition convert :: "(string \<Rightarrow> json option) \<Rightarrow> string \<Rightarrow> parameter option \<Rightarrow> json" where
  "convert from_str raw p =
     (let text = JStr raw;
          parsed = from_str raw;
          unconstrained = (case parsed of Some value \<Rightarrow> value | None \<Rightarrow> text)
      in case p of
           Some q \<Rightarrow>
             if \<not> pm_unconstrained q then
               if is_valid (pm_validator q) text then text
               else (case parsed of
                       Some value \<Rightarrow> if is_valid (pm_validator q) value then value else text
                     | None \<Rightarrow> text)
             else unconstrained
         | None \<Rightarrow> unconstrained)"

text \<open>The parameter a value is converted by: the declared one, or the one for additional names.\<close>

definition schema_parameter :: "argument_schema option \<Rightarrow> string \<Rightarrow> parameter option" where
  "schema_parameter schema key =
     (case schema of
        Some s \<Rightarrow> (case ag_properties s key of Some p \<Rightarrow> Some p | None \<Rightarrow> ag_additional s)
      | None \<Rightarrow> None)"

definition tool_parameter :: "tool option \<Rightarrow> string \<Rightarrow> parameter option" where
  "tool_parameter t key = schema_parameter (Option.bind t tl_schema) key"

definition strip_newline :: "string \<Rightarrow> string" where
  "strip_newline s = (case strip_prefix s newline of Some r \<Rightarrow> r | None \<Rightarrow> s)"

definition chomp_newline :: "string \<Rightarrow> string" where
  "chomp_newline s = (case strip_suffix s newline of Some r \<Rightarrow> r | None \<Rightarrow> s)"

lemma split_once_length: "split_once s d = Some (a, b) \<Longrightarrow> length a + length d + length b = length s"
  using str_find_length [of d s] by (auto simp: split_once_def)

lemma strip_prefix_length: "strip_prefix s p = Some r \<Longrightarrow> length p + length r = length s"
  using prefix_length_le [of p s] by (auto simp: strip_prefix_def split: if_splits)

lemma trim_start_length: "length (trim_start s) \<le> length s"
proof -
  have "length (trim_start s) \<le> length (concat (chars s))"
    unfolding trim_start_def
    by (metis concat_append le_add2 length_append takeWhile_dropWhile_id)
  then show ?thesis by simp
qed

lemma strip_newline_length: "length (strip_newline s) \<le> length s"
  by (auto simp: strip_newline_def strip_prefix_def split: option.splits)

function parse_parameters ::
  "(string \<Rightarrow> json option) \<Rightarrow> tool option \<Rightarrow> string \<Rightarrow> (string \<times> json) list
   \<Rightarrow> call_error + (string \<times> json) list" where
  "parse_parameters from_str t rest0 arguments =
     (let rest = trim_start rest0 in
      if rest = [] then Inr arguments
      else
        case strip_prefix rest ''<parameter='' of
          None \<Rightarrow> Inl Text_Outside_Parameters
        | Some p \<Rightarrow>
            (case split_once p ''>'' of
               None \<Rightarrow> Inl Unterminated_Parameter
             | Some (key, p1) \<Rightarrow>
                 if \<not> check_parameter_name key then Inl (Call_Parameter_Name key)
                 else
                   (case split_once (strip_newline p1) ''</parameter>'' of
                      None \<Rightarrow> Inl (Missing_Parameter_End key)
                    | Some (raw, after) \<Rightarrow>
                        if map_of arguments key \<noteq> None then Inl (Duplicate_Parameter key)
                        else
                          parse_parameters from_str t after
                            (arguments @
                               [(key, convert from_str (chomp_newline raw) (tool_parameter t key))]))))"
  by pat_completeness auto
termination
proof (relation "measure (\<lambda>(f, t, rest, a). length rest)")
  fix from_str :: "string \<Rightarrow> json option" and t :: "tool option" and rest0 rest p key p1 raw after :: string
    and arguments :: "(string \<times> json) list" and x y
  assume rest: "rest = trim_start rest0" and p: "strip_prefix rest ''<parameter='' = Some p"
    and k: "split_once p ''>'' = Some x" "(key, p1) = x"
    and r: "split_once (strip_newline p1) ''</parameter>'' = Some y" "(raw, after) = y"
  have "length after < length (strip_newline p1)"
    using split_once_length [of "strip_newline p1" "''</parameter>''" raw after] r by simp
  also have "\<dots> \<le> length p1" by (rule strip_newline_length)
  also have "\<dots> < length p" using split_once_length [of p "''>''" key p1] k by simp
  also have "\<dots> \<le> length rest" using strip_prefix_length [OF p] by simp
  also have "\<dots> \<le> length rest0" unfolding rest by (rule trim_start_length)
  finally show "((from_str, t, after, arguments @
      [(key, convert from_str (chomp_newline raw) (tool_parameter t key))]), from_str, t, rest0, arguments)
      \<in> measure (\<lambda>(f, t, rest, a). length rest)" by simp
qed simp

declare parse_parameters.simps [simp del]

definition parse_call ::
  "(string \<Rightarrow> json option) \<Rightarrow> tool_set \<Rightarrow> string \<Rightarrow> string \<Rightarrow> call_error + tool_call" where
  "parse_call from_str tools call_id block =
     (case strip_prefix (trim block) ''<function='' of
        None \<Rightarrow> Inl Expected_Function
      | Some body0 \<Rightarrow>
          (case split_once body0 ''>'' of
             None \<Rightarrow> Inl Unterminated_Function
           | Some (name, body) \<Rightarrow>
               (case strip_suffix (trim_end body) ''</function>'' of
                  None \<Rightarrow> Inl Missing_Function_End
                | Some rest \<Rightarrow>
                    if \<not> check_tool_name name then Inl (Call_Tool_Name name)
                    else
                      sbind (parse_parameters from_str (get_tool tools name) rest [])
                        (\<lambda>arguments.
                           case Option.bind (strict_tool_of tools name)
                                  (\<lambda>t. validate_arguments t (JObj arguments)) of
                             Some e \<Rightarrow> Inl (Arguments_Refused e)
                           | None \<Rightarrow>
                               Inr \<lparr>tc_id = call_id, tc_name = name, tc_arguments = JObj arguments\<rparr>))))"

function parse_strict_parameters ::
  "(string \<Rightarrow> json option) \<Rightarrow> strict_tool \<Rightarrow> string \<Rightarrow> (string \<times> json) list
   \<Rightarrow> call_error + (string \<times> json) list" where
  "parse_strict_parameters from_str st rest arguments =
     (if rest = [] then Inr arguments
      else
        case strip_prefix rest PARAMETER_OPEN of
          None \<Rightarrow> Inl Expected_Parameter
        | Some p \<Rightarrow>
            (case split_once p (''>'' @ newline) of
               None \<Rightarrow> Inl Unterminated_Parameter
             | Some (key, p1) \<Rightarrow>
                 (case strict_lookup st key of
                    None \<Rightarrow> Inl (Unknown_Parameter key)
                  | Some declared \<Rightarrow>
                      (case split_once p1 PARAMETER_CLOSE of
                         None \<Rightarrow> Inl (Missing_Parameter_End key)
                       | Some (raw, after) \<Rightarrow>
                           if map_of arguments key \<noteq> None then Inl (Duplicate_Parameter key)
                           else
                             (case stp_value declared of
                                Kind_Raw _ \<Rightarrow>
                                  parse_strict_parameters from_str st after
                                    (arguments @ [(key, JStr raw)])
                              | Kind_Json _ \<Rightarrow>
                                  (case from_str raw of
                                     None \<Rightarrow> Inl (Not_Json key)
                                   | Some value \<Rightarrow>
                                       parse_strict_parameters from_str st after
                                         (arguments @ [(key, value)])))))))"
  by pat_completeness auto
termination
  by (relation "measure (\<lambda>(f, t, rest, a). length rest)")
    (auto dest!: split_once_length strip_prefix_length simp: PARAMETER_CLOSE_def PARAMETER_OPEN_def)

declare parse_strict_parameters.simps [simp del]

definition parse_strict ::
  "(string \<Rightarrow> json option) \<Rightarrow> string \<Rightarrow> string \<Rightarrow> tool \<Rightarrow> call_error + tool_call" where
  "parse_strict from_str call_id block t =
     (let name = td_name (tl_definition t) in
      case tl_strict t of
        Some (Inr st) \<Rightarrow>
          (case Option.bind (Option.bind (strip_prefix block FUNCTION_OPEN)
                  (\<lambda>rest. strip_prefix rest name)) (\<lambda>rest. strip_prefix rest ''>'') of
             None \<Rightarrow> Inl Expected_Function
           | Some rest \<Rightarrow>
               sbind (parse_strict_parameters from_str st rest [])
                 (\<lambda>arguments.
                    case validate_arguments t (JObj arguments) of
                      Some e \<Rightarrow> Inl (Arguments_Refused e)
                    | None \<Rightarrow>
                        Inr \<lparr>tc_id = call_id, tc_name = name, tc_arguments = JObj arguments\<rparr>))
      | _ \<Rightarrow> Inl No_Enforced_Layout)"

section \<open>Results follow their calls\<close>

text \<open>Each turn is followed by one result per call it makes, in the order of its calls.\<close>

function paired :: "turn list \<Rightarrow> bool" where
  "paired [] = True"
| "paired (t # ts) \<longleftrightarrow>
     \<not> is_tool t \<and> map tn_call_id (takeWhile is_tool ts) = map (\<lambda>c. Some (tc_id c)) (tn_calls t) \<and>
     paired (dropWhile is_tool ts)"
  by pat_completeness auto
termination by (relation "measure length") (auto simp: less_Suc_eq_le length_dropWhile_le)

abbreviation call_ids :: "tool_call list \<Rightarrow> string list" where
  "call_ids calls \<equiv> map tc_id calls"

lemma validate_calls_ok:
  "validate_calls tools calls (seen, pending) = Inr (seen', pending') \<Longrightarrow>
     pending' = pending @ call_ids calls \<and> distinct (call_ids calls) \<and>
     set (call_ids calls) \<inter> set seen = {}"
proof (induction calls arbitrary: seen pending)
  case (Cons call calls)
  have step: "validate_calls tools calls (tc_id call # seen, pending @ [tc_id call]) = Inr (seen', pending')"
    and new: "tc_id call \<notin> set seen"
    using Cons(2) by (auto simp: split: if_splits json.splits option.splits)
  show ?case using Cons(1) [OF step] new by auto
qed simp

lemma validate_results:
  assumes "validate_turns tools (rs @ rest) (seen, pending) = Inr (seen', [])"
    and "list_all is_tool rs" "rest = [] \<or> \<not> is_tool (hd rest)"
  shows "mset (map tn_call_id rs) = mset (map Some pending) \<and>
         validate_turns tools rest (seen, []) = Inr (seen', [])"
  using assms(1,2)
proof (induction rs arbitrary: pending)
  case Nil
  show ?case
  proof (cases rest)
    case (Cons t ts)
    then have "pending = []"
      using Nil(1) assms(3) by (auto simp: validate_turn_def split: if_splits)
    then show ?thesis using Nil by simp
  qed (use Nil in simp)
next
  case (Cons r rs)
  obtain i at where i: "tn_call_id r = Some i" "position (\<lambda>p. p = i) pending = Some at"
    and step: "validate_turns tools (rs @ rest) (seen, vec_remove at pending) = Inr (seen', [])"
    using Cons(2,3) by (auto simp: validate_turn_def split: if_splits option.splits)
  have "mset pending = add_mset i (mset (vec_remove at pending))"
    using i(2) mset_vec_remove [of at pending] by (simp add: position_Some)
  then show ?case using Cons(1) [OF step] Cons(3) i(1) by simp
qed

lemma filter_one:
  assumes "distinct (map f xs)" "x \<in> set xs"
  shows "filter (\<lambda>y. f y = f x) xs = [x]"
  using assms
proof (induction xs)
  case (Cons a xs)
  then show ?case
    by (cases "a = x") (auto simp: filter_empty_conv image_iff dest: sym)
qed simp

lemma pick_results_ok:
  assumes "distinct (map tn_call_id results)"
    and "set (map (\<lambda>c. Some (tc_id c)) calls) \<subseteq> set (map tn_call_id results)"
  shows "\<exists>picked. pick_results results calls = Inr picked \<and> set picked \<subseteq> set results \<and>
           map tn_call_id picked = map (\<lambda>c. Some (tc_id c)) calls"
  using assms(2)
proof (induction calls)
  case (Cons call calls)
  then obtain r where r: "r \<in> set results" "tn_call_id r = Some (tc_id call)" by auto
  then have "filter (\<lambda>x. tn_call_id x = Some (tc_id call)) results = [r]"
    using filter_one [OF assms(1) r(1)] by simp
  then show ?case using Cons r by auto
qed simp

text \<open>Results that answer the calls one to one are put into the order of the calls.\<close>

lemma pick_results_permutes:
  assumes "mset (map tn_call_id results) = mset (map (\<lambda>c. Some (tc_id c)) calls)"
    and "distinct (call_ids calls)"
  shows "\<exists>picked. pick_results results calls = Inr picked \<and> mset picked = mset results \<and>
           map tn_call_id picked = map (\<lambda>c. Some (tc_id c)) calls"
proof -
  have ids: "distinct (map (\<lambda>c. Some (tc_id c)) calls)" using assms(2) by (simp add: distinct_map inj_on_def)
  then have d: "distinct (map tn_call_id results)"
    using assms(1) mset_eq_imp_distinct_iff by blast
  have "set (map (\<lambda>c. Some (tc_id c)) calls) = set (map tn_call_id results)"
    using assms(1) mset_eq_setD by metis
  then obtain picked where p: "pick_results results calls = Inr picked" "set picked \<subseteq> set results"
    "map tn_call_id picked = map (\<lambda>c. Some (tc_id c)) calls"
    using pick_results_ok [OF d, of calls] by auto
  have dp: "distinct picked" using p(3) ids distinct_map by metis
  have "length picked = length results"
    using p(3) assms(1) by (metis length_map size_mset)
  then have "set picked = set results"
    using p(2) dp d by (metis card_subset_eq distinct_card distinct_map finite_set)
  then show ?thesis using p dp d by (metis distinct_map set_eq_iff_mset_eq_distinct)
qed

lemma order_from_calls: "turns = [] \<or> \<not> is_tool (hd turns) \<Longrightarrow> order_from calls turns = order_from calls' turns"
  by (cases turns) simp_all

lemma run_split:
  "list_all is_tool (takeWhile is_tool ts)"
  "dropWhile is_tool ts = [] \<or> \<not> is_tool (hd (dropWhile is_tool ts))"
  using hd_dropWhile [of is_tool ts] by (auto simp: list_all_iff dest: set_takeWhileD)

lemma validate_turn_calls:
  assumes "validate_turn tools t (seen, []) = Inr (seen', pending)"
  shows "\<not> is_tool t" "pending = call_ids (tn_calls t)" "distinct (call_ids (tn_calls t))"
  using assms validate_calls_ok [of tools "tn_calls t" seen "[]" seen' pending]
  by (auto simp: validate_turn_def split: if_splits option.splits)

lemma order_from_run:
  assumes "\<not> is_tool t" "takeWhile is_tool ts = rs" "dropWhile is_tool ts = rest"
    and "pick_results rs (tn_calls t) = Inr picked" "length picked = length rs"
    and "length (tn_calls t) = length rs" "order_from [] rest = Inr ordered"
  shows "order_from calls (t # ts) = Inr (t # picked @ ordered)"
proof -
  have rest: "order_from c rest = Inr ordered" for c
    using order_from_calls [of rest c "[]"] run_split(2) [of ts] assms(3,7) by simp
  have "order_from (tn_calls t) ts = Inr (picked @ ordered)"
  proof (cases rs)
    case Nil
    then have "ts = rest" using assms(2,3) takeWhile_dropWhile_id [of is_tool ts] by simp
    then show ?thesis using rest Nil assms(5) by simp
  next
    case (Cons r rs')
    then obtain ts' where ts: "ts = r # ts'" "is_tool r"
      using assms(2) by (cases ts) (auto split: if_splits)
    show ?thesis using assms(2-6) rest ts Cons by simp
  qed
  then show ?thesis using assms(1) by simp
qed

lemma order_validated:
  "validate_turns tools turns (seen, []) = Inr (seen', []) \<Longrightarrow>
     \<exists>ordered. order_from calls turns = Inr ordered \<and> paired ordered \<and> mset ordered = mset turns \<and>
       filter (\<lambda>t. \<not> is_tool t) ordered = filter (\<lambda>t. \<not> is_tool t) turns"
proof (induction turns arbitrary: seen calls rule: measure_induct_rule [of length])
  case (less turns)
  show ?case
  proof (cases turns)
    case (Cons t ts)
    let ?rs = "takeWhile is_tool ts" and ?rest = "dropWhile is_tool ts"
    obtain seen1 pending where t: "validate_turn tools t (seen, []) = Inr (seen1, pending)"
      and ts: "validate_turns tools (?rs @ ?rest) (seen1, pending) = Inr (seen', [])"
      using less(2) Cons by auto
    note c = validate_turn_calls [OF t]
    note r = validate_results [OF ts run_split]
    obtain ordered where o: "order_from [] ?rest = Inr ordered" "paired ordered"
      "mset ordered = mset ?rest" "filter (\<lambda>t. \<not> is_tool t) ordered = filter (\<lambda>t. \<not> is_tool t) ?rest"
      using less(1) [of ?rest seen1 "[]"] r Cons by (auto simp: less_Suc_eq_le length_dropWhile_le)
    obtain picked where p: "pick_results ?rs (tn_calls t) = Inr picked" "mset picked = mset ?rs"
      "map tn_call_id picked = map (\<lambda>c. Some (tc_id c)) (tn_calls t)"
      using pick_results_permutes [of ?rs "tn_calls t"] r c by (auto simp: comp_def)
    have len: "length picked = length ?rs" by (rule mset_eq_length [OF p(2)])
    then have len': "length (tn_calls t) = length ?rs" using arg_cong [OF p(3), of length] by simp
    have tools: "\<forall>x\<in>set picked. is_tool x"
      using mset_eq_setD [OF p(2)] run_split(1) [of ts] by (simp add: list_all_iff)
    have ho: "takeWhile is_tool ordered = []" "dropWhile is_tool ordered = ordered"
      using o(2) by (cases ordered; simp)+
    have "order_from calls turns = Inr (t # picked @ ordered)"
      unfolding Cons by (rule order_from_run [OF c(1) refl refl p(1) len len' o(1)])
    moreover have "paired (t # picked @ ordered)"
      using c(1) p(3) tools ho o(2) by (simp add: takeWhile_append2 dropWhile_append2)
    moreover have "mset (t # picked @ ordered) = mset turns"
    proof -
      have "mset ts = mset ?rs + mset ?rest" by (metis mset_append takeWhile_dropWhile_id)
      then show ?thesis using Cons p(2) o(3) by simp
    qed
    moreover have "filter (\<lambda>t. \<not> is_tool t) (t # picked @ ordered) = filter (\<lambda>t. \<not> is_tool t) turns"
    proof -
      have "filter (\<lambda>t. \<not> is_tool t) picked = []" "filter (\<lambda>t. \<not> is_tool t) ?rs = []"
        using tools run_split(1) [of ts] by (auto simp: filter_empty_conv list_all_iff)
      moreover have "filter (\<lambda>t. \<not> is_tool t) ts =
          filter (\<lambda>t. \<not> is_tool t) ?rs @ filter (\<lambda>t. \<not> is_tool t) ?rest"
        unfolding filter_append [symmetric] takeWhile_dropWhile_id ..
      ultimately show ?thesis using Cons c(1) o(4) by simp
    qed
    ultimately show ?thesis by blast
  qed simp
qed

text \<open>
  C12. A history the checks accept is put in order: the results of every assistant turn follow it, one
  for each of its calls and in the order of its calls, whatever order they were replayed in; no turn
  is lost or added and the turns other than results keep their order.
\<close>

theorem results_follow_calls:
  assumes "validate_history turns tools = Inr ()"
  shows "\<exists>ordered. order_results turns = Inr ordered \<and> paired ordered \<and> mset ordered = mset turns \<and>
           filter (\<lambda>t. \<not> is_tool t) ordered = filter (\<lambda>t. \<not> is_tool t) turns"
proof -
  obtain seen where "validate_turns tools turns ([], []) = Inr (seen, [])"
    using assms by (auto simp: validate_history_def split: prod.splits if_splits)
  then show ?thesis unfolding order_results_def by (rule order_validated)
qed

definition sample_turn :: "string \<Rightarrow> string \<Rightarrow> tool_call list \<Rightarrow> string option \<Rightarrow> turn" where
  "sample_turn role content calls call_id =
     \<lparr>tn_role = role, tn_content = content, tn_reasoning = None, tn_calls = calls, tn_call_id = call_id\<rparr>"

definition sample_call :: "string \<Rightarrow> string \<Rightarrow> (string \<times> json) list \<Rightarrow> tool_call" where
  "sample_call call_id name members = \<lparr>tc_id = call_id, tc_name = name, tc_arguments = JObj members\<rparr>"

text \<open>Two calls answered in the wrong order.\<close>

definition sample_history :: "turn list" where
  "sample_history =
     [sample_turn ''user'' ''hi'' [] None,
      sample_turn ''assistant'' [] [sample_call ''a'' ''ls'' [], sample_call ''b'' ''cat'' []] None,
      sample_turn ''tool'' ''second'' [] (Some ''b''),
      sample_turn ''tool'' ''first'' [] (Some ''a'')]"

theorem results_follow_calls_witness:
  "validate_history sample_history [] = Inr () \<and>
   map_sum id (map tn_content) (order_results sample_history) = Inr [''hi'', '''', ''first'', ''second'']  \<and>
   (\<exists>ordered. order_results sample_history = Inr ordered \<and> paired ordered \<and>
      mset ordered = mset sample_history \<and>
      filter (\<lambda>t. \<not> is_tool t) ordered = filter (\<lambda>t. \<not> is_tool t) sample_history)"
proof -
  have v: "validate_history sample_history [] = Inr ()" by code_simp
  moreover have "map_sum id (map tn_content) (order_results sample_history) =
      Inr [''hi'', '''', ''first'', ''second'']" by code_simp
  ultimately show ?thesis using results_follow_calls [OF v] by blast
qed

end
