(* ===== verification/Tool_Stream.thy ===== *)
theory Tool_Stream
  imports Tool_Calls
begin

text \<open>
  The streaming parser of the visible answer when tools are configured (\<open>local-engine/src/tools.rs\<close>,
  \<open>ToolCallParser\<close>): text passes through as it arrives, less the markup of calls and the white
  space around them; the arguments of an open call are reported piece by piece as they become
  certain; at the end of a call it is read whole.  The consumer is a function of its own state that
  says whether it breaks off (\<open>ControlFlow::Break\<close>).  The process-wide counter of call ids is the
  field \<open>tp_next\<close> of the parser, which no other parser of the model draws from.
\<close>

section \<open>Events\<close>

datatype stop_reason = Eos | TokenLimit | Cancelled | Stopped

text \<open>\<open>Stats\<close> without the cache tier and the measurements, which are only passed on.\<close>

record stats =
  stats_stop_reason :: stop_reason
  stats_reasoning_tokens :: nat

record tool_call_delta =
  dl_id :: string
  dl_name :: string
  dl_arguments :: string
  dl_text :: "(string \<times> string) option"

record tool_output =
  to_call_id :: string
  to_name :: string
  to_content :: string
  to_detail :: json

datatype 'l event =
    Content string
  | Reasoning string
  | ToolCallDelta tool_call_delta
  | ToolCall tool_call
  | ToolOutput tool_output
  | Logprobs "'l list"
  | TokenIds "u32 list"
  | Finished stats
  | EventError string

type_synonym ('l, 's) callback = "'l event \<Rightarrow> nat \<Rightarrow> 's \<Rightarrow> bool \<times> 's"

section \<open>The parser's state\<close>

datatype call_failure = Invalid_Call call_error | Call_Unfinished

record streamed =
  sm_id :: string
  sm_name :: string
  sm_piece :: nat
  sm_json :: nat
  sm_text :: nat

record piece =
  pc_json :: string
  pc_text :: "(string \<times> string) option"

record tool_parser =
  tp_tools :: tool_set
  tp_pending :: string
  tp_in_call :: bool
  tp_after_call :: bool
  tp_failure :: "call_failure option"
  tp_streamed :: "streamed option"
  tp_consumed :: nat
  tp_next :: nat

text \<open>What the parser calls of \<open>serde_json\<close>, and the call ids by their place in the counter.\<close>

record tool_env =
  te_from_str :: "string \<Rightarrow> json option"
  te_to_string :: "json \<Rightarrow> string"
  te_call_id :: "nat \<Rightarrow> string"

text \<open>\<open>next_call_id\<close>: the process's random prefix and the counter, in lower-case hexadecimal.\<close>

definition hex_lower :: "nat \<Rightarrow> char" where
  "hex_lower n = ''0123456789abcdef'' ! n"

fun hex_number :: "nat \<Rightarrow> string" where
  "hex_number n = (if n < 16 then [hex_lower n] else hex_number (n div 16) @ [hex_lower (n mod 16)])"

declare hex_number.simps [simp del]

definition hex_padded :: "nat \<Rightarrow> nat \<Rightarrow> string" where
  "hex_padded width n = replicate (width - length (hex_number n)) (CHR ''0'') @ hex_number n"

definition next_call_id :: "nat \<Rightarrow> nat \<Rightarrow> string" where
  "next_call_id process counter = ''call_'' @ hex_padded 16 process @ hex_padded 8 counter"

definition parser_new :: "tool_set \<Rightarrow> nat \<Rightarrow> tool_parser" where
  "parser_new tools counter =
     \<lparr>tp_tools = tools, tp_pending = [], tp_in_call = False, tp_after_call = False, tp_failure = None,
      tp_streamed = None, tp_consumed = 0, tp_next = counter\<rparr>"

definition take_failure :: "tool_parser \<Rightarrow> call_failure option \<times> tool_parser" where
  "take_failure p = (tp_failure p, p\<lparr>tp_failure := None\<rparr>)"

section \<open>Text\<close>

definition emit_text ::
  "('l, 's) callback \<Rightarrow> tool_parser \<Rightarrow> string \<Rightarrow> nat \<Rightarrow> 's \<Rightarrow> bool \<times> tool_parser \<times> 's" where
  "emit_text callback p t offset s =
     (let trimmed = (if tp_after_call p then trim_start t else t) in
      if trimmed = [] then (False, p, s)
      else
        (case callback (Content trimmed) (offset + length t - length trimmed) s of
           (flow, s1) \<Rightarrow> (flow, p\<lparr>tp_after_call := False\<rparr>, s1)))"

text \<open>The longest end of the text, shorter than the tag, that begins the tag.\<close>

definition partial_tag :: "string \<Rightarrow> string \<Rightarrow> nat option" where
  "partial_tag tag t = List.find (\<lambda>n. ends_with t (take n tag)) (rev [1..<length tag])"

definition held_suffix :: "string \<Rightarrow> nat" where
  "held_suffix t =
     (let partial = (case partial_tag CALL_START t of Some n \<Rightarrow> n | None \<Rightarrow> 0);
          head = take (length t - partial) t
      in partial + length head - length (trim_end head))"

section \<open>The end of a call\<close>

definition call_end :: "string \<Rightarrow> tool_set \<Rightarrow> (nat \<times> string \<times> tool option) option" where
  "call_end pending tools =
     (let legacy = map_option (\<lambda>e. (e, CALL_END, None)) (str_find CALL_END pending) in
      if \<not> any_strict tools then legacy
      else
        case Option.bind (strip_prefix pending FUNCTION_OPEN) (\<lambda>rest. split_once rest ''>'') of
          None \<Rightarrow> legacy
        | Some (name, _) \<Rightarrow>
            (case strict_tool_of tools name of
               Some t \<Rightarrow>
                 map_option (\<lambda>e. (e, STRICT_CALL_END, Some t)) (str_find STRICT_CALL_END pending)
             | None \<Rightarrow> legacy))"

section \<open>The certain pieces of an open call\<close>

definition streams_text :: "tool \<Rightarrow> string \<Rightarrow> bool option" where
  "streams_text t key =
     (case tl_strict t of
        Some (Inr st) \<Rightarrow>
          map_option (\<lambda>p. case stp_value p of Kind_Raw _ \<Rightarrow> True | Kind_Json _ \<Rightarrow> False)
            (strict_lookup st key)
      | Some (Inl _) \<Rightarrow> None
      | None \<Rightarrow>
          Some (case schema_parameter (tl_schema t) key of
                  Some p \<Rightarrow> pm_any_string p | None \<Rightarrow> False))"

definition finished_value ::
  "(string \<Rightarrow> json option) \<Rightarrow> tool \<Rightarrow> string \<Rightarrow> string \<Rightarrow> json option" where
  "finished_value from_str t key raw =
     (case tl_strict t of
        Some (Inr st) \<Rightarrow>
          (case strict_lookup st key of
             None \<Rightarrow> None
           | Some p \<Rightarrow>
               (case stp_value p of Kind_Raw _ \<Rightarrow> Some (JStr raw) | Kind_Json _ \<Rightarrow> from_str raw))
      | Some (Inl _) \<Rightarrow> None
      | None \<Rightarrow> Some (convert from_str raw (schema_parameter (tl_schema t) key)))"

definition held_close :: "string \<Rightarrow> nat" where
  "held_close t =
     foldr max (List.map_filter (\<lambda>tag. partial_tag tag t) [PARAMETER_CLOSE, ''</parameter>'']) 0"

definition str_get_from :: "string \<Rightarrow> nat \<Rightarrow> string" where
  "str_get_from s i = (if i \<le> length s \<and> is_char_boundary s i then drop i s else [])"

definition str_get_to :: "string \<Rightarrow> nat \<Rightarrow> string" where
  "str_get_to s i = (if i \<le> length s \<and> is_char_boundary s i then take i s else [])"

definition open_quoted :: "(json \<Rightarrow> string) \<Rightarrow> string \<Rightarrow> string" where
  "open_quoted to_string t =
     (case strip_suffix (to_string (JStr t)) [CHR 0x22] of Some q \<Rightarrow> q | None \<Rightarrow> [])"

function pieces_from ::
  "tool_env \<Rightarrow> tool \<Rightarrow> string \<Rightarrow> string list \<Rightarrow> piece list \<Rightarrow> piece list" where
  "pieces_from env t rest0 seen pieces =
     (case Option.bind (strip_prefix (trim_start rest0) ''<parameter='') (\<lambda>after. split_once after ''>'') of
        None \<Rightarrow> pieces
      | Some (key, after) \<Rightarrow>
          (case streams_text t key of
             None \<Rightarrow> pieces
           | Some text_mode \<Rightarrow>
               if \<not> (check_parameter_name key \<and> \<not> List.member seen key) then pieces
               else
                 let json = (if length pieces > 1 then '','' else []) @
                            te_to_string env (JStr key) @ '':'' in
                 if after = [] then pieces @ [\<lparr>pc_json = json, pc_text = None\<rparr>]
                 else
                   let value = strip_newline after in
                   (case split_once value ''</parameter>'' of
                      Some (raw0, next) \<Rightarrow>
                        let raw = chomp_newline raw0 in
                        (case finished_value (te_from_str env) t key raw of
                           None \<Rightarrow> pieces
                         | Some converted \<Rightarrow>
                             pieces_from env t next (key # seen)
                               (pieces @ [\<lparr>pc_json = json @ te_to_string env converted,
                                          pc_text = (if text_mode then Some (key, raw) else None)\<rparr>]))
                    | None \<Rightarrow>
                        if text_mode then
                          let certain = str_get_to value (length value - held_close value) in
                          pieces @ [\<lparr>pc_json = json @ open_quoted (te_to_string env) certain,
                                     pc_text = Some (key, certain)\<rparr>]
                        else pieces @ [\<lparr>pc_json = json, pc_text = None\<rparr>])))"
  by pat_completeness auto
termination
proof (relation "measure (\<lambda>(env, t, rest, seen, pieces). length rest)")
  fix env :: tool_env and t :: tool and rest0 key after val raw0 raw following json :: string
    and seen :: "string list" and pieces :: "piece list" and x y text_mode converted
  assume k: "Option.bind (strip_prefix (trim_start rest0) ''<parameter='') (\<lambda>after. split_once after ''>'') = Some x"
      "(key, after) = x"
    and v: "val = strip_newline after" "split_once val ''</parameter>'' = Some y" "(raw0, following) = y"
  obtain q where q: "strip_prefix (trim_start rest0) ''<parameter='' = Some q" "split_once q ''>'' = Some (key, after)"
    using k by (auto simp: bind_eq_Some_conv)
  have "length following < length val" using split_once_length [of val "''</parameter>''" raw0 following] v by simp
  also have "\<dots> \<le> length after" unfolding v(1) by (rule strip_newline_length)
  also have "\<dots> < length q" using split_once_length [OF q(2)] by simp
  also have "\<dots> \<le> length (trim_start rest0)" using strip_prefix_length [OF q(1)] by simp
  also have "\<dots> \<le> length rest0" by (rule trim_start_length)
  finally show "((env, t, following, key # seen, pieces @ [\<lparr>pc_json = json @ te_to_string env converted,
      pc_text = if text_mode then Some (key, raw) else None\<rparr>]), env, t, rest0, seen, pieces)
      \<in> measure (\<lambda>(env, t, rest, seen, pieces). length rest)" by simp
qed simp

declare pieces_from.simps [simp del]

definition call_pieces :: "tool_env \<Rightarrow> tool_set \<Rightarrow> string \<Rightarrow> (string \<times> piece list) option" where
  "call_pieces env tools block =
     (case Option.bind (strip_prefix (trim_start block) ''<function='') (\<lambda>b. split_once b ''>'') of
        None \<Rightarrow> None
      | Some (name, rest) \<Rightarrow>
          (case get_tool tools name of
             None \<Rightarrow> None
           | Some t \<Rightarrow>
               Some (name, pieces_from env t rest [] [\<lparr>pc_json = ''{'', pc_text = None\<rparr>])))"

fun stream_pieces ::
  "('l, 's) callback \<Rightarrow> nat \<Rightarrow> nat \<Rightarrow> nat \<Rightarrow> piece list \<Rightarrow> streamed \<Rightarrow> 's
   \<Rightarrow> bool \<times> streamed \<times> 's" where
  "stream_pieces callback consumed final index [] sm s = (False, sm, s)"
| "stream_pieces callback consumed final index (piece # rest) sm s =
     (let arguments = str_get_from (pc_json piece) (sm_json sm);
          t = map_option (\<lambda>(key, raw). (key, str_get_from raw (sm_text sm))) (pc_text piece);
          delta = \<lparr>dl_id = sm_id sm, dl_name = sm_name sm, dl_arguments = arguments, dl_text = t\<rparr>;
          sm1 = (if index < final then sm\<lparr>sm_piece := Suc index, sm_json := 0, sm_text := 0\<rparr>
                 else sm\<lparr>sm_json := length (pc_json piece),
                         sm_text := (case pc_text piece of Some (_, raw) \<Rightarrow> length raw | None \<Rightarrow> 0)\<rparr>)
      in if arguments \<noteq> [] then
           (case callback (ToolCallDelta delta) consumed s of
              (True, s1) \<Rightarrow> (True, sm1, s1)
            | (False, s1) \<Rightarrow> stream_pieces callback consumed final (Suc index) rest sm1 s1)
         else stream_pieces callback consumed final (Suc index) rest sm1 s)"

definition stream ::
  "tool_env \<Rightarrow> ('l, 's) callback \<Rightarrow> tool_parser \<Rightarrow> 's \<Rightarrow> bool \<times> tool_parser \<times> 's" where
  "stream env callback p s =
     (case call_pieces env (tp_tools p) (tp_pending p) of
        None \<Rightarrow> (False, p, s)
      | Some (name, pieces) \<Rightarrow>
          let (sm, next) = (case tp_streamed p of
                Some sm \<Rightarrow> (sm, tp_next p)
              | None \<Rightarrow> (\<lparr>sm_id = te_call_id env (tp_next p), sm_name = name, sm_piece = 0, sm_json = 0,
                          sm_text = 0\<rparr>, Suc (tp_next p)))
          in (case stream_pieces callback (tp_consumed p) (length pieces - 1) (sm_piece sm)
                     (drop (sm_piece sm) pieces) sm s of
                (flow, sm1, s1) \<Rightarrow> (flow, p\<lparr>tp_streamed := Some sm1, tp_next := next\<rparr>, s1)))"

section \<open>Feeding and finishing\<close>

lemma call_end_shrinks:
  "call_end pending tools = Some (e, marker, st) \<Longrightarrow>
     e + length marker \<le> length pending \<and> length pending - (e + length marker) < length pending"
  by (auto simp: call_end_def Let_def CALL_END_def STRICT_CALL_END_def dest!: str_find_length
      split: if_splits option.splits)

lemma emit_text_keeps:
  "emit_text callback p t offset s = (flow, p1, s1) \<Longrightarrow>
     tp_pending p1 = tp_pending p \<and> tp_in_call p1 = tp_in_call p \<and> tp_consumed p1 = tp_consumed p \<and>
     tp_tools p1 = tp_tools p \<and> tp_failure p1 = tp_failure p \<and> tp_streamed p1 = tp_streamed p \<and>
     tp_next p1 = tp_next p"
  by (auto simp: emit_text_def Let_def split: if_splits prod.splits)

function feed_loop ::
  "tool_env \<Rightarrow> ('l, 's) callback \<Rightarrow> tool_parser \<Rightarrow> 's \<Rightarrow> bool \<times> tool_parser \<times> 's" where
  "feed_loop env callback p s =
     (let pending = tp_pending p in
      if tp_in_call p then
        (case call_end pending (tp_tools p) of
           None \<Rightarrow> stream env callback p s
         | Some (e, marker, strict) \<Rightarrow>
             let block = take e pending;
                 parsed = (case strict of
                     None \<Rightarrow> parse_call (te_from_str env) (tp_tools p) (te_call_id env (tp_next p)) block
                   | Some t \<Rightarrow> parse_strict (te_from_str env) (te_call_id env (tp_next p)) block t);
                 p1 = p\<lparr>tp_pending := drop (e + length marker) pending,
                        tp_consumed := tp_consumed p + e + length marker,
                        tp_in_call := False, tp_after_call := True, tp_streamed := None\<rparr>
             in (case parsed of
                   Inl error \<Rightarrow> (True, p1\<lparr>tp_failure := Some (Invalid_Call error)\<rparr>, s)
                 | Inr call0 \<Rightarrow>
                     let call = (case tp_streamed p of
                                   Some sm \<Rightarrow> call0\<lparr>tc_id := sm_id sm\<rparr> | None \<Rightarrow> call0);
                         p2 = p1\<lparr>tp_next := Suc (tp_next p)\<rparr>
                     in (case callback (ToolCall call) (tp_consumed p2) s of
                           (True, s1) \<Rightarrow> (True, p2, s1)
                         | (False, s1) \<Rightarrow> feed_loop env callback p2 s1)))
      else
        (case str_find CALL_START pending of
           Some start \<Rightarrow>
             let p1 = p\<lparr>tp_pending := drop (start + length CALL_START) pending,
                        tp_consumed := tp_consumed p + start + length CALL_START, tp_in_call := True\<rparr>
             in (case emit_text callback p1 (trim_end (take start pending)) (tp_consumed p) s of
                   (True, p2, s1) \<Rightarrow> (True, p2, s1)
                 | (False, p2, s1) \<Rightarrow> feed_loop env callback p2 s1)
         | None \<Rightarrow>
             let split = length pending - held_suffix pending in
             if split = 0 then (False, p, s)
             else
               emit_text callback
                 (p\<lparr>tp_pending := drop split pending, tp_consumed := tp_consumed p + split\<rparr>)
                 (take split pending) (tp_consumed p) s))"
  by pat_completeness auto
termination
  by (relation "measure (\<lambda>(env, callback, p, s). length (tp_pending p))")
    (auto dest!: call_end_shrinks emit_text_keeps [OF sym] str_find_length simp: CALL_START_def)

declare feed_loop.simps [simp del]

definition feed ::
  "tool_env \<Rightarrow> ('l, 's) callback \<Rightarrow> tool_parser \<Rightarrow> string \<Rightarrow> 's \<Rightarrow> bool \<times> tool_parser \<times> 's" where
  "feed env callback p t s =
     (if tp_failure p \<noteq> None then (True, p, s)
      else feed_loop env callback (p\<lparr>tp_pending := tp_pending p @ t\<rparr>) s)"

definition parser_finish ::
  "('l, 's) callback \<Rightarrow> tool_parser \<Rightarrow> stop_reason \<Rightarrow> 's \<Rightarrow> bool \<times> tool_parser \<times> 's" where
  "parser_finish callback p reason s =
     (if tp_failure p \<noteq> None then (True, p, s)
      else if tp_in_call p then
        if reason = Eos then (True, p\<lparr>tp_failure := Some Call_Unfinished\<rparr>, s)
        else
          (False, p\<lparr>tp_consumed := tp_consumed p + length (tp_pending p), tp_pending := [],
                    tp_in_call := False, tp_streamed := None\<rparr>, s)
      else
        emit_text callback
          (p\<lparr>tp_pending := [], tp_consumed := tp_consumed p + length (tp_pending p)\<rparr>)
          (tp_pending p) (tp_consumed p) s)"

section \<open>Call ids\<close>

fun hex_code :: "char \<Rightarrow> nat" where
  "hex_code c = (let b = (of_char c :: nat) in if b < 0x3A then b - 0x30 else b - 0x57)"

definition hex_read :: "string \<Rightarrow> nat" where
  "hex_read s = foldl (\<lambda>n c. 16 * n + hex_code c) 0 s"

lemma hex_lower_value: "n < 16 \<Longrightarrow> hex_code (hex_lower n) = n"
proof -
  have "\<forall>n\<in>set [0..<16]. hex_code (hex_lower n) = n" by code_simp
  then show "n < 16 \<Longrightarrow> hex_code (hex_lower n) = n" by simp
qed

lemma hex_read_digits: "hex_read (hex_number n) = n"
proof (induction n rule: hex_number.induct)
  case (1 n)
  then show ?case
    by (subst hex_number.simps) (simp add: hex_read_def hex_lower_value del: hex_code.simps)
qed

lemma hex_read_padded: "hex_read (hex_padded w n) = n"
proof -
  have "foldl (\<lambda>n c. 16 * n + hex_code c) 0 (replicate k (CHR ''0'')) = 0" for k
    by (induction k) simp_all
  then show ?thesis using hex_read_digits [of n] by (simp add: hex_padded_def hex_read_def del: hex_code.simps)
qed

text \<open>The ids of one process are distinct.\<close>

lemma next_call_id_inj: "inj (next_call_id process)"
proof (rule injI)
  fix m n assume "next_call_id process m = next_call_id process n"
  then have "hex_padded 8 m = hex_padded 8 n" by (simp add: next_call_id_def)
  then show "m = n" by (metis hex_read_padded)
qed

section \<open>Reading the whole answer at once\<close>

datatype ending = Text_Ended | Call_Open | Call_Broken call_error

definition lead :: "bool \<Rightarrow> string \<Rightarrow> string" where
  "lead after t = (if after then trim_start t else t)"

definition parse_block ::
  "tool_env \<Rightarrow> tool_set \<Rightarrow> string \<Rightarrow> tool option \<Rightarrow> string \<Rightarrow> call_error + tool_call" where
  "parse_block env tools call_id strict block =
     (case strict of
        None \<Rightarrow> parse_call (te_from_str env) tools call_id block
      | Some t \<Rightarrow> parse_strict (te_from_str env) call_id block t)"

definition called :: "tool_call \<Rightarrow> string \<times> json" where
  "called c = (tc_name c, tc_arguments c)"

text \<open>The answer a text holds: its visible bytes and its calls in order, and how it ends.\<close>

function read_answer ::
  "tool_env \<Rightarrow> tool_set \<Rightarrow> bool \<Rightarrow> bool \<Rightarrow> string \<Rightarrow> (char + string \<times> json) list \<times> ending" where
  "read_answer env tools in_call after s =
     (if in_call then
        (case call_end s tools of
           None \<Rightarrow> ([], Call_Open)
         | Some (e, marker, strict) \<Rightarrow>
             (case parse_block env tools [] strict (take e s) of
                Inl error \<Rightarrow> ([], Call_Broken error)
              | Inr c \<Rightarrow>
                  apfst (Cons (Inr (called c)))
                    (read_answer env tools False True (drop (e + length marker) s))))
      else
        (case str_find CALL_START s of
           None \<Rightarrow> (map Inl (lead after s), Text_Ended)
         | Some i \<Rightarrow>
             apfst (append (map Inl (lead after (trim_end (take i s)))))
               (read_answer env tools True False (drop (i + length CALL_START) s))))"
  by pat_completeness auto
termination
  by (relation "measure (\<lambda>(env, tools, in_call, after, s). length s)")
    (auto dest!: call_end_shrinks str_find_length simp: CALL_START_def)

declare read_answer.simps [simp del]

section \<open>What a consumer reads\<close>

text \<open>A consumer that takes every event, with the offset that came with it.\<close>

definition collect :: "('l, ('l event \<times> nat) list) callback" where
  "collect e offset out = (False, out @ [(e, offset)])"

fun event_reads :: "'l event \<Rightarrow> (char + string \<times> json) list" where
  "event_reads (Content t) = map Inl t"
| "event_reads (ToolCall c) = [Inr (called c)]"
| "event_reads _ = []"

definition reads :: "('l event \<times> nat) list \<Rightarrow> (char + string \<times> json) list" where
  "reads out = concat (map (event_reads \<circ> fst) out)"

lemma reads_simps [simp]:
  "reads [] = []" "reads (a @ b) = reads a @ reads b" "reads ((e, n) # a) = event_reads e @ reads a"
  by (simp_all add: reads_def)

text \<open>Content stands in the text fed at the offset given with it.\<close>

definition located :: "string \<Rightarrow> ('l event \<times> nat) list \<Rightarrow> bool" where
  "located fed out \<longleftrightarrow>
     list_all (\<lambda>(e, offset). case e of Content t \<Rightarrow> prefix t (drop offset fed) | _ \<Rightarrow> True) out"

lemma located_simps [simp]:
  "located fed []" "located fed (a @ b) \<longleftrightarrow> located fed a \<and> located fed b"
  "located fed ((Content t, n) # a) \<longleftrightarrow> prefix t (drop n fed) \<and> located fed a"
  "located fed ((ToolCall c, n) # a) \<longleftrightarrow> located fed a"
  "located fed ((ToolCallDelta d, n) # a) \<longleftrightarrow> located fed a"
  by (simp_all add: located_def)

lemma located_append: "located fed out \<Longrightarrow> located (fed @ rest) out"
  by (auto simp: located_def list_all_iff split: event.splits)

section \<open>More text does not change what was read\<close>

lemma strip_prefix_append: "strip_prefix s p = Some r \<Longrightarrow> strip_prefix (s @ t) p = Some (r @ t)"
  using prefix_length_le [of p s] by (auto simp: strip_prefix_def split: if_splits)

lemma split_once_append: "split_once s d = Some (a, b) \<Longrightarrow> split_once (s @ t) d = Some (a, b @ t)"
proof -
  assume "split_once s d = Some (a, b)"
  then obtain i where "str_find d s = Some i" "a = take i s" "b = drop (i + length d) s"
    by (auto simp: split_once_def)
  then show ?thesis using str_find_length [of d s i] by (simp add: split_once_def str_find_append)
qed

lemma str_find_single: "str_find [c] s = None \<longleftrightarrow> c \<notin> set s"
proof
  assume n: "str_find [c] s = None"
  show "c \<notin> set s"
  proof
    assume "c \<in> set s"
    then obtain a b where "s = a @ c # b" by (meson split_list)
    then have "length a \<le> length s" "prefix [c] (drop (length a) s)" by simp_all
    then show False using n by (simp add: str_find_None)
  qed
next
  assume c: "c \<notin> set s"
  show "str_find [c] s = None"
    unfolding str_find_None
  proof (intro allI impI)
    fix j
    show "\<not> prefix [c] (drop j s)"
      using c in_set_dropD [of c j s] by (cases "drop j s") auto
  qed
qed

lemma CALL_END_drop: "drop 11 (CALL_END @ z) = CHR ''>'' # z"
  by (simp add: CALL_END_def)

lemma call_end_append:
  assumes "call_end s tools = Some x"
  shows "call_end (s @ t) tools = Some x"
proof (cases "any_strict tools")
  case False
  then show ?thesis using assms by (auto simp: call_end_def str_find_append)
next
  case True
  let ?h = "\<lambda>s. Option.bind (strip_prefix s FUNCTION_OPEN) (\<lambda>rest. split_once rest ''>'')"
  show ?thesis
  proof (cases "?h s")
    case (Some y)
    then obtain name b where h: "?h s = Some (name, b)" by (cases y) auto
    then have h': "?h (s @ t) = Some (name, b @ t)"
      by (auto simp: bind_eq_Some_conv strip_prefix_append split_once_append)
    show ?thesis using assms True h h'
      by (auto simp: call_end_def Let_def str_find_append split: option.splits)
  next
    case None
    then obtain e where e: "str_find CALL_END s = Some e" "x = (e, CALL_END, None)"
      using assms True by (auto simp: call_end_def)
    have l: "e + length CALL_END \<le> length s" "prefix CALL_END (drop e s)"
      using str_find_length [OF e(1)] e(1) by (simp_all add: str_find_Some)
    have "?h (s @ t) = None"
    proof (rule ccontr)
      assume "?h (s @ t) \<noteq> None"
      then have "prefix FUNCTION_OPEN (s @ t)" by (auto simp: strip_prefix_def split: if_splits)
      then have "prefix FUNCTION_OPEN (drop 0 s)"
        using l(1) prefix_drop_append [of FUNCTION_OPEN 0 s t] by (simp add: FUNCTION_OPEN_def CALL_END_def)
      then have s: "strip_prefix s FUNCTION_OPEN = Some (drop 11 s)"
        by (simp add: strip_prefix_def FUNCTION_OPEN_def numeral_eq_Suc)
      obtain z where "drop e s = CALL_END @ z" using l(2) by (auto simp: prefix_def)
      then have "drop (e + 11) s = CHR ''>'' # z" by (metis CALL_END_drop add.commute drop_drop)
      then have "CHR ''>'' \<in> set (drop 11 s)"
        using set_drop_subset_set_drop [of 11 "e + 11" s] by (metis le_add2 list.set_intros(1) subsetD)
      then show False using None s by (simp add: split_once_def str_find_single)
    qed
    then show ?thesis using True e by (simp add: call_end_def str_find_append)
  qed
qed

section \<open>Held-back text\<close>

text \<open>What is held back begins no earlier than the first place where a tag may still open, and the
  text before it does not end with white space.\<close>

lemma find_None_iff: "List.find P xs = None \<longleftrightarrow> (\<forall>x\<in>set xs. \<not> P x)"
  by (induction xs) auto

lemma find_rev_upt:
  assumes "List.find P (rev [1..<n]) = Some i"
  shows "P i \<and> 1 \<le> i \<and> i < n \<and> (\<forall>j. i < j \<and> j < n \<longrightarrow> \<not> P j)"
  using assms
proof (induction n)
  case (Suc n)
  show ?case
  proof (cases "1 \<le> n \<and> P n")
    case True
    then show ?thesis using Suc(2) by auto
  next
    case False
    then show ?thesis using Suc by (cases "1 \<le> n") (auto simp: less_Suc_eq)
  qed
qed simp

lemma partial_tag_longest:
  assumes "partial_tag tag t = x" "0 < n" "n < length tag" "suffix (take n tag) t"
  shows "\<exists>m. x = Some m \<and> n \<le> m"
proof (cases x)
  case None
  then show ?thesis using assms by (auto simp: partial_tag_def find_None_iff ends_with_def)
next
  case (Some m)
  then have "\<forall>j. m < j \<and> j < length tag \<longrightarrow> \<not> ends_with t (take j tag)"
    using assms(1) find_rev_upt [of _ "length tag" m] unfolding partial_tag_def by blast
  then show ?thesis using Some assms(3,4) by (auto simp: ends_with_def not_less [symmetric])
qed

lemma partial_tag_Some:
  "partial_tag tag t = Some m \<Longrightarrow> suffix (take m tag) t \<and> 0 < m \<and> m < length tag"
  using find_rev_upt [of _ "length tag" m] unfolding partial_tag_def ends_with_def by fastforce

text \<open>A tag that opens before the held-back part would have been seen.\<close>

lemma no_early_tag:
  assumes "str_find tag s = None" "tag \<noteq> []"
    and "h = (case partial_tag tag s of Some n \<Rightarrow> n | None \<Rightarrow> 0)" "j < length s - h"
  shows "\<not> prefix tag (drop j (s @ r))"
proof
  assume p: "prefix tag (drop j (s @ r))"
  have n: "\<not> prefix tag (drop j s)" using assms(1,4) by (simp add: str_find_None)
  then obtain u where u: "tag = drop j s @ u" "u \<noteq> []"
    using p assms(4) by (auto simp: prefix_append)
  let ?n = "length s - j"
  have "suffix (take ?n tag) s" using u(1) assms(4) by (simp add: suffix_drop)
  moreover have "0 < ?n" "?n < length tag" using u(2) assms(4) length_greater_0_conv [of u] by (simp_all add: u(1) del: length_greater_0_conv)
  ultimately obtain m where "partial_tag tag s = Some m" "?n \<le> m"
    using partial_tag_longest [OF refl, of ?n tag s] by auto
  then show False using assms(3,4) by simp
qed

lemma held_suffix_split:
  assumes "starts_char s"
  obtains a h where "s = a @ h" "length h = held_suffix s" "trim_end a = a" "starts_char h"
    "length h \<ge> (case partial_tag CALL_START s of Some n \<Rightarrow> n | None \<Rightarrow> 0)"
proof -
  define n where "n = (case partial_tag CALL_START s of Some n \<Rightarrow> n | None \<Rightarrow> 0)"
  have t: "suffix (take n CALL_START) s" "n < length CALL_START"
    using partial_tag_Some [of CALL_START s] by (auto simp: n_def CALL_START_def split: option.splits)
  have "length (take n CALL_START) = n" using t(2) by simp
  then obtain b where s: "s = b @ take n CALL_START" "n \<le> length s"
    using t(1) suffix_length_le [OF t(1)] by (auto simp: suffix_def)
  have b: "take (length s - n) s = b" using s(1) t(2) by simp
  have sb: "starts_char b" using assms s(1) starts_char_appendD by metis
  obtain w where w: "b = trim_end b @ w" "all_white w" "starts_char w" "starts_char (trim_end b)"
    by (rule trim_end_split [OF sb])
  have "starts_char (take n CALL_START)"
    by (rule starts_char_take) (simp add: CALL_START_def continuation_byte_def)
  then have sh: "starts_char (w @ take n CALL_START)" by (rule starts_char_append [OF w(3)])
  have len: "length (w @ take n CALL_START) = held_suffix s"
    using b t(2) arg_cong [OF w(1), of length] arg_cong [OF s(1), of length]
    by (simp add: held_suffix_def n_def [symmetric] Let_def)
  show ?thesis
  proof (rule that)
    show "s = trim_end b @ w @ take n CALL_START" using s(1) w(1) by (metis append_assoc)
    show "(case partial_tag CALL_START s of Some n \<Rightarrow> n | None \<Rightarrow> 0) \<le> length (w @ take n CALL_START)"
      unfolding n_def [symmetric] using t(2) by simp
  qed (rule len trim_end_idem [OF sb] sh)+
qed

section \<open>One feed\<close>

text \<open>What is still to be read in a parser's state, of its pending text and the text \<open>r\<close> to come.\<close>

abbreviation remaining :: "tool_env \<Rightarrow> tool_parser \<Rightarrow> string \<Rightarrow> (char + string \<times> json) list \<times> ending" where
  "remaining env p r \<equiv>
     read_answer env (tp_tools p) (tp_in_call p) (tp_after_call p) (tp_pending p @ r)"

definition settled :: "tool_parser \<Rightarrow> bool" where
  "settled p \<longleftrightarrow>
     (if tp_in_call p then call_end (tp_pending p) (tp_tools p) = None
      else str_find CALL_START (tp_pending p) = None)"

lemma stream_pieces_reads:
  "stream_pieces collect consumed final index pieces sm out = (flow, sm1, out1) \<Longrightarrow>
     \<not> flow \<and> (\<exists>new. out1 = out @ new \<and> reads new = [] \<and> (\<forall>fed. located fed new))"
proof (induction pieces arbitrary: index sm out)
  case (Cons piece pieces)
  let ?a = "str_get_from (pc_json piece) (sm_json sm)"
  obtain sm2 out2 where step: "stream_pieces collect consumed final (Suc index) pieces sm2 out2 = (flow, sm1, out1)"
    "out2 = out \<or> (\<exists>d. out2 = out @ [(ToolCallDelta d, consumed)])"
    using Cons(2) collect_def [of "ToolCallDelta _" consumed out]
    by (cases "?a = []") (auto simp: Let_def simp del: stream_pieces.simps(1) split: if_splits)
  then obtain new where "\<not> flow" "out1 = out2 @ new" "reads new = []" "\<forall>fed. located fed new"
    using Cons(1) [OF step(1)] by blast
  then show ?case using step(2) by auto
qed auto

lemma stream_reads:
  assumes "stream env collect p out = (flow, p1, out1)"
  shows "\<not> flow" "\<exists>new. out1 = out @ new \<and> reads new = [] \<and> (\<forall>fed. located fed new)"
    "\<exists>sm next. p1 = p\<lparr>tp_streamed := sm, tp_next := next\<rparr>"
proof -
  have "\<not> flow \<and> (\<exists>new. out1 = out @ new \<and> reads new = [] \<and> (\<forall>fed. located fed new)) \<and>
      (\<exists>sm next. p1 = p\<lparr>tp_streamed := sm, tp_next := next\<rparr>)"
  proof (cases "call_pieces env (tp_tools p) (tp_pending p)")
    case None
    then have "\<not> flow" "p1 = p" "out1 = out @ []" using assms by (simp_all add: stream_def)
    moreover have "\<exists>sm next. p = p\<lparr>tp_streamed := sm, tp_next := next\<rparr>"
      by (intro exI [of _ "tp_streamed p"] exI [of _ "tp_next p"]) simp
    ultimately show ?thesis using reads_simps(1) located_simps(1) by blast
  next
    case (Some x)
    then show ?thesis using assms stream_pieces_reads
      by (fastforce simp: stream_def Let_def split: prod.splits)
  qed
  then show "\<not> flow" "\<exists>new. out1 = out @ new \<and> reads new = [] \<and> (\<forall>fed. located fed new)"
    "\<exists>sm next. p1 = p\<lparr>tp_streamed := sm, tp_next := next\<rparr>" by blast+
qed

lemma emit_text_collect:
  assumes "emit_text collect p t offset out = (flow, p1, out1)"
  shows "\<not> flow" "p1 = p\<lparr>tp_after_call := tp_after_call p \<and> lead (tp_after_call p) t = []\<rparr>"
    "\<exists>new. out1 = out @ new \<and> reads new = map Inl (lead (tp_after_call p) t) \<and>
       (starts_char t \<longrightarrow> prefix t (drop offset fed) \<longrightarrow> located fed new)"
proof -
  let ?t = "lead (tp_after_call p) t"
  have loc: "prefix ?t (drop (offset + length t - length ?t) fed)"
    if t: "starts_char t" "prefix t (drop offset fed)"
  proof (cases "tp_after_call p")
    case True
    obtain w where w: "t = w @ trim_start t" by (rule trim_start_split [OF t(1)])
    have "length t = length w + length (trim_start t)" by (metis length_append w)
    then have "offset + length t - length ?t = offset + length w" using True by (simp add: lead_def)
    moreover have "prefix (trim_start t) (drop (length w) (drop offset fed))"
    proof -
      obtain z where z: "drop offset fed = t @ z" using t(2) by (auto simp: prefix_def)
      have "drop offset fed = w @ trim_start t @ z" unfolding z by (subst w) simp
      then show ?thesis by simp
    qed
    ultimately show ?thesis using True by (simp add: lead_def add.commute)
  qed (use t in \<open>simp add: lead_def\<close>)
  have e: "emit_text collect p t offset out =
      (if ?t = [] then (False, p, out)
       else (False, p\<lparr>tp_after_call := False\<rparr>, out @ [(Content ?t, offset + length t - length ?t)]))"
    by (simp add: emit_text_def lead_def collect_def Let_def)
  show "\<not> flow" "p1 = p\<lparr>tp_after_call := tp_after_call p \<and> ?t = []\<rparr>"
    using assms unfolding e by (cases "?t = []"; simp; fail)+
  show "\<exists>new. out1 = out @ new \<and> reads new = map Inl ?t \<and>
      (starts_char t \<longrightarrow> prefix t (drop offset fed) \<longrightarrow> located fed new)"
    using assms loc unfolding e by (cases "?t = []") auto
qed

text \<open>A parser in the middle of the text \<open>fed\<close>.\<close>

definition fed_state :: "string \<Rightarrow> tool_parser \<Rightarrow> bool" where
  "fed_state fed p \<longleftrightarrow>
     tp_failure p = None \<and> utf8 (tp_pending p) \<and> tp_consumed p \<le> length fed \<and>
     drop (tp_consumed p) fed = tp_pending p"

text \<open>Going from \<open>p\<close> to \<open>p1\<close> the events \<open>new\<close> were sent and nothing else of the answer was used up.\<close>

definition passes :: "tool_env \<Rightarrow> tool_parser \<Rightarrow> ('l event \<times> nat) list \<Rightarrow> tool_parser \<Rightarrow> bool" where
  "passes env p new p1 \<longleftrightarrow>
     tp_tools p1 = tp_tools p \<and>
     (\<forall>r. starts_char r \<longrightarrow> remaining env p r = apfst (append (reads new)) (remaining env p1 r))"

lemma apfst_append_Nil [simp]: "apfst (append []) x = x"
  by (cases x) simp

lemma apfst_append_append [simp]:
  "apfst (append a) (apfst (append b) x) = apfst (append (a @ b)) x"
  by (cases x) simp

lemma passes_trans: "passes env p new p1 \<Longrightarrow> passes env p1 new1 p2 \<Longrightarrow> passes env p (new @ new1) p2"
  by (simp add: passes_def)

lemma fed_state_step:
  assumes "fed_state fed p" "n \<le> length (tp_pending p)" "utf8 (drop n (tp_pending p))"
    and "tp_pending p1 = drop n (tp_pending p)" "tp_consumed p1 = tp_consumed p + n" "tp_failure p1 = None"
  shows "fed_state fed p1"
proof -
  have "length (tp_pending p) = length fed - tp_consumed p"
    using assms(1) unfolding fed_state_def by (metis length_drop)
  moreover have "tp_consumed p \<le> length fed" using assms(1) by (simp add: fed_state_def)
  moreover have "drop (tp_consumed p + n) fed = drop n (tp_pending p)"
    using assms(1) by (simp add: fed_state_def add.commute flip: drop_drop)
  ultimately show ?thesis using assms(2-6) by (simp add: fed_state_def)
qed

lemma call_end_found:
  "call_end s tools = Some (e, m, st) \<Longrightarrow>
     str_find m s = Some e \<and> m \<noteq> [] \<and> (of_char (last m) :: nat) < 0x80"
  by (auto simp: call_end_def Let_def CALL_END_def STRICT_CALL_END_def split: if_splits option.splits)

lemma map_sum_sbind: "map_sum id g (sbind x f) = sbind x (\<lambda>a. map_sum id g (f a))"
  by (cases x) simp_all

lemma parse_block_id:
  "parse_block env tools i st b = map_sum id (\<lambda>c. c\<lparr>tc_id := i\<rparr>) (parse_block env tools [] st b)"
proof (cases st)
  case None
  then show ?thesis
    by (auto simp: parse_block_def parse_call_def map_sum_sbind split: option.splits prod.splits
        intro!: arg_cong [of _ _ "sbind _"])
next
  case (Some t)
  then show ?thesis
    by (auto simp: parse_block_def parse_strict_def Let_def map_sum_sbind split: option.splits sum.splits
        intro!: arg_cong [of _ _ "sbind _"])
qed

lemma end_call_passes:
  assumes "fed_state fed p" "tp_in_call p" "call_end (tp_pending p) (tp_tools p) = Some (e, m, st)"
    and "parse_block env (tp_tools p) i st (take e (tp_pending p)) = Inr c"
    and "tp_pending p1 = drop (e + length m) (tp_pending p)" "tp_consumed p1 = tp_consumed p + e + length m"
    and "\<not> tp_in_call p1" "tp_after_call p1" "tp_failure p1 = None" "tp_tools p1 = tp_tools p"
    and "called c' = called c"
  shows "fed_state fed p1" "passes env p [(ToolCall c', n)] p1"
proof -
  note f = call_end_found [OF assms(3)]
  have l: "e + length m \<le> length (tp_pending p)" using f str_find_length by blast
  have "utf8 (drop (e + length m) (tp_pending p))"
    using f assms(1) by (intro utf8_after) (auto simp: fed_state_def)
  then show "fed_state fed p1" using fed_state_step [OF assms(1) l] assms(5,6,9) by simp
  obtain c0 where c0: "parse_block env (tp_tools p) [] st (take e (tp_pending p)) = Inr c0" "called c0 = called c"
    using assms(4) parse_block_id [of env "tp_tools p" i st]
    by (cases "parse_block env (tp_tools p) [] st (take e (tp_pending p))") (auto simp: called_def)
  show "passes env p [(ToolCall c', n)] p1"
    unfolding passes_def
  proof (intro conjI allI impI)
    fix r :: string
    have "call_end (tp_pending p @ r) (tp_tools p) = Some (e, m, st)" by (rule call_end_append [OF assms(3)])
    then show "remaining env p r = apfst (append (reads [(ToolCall c', n)])) (remaining env p1 r)"
      using assms(2,5,7,8,10,11) c0 l
      by (simp add: read_answer.simps [of env "tp_tools p" True])
  qed (use assms(10) in simp)
qed

lemma start_call_passes:
  assumes "fed_state fed p" "\<not> tp_in_call p" "str_find CALL_START (tp_pending p) = Some i"
    and "tp_pending p1 = drop (i + length CALL_START) (tp_pending p)"
    and "tp_consumed p1 = tp_consumed p + i + length CALL_START"
    and "tp_in_call p1" "tp_failure p1 = None" "tp_tools p1 = tp_tools p"
    and "reads new = map Inl (lead (tp_after_call p) (trim_end (take i (tp_pending p))))"
  shows "fed_state fed p1" "passes env p new p1"
proof -
  have l: "i + length CALL_START \<le> length (tp_pending p)" using assms(3) by (rule str_find_length)
  have "utf8 (drop (i + length CALL_START) (tp_pending p))"
    using assms(1,3) by (intro utf8_after) (auto simp: fed_state_def CALL_START_def)
  then show "fed_state fed p1" using fed_state_step [OF assms(1) l] assms(4,5,7) by simp
  show "passes env p new p1"
    unfolding passes_def
  proof (intro conjI allI impI)
    fix r :: string
    have "str_find CALL_START (tp_pending p @ r) = Some i" by (rule str_find_append [OF assms(3)])
    moreover have "read_answer env (tp_tools p) True False x = read_answer env (tp_tools p) True a x" for a x
      by (simp add: read_answer.simps [of env _ True])
    note this [of "drop (i + length CALL_START) (tp_pending p) @ r" "tp_after_call p1"]
    ultimately show "remaining env p r = apfst (append (reads new)) (remaining env p1 r)"
      using assms(2,4,6,8,9) l
      by (simp add: read_answer.simps [of env "tp_tools p" False])
  qed (use assms(8) in simp)
qed

lemma lead_extend:
  assumes "starts_char b" "\<not> all_white a"
  shows "lead after (a @ b) = lead after a @ b"
  using trim_start_append [OF assms(1), of a] assms(2) by (simp add: lead_def)

lemma hold_passes:
  assumes "fed_state fed p" "\<not> tp_in_call p" "str_find CALL_START (tp_pending p) = None"
    and "n = length (tp_pending p) - held_suffix (tp_pending p)" "0 < n"
    and "tp_pending p1 = drop n (tp_pending p)" "tp_consumed p1 = tp_consumed p + n"
    and "\<not> tp_in_call p1" "\<not> tp_after_call p1" "tp_failure p1 = None" "tp_tools p1 = tp_tools p"
    and "reads new = map Inl (lead (tp_after_call p) (take n (tp_pending p)))"
  shows "fed_state fed p1" "passes env p new p1" "settled p1"
proof -
  let ?s = "tp_pending p"
  have u: "utf8 ?s" using assms(1) by (simp add: fed_state_def)
  obtain a h where ah: "?s = a @ h" "length h = held_suffix ?s" "trim_end a = a" "starts_char h"
    "length h \<ge> (case partial_tag CALL_START ?s of Some n \<Rightarrow> n | None \<Rightarrow> 0)"
    by (rule held_suffix_split [OF utf8_starts_char [OF u]])
  have n: "take n ?s = a" "drop n ?s = h" "n = length a" using ah(1,2) assms(4) by simp_all
  have a: "\<not> all_white a" using ah(3) assms(5) n(3) trim_end_Nil_iff [of a] by auto
  have early: "\<not> prefix CALL_START (drop j (a @ h @ r))" if "j < length a" for j r
    using no_early_tag [OF assms(3) _ refl, of j r] that ah(1,5) by (simp add: CALL_START_def)
  have find: "str_find CALL_START (a @ h @ r) = map_option ((+) (length a)) (str_find CALL_START (h @ r))" for r
    using str_find_shift [of "length a" "a @ h @ r" CALL_START] early by simp
  have "utf8 (drop n ?s)" using utf8_drop_char [OF u, of n] n(2) ah(4) by simp
  then show "fed_state fed p1"
    using fed_state_step [OF assms(1), of n p1] assms(6,7,10) n(3) ah(1) by simp
  show "settled p1"
    using find [of "[]"] assms(3,6,8) n(2) ah(1) by (auto simp: settled_def)
  show "passes env p new p1"
    unfolding passes_def
  proof (intro conjI allI impI)
    fix r :: string assume r: "starts_char r"
    have hr: "starts_char (h @ r)" by (rule starts_char_append [OF ah(4) r])
    show "remaining env p r = apfst (append (reads new)) (remaining env p1 r)"
    proof (cases "str_find CALL_START (h @ r)")
      case None
      then show ?thesis using assms(2,6,8,9,11,12) n find [of r] lead_extend [OF hr a] ah(1)
        by (simp add: read_answer.simps [of env "tp_tools p" False] lead_def [of False])
    next
      case (Some i)
      let ?t = "take i (h @ r)"
      have t: "starts_char ?t" by (rule starts_char_take [OF hr])
      have "trim_end (a @ ?t) = a @ trim_end ?t" by (rule trim_end_extend [OF ah(3) t])
      then show ?thesis
        using assms(2,6,8,9,11,12) n find [of r] Some lead_extend [OF starts_char_trim_end [OF t] a] ah(1)
        by (simp add: read_answer.simps [of env "tp_tools p" False] lead_def [of False] add.assoc)
    qed
  qed (use assms(11) in simp)
qed

text \<open>What one feed does: it goes on, with nothing more to read in what is pending, or it stops at a
  call that cannot be read.\<close>

definition fed_on ::
  "tool_env \<Rightarrow> string \<Rightarrow> tool_parser \<Rightarrow> bool \<Rightarrow> tool_parser \<Rightarrow> ('l event \<times> nat) list \<Rightarrow> bool" where
  "fed_on env fed p flow p' new \<longleftrightarrow>
     located fed new \<and>
     (if flow then
        \<exists>error. tp_failure p' = Some (Invalid_Call error) \<and>
          (\<forall>r. starts_char r \<longrightarrow> remaining env p r = (reads new, Call_Broken error))
      else fed_state fed p' \<and> settled p' \<and> passes env p new p')"

lemma fed_on_after:
  assumes "passes env p new p1" "located fed new" "fed_on env fed p1 flow p' new1"
  shows "fed_on env fed p flow p' (new @ new1)"
  using assms passes_trans [OF assms(1)] by (auto simp: fed_on_def passes_def)

lemma broken_call:
  assumes "tp_in_call p" "call_end (tp_pending p) (tp_tools p) = Some (e, m, st)"
    and "parse_block env (tp_tools p) i st (take e (tp_pending p)) = Inl error"
  shows "remaining env p r = ([], Call_Broken error)"
proof -
  have "parse_block env (tp_tools p) [] st (take e (tp_pending p)) = Inl error"
    using assms(3) parse_block_id [of env "tp_tools p" i st]
    by (cases "parse_block env (tp_tools p) [] st (take e (tp_pending p))") auto
  moreover have "e \<le> length (tp_pending p)" using call_end_shrinks [OF assms(2)] by simp
  ultimately show ?thesis
    using assms(1) call_end_append [OF assms(2), of r]
    by (simp add: read_answer.simps [of env "tp_tools p" True])
qed

lemma fed_state_located:
  assumes "fed_state fed p" "prefix t (tp_pending p)"
  shows "prefix t (drop (tp_consumed p) fed)"
  using assms by (simp add: fed_state_def)

text \<open>The text released is visible: it ends with a character that is not white space.\<close>

lemma released_visible:
  assumes "starts_char s" "0 < length s - held_suffix s"
  shows "lead after (take (length s - held_suffix s) s) \<noteq> []"
proof -
  obtain a h where ah: "s = a @ h" "length h = held_suffix s" "trim_end a = a"
    by (rule held_suffix_split [OF assms(1)])
  have t: "take (length s - held_suffix s) s = a" using ah(1,2) by (metis append_eq_conv_conj diff_add_inverse2 length_append)
  then have "a \<noteq> []" using assms(2) by auto
  then have "\<not> all_white a" using ah(3) trim_end_Nil_iff [of a] by simp
  then show ?thesis unfolding t using \<open>a \<noteq> []\<close> trim_start_Nil_iff [of a] by (simp add: lead_def)
qed

text \<open>The loop from a state with less pending text, as the steps below go on to it.\<close>

definition loop_reads ::
  "tool_env \<Rightarrow> string \<Rightarrow> nat \<Rightarrow> bool \<Rightarrow> tool_parser \<Rightarrow> ('l event \<times> nat) list \<Rightarrow> bool" where
  "loop_reads env fed n flow p' out' \<longleftrightarrow>
     (\<forall>p out. length (tp_pending p) < n \<longrightarrow> feed_loop env collect p out = (flow, p', out') \<longrightarrow>
        fed_state fed p \<longrightarrow> (\<exists>new. out' = out @ new \<and> fed_on env fed p flow p' new))"

lemma loop_readsD:
  assumes "loop_reads env fed n flow p' out'" "length (tp_pending p) < n"
    and "feed_loop env collect p out = (flow, p', out')" "fed_state fed p"
  obtains new where "out' = out @ new" "fed_on env fed p flow p' new"
  using assms unfolding loop_reads_def by blast

lemma loop_open_call:
  assumes "feed_loop env collect p out = (flow, p', out')" "fed_state fed p"
    and "tp_in_call p" "call_end (tp_pending p) (tp_tools p) = None"
  shows "\<exists>new. out' = out @ new \<and> fed_on env fed p flow p' new"
proof -
  have st: "stream env collect p out = (flow, p', out')"
    using assms(1,3,4) by (simp add: feed_loop.simps [of env collect p])
  obtain sm n new where "p' = p\<lparr>tp_streamed := sm, tp_next := n\<rparr>" "\<not> flow"
    "out' = out @ new" "reads new = []" "\<forall>fed. located fed new"
    using stream_reads [OF st] by blast
  then show ?thesis using assms(2-4) by (auto simp: fed_on_def fed_state_def settled_def passes_def)
qed

lemma loop_end_call:
  fixes out :: "('l event \<times> nat) list"
  assumes "feed_loop env collect p out = (flow, p', out')" "fed_state fed p"
    and "tp_in_call p" "call_end (tp_pending p) (tp_tools p) = Some (e, m, st)"
    and IH: "loop_reads env fed (length (tp_pending p)) flow p' out'"
  shows "\<exists>new. out' = out @ new \<and> fed_on env fed p flow p' new"
proof (cases "parse_block env (tp_tools p) (te_call_id env (tp_next p)) st (take e (tp_pending p))")
  case (Inl error)
  have "flow" "out' = out @ []" "tp_failure p' = Some (Invalid_Call error)"
    using assms(1,3,4) Inl
    by (auto simp: feed_loop.simps [of env collect p] Let_def parse_block_def [symmetric])
  then show ?thesis using broken_call [OF assms(3,4) Inl] by (auto simp: fed_on_def)
next
  case (Inr c)
  let ?c = "case tp_streamed p of Some sm \<Rightarrow> c\<lparr>tc_id := sm_id sm\<rparr> | None \<Rightarrow> c"
  let ?p = "p\<lparr>tp_pending := drop (e + length m) (tp_pending p), tp_consumed := tp_consumed p + e + length m,
              tp_in_call := False, tp_after_call := True, tp_streamed := None, tp_next := Suc (tp_next p)\<rparr>"
  let ?new = "[(ToolCall ?c, tp_consumed ?p)] :: ('l event \<times> nat) list"
  have c: "called ?c = called c" by (simp add: called_def split: option.splits)
  have f: "tp_failure p = None" using assms(2) by (simp add: fed_state_def)
  have pass: "fed_state fed ?p" "passes env p ?new ?p"
    by (rule end_call_passes [OF assms(2-4) Inr, of ?p ?c]; simp add: f c)+
  have rec: "feed_loop env collect ?p (out @ ?new) = (flow, p', out')"
    using assms(1,3,4) Inr
    by (simp add: feed_loop.simps [of env collect p] Let_def parse_block_def [symmetric] collect_def)
  have "length (tp_pending ?p) < length (tp_pending p)" using call_end_shrinks [OF assms(4)] by simp
  then obtain new1 where "out' = (out @ ?new) @ new1" "fed_on env fed ?p flow p' new1"
    by (rule loop_readsD [OF IH _ rec pass(1)])
  then show ?thesis using fed_on_after [OF pass(2)] by auto
qed

lemma loop_start_call:
  fixes out :: "('l event \<times> nat) list"
  assumes "feed_loop env collect p out = (flow, p', out')" "fed_state fed p"
    and "\<not> tp_in_call p" "str_find CALL_START (tp_pending p) = Some i"
    and IH: "loop_reads env fed (length (tp_pending p)) flow p' out'"
  shows "\<exists>new. out' = out @ new \<and> fed_on env fed p flow p' new"
proof -
  let ?s = "tp_pending p"
  let ?t = "trim_end (take i ?s)"
  let ?p = "p\<lparr>tp_pending := drop (i + length CALL_START) ?s,
              tp_consumed := tp_consumed p + i + length CALL_START, tp_in_call := True\<rparr>"
  obtain fl p2 out2 where em: "emit_text collect ?p ?t (tp_consumed p) out = (fl, p2, out2)"
    by (metis prod_cases3)
  note e = emit_text_collect [OF em]
  have f: "tp_failure p = None" and u: "starts_char (take i ?s)"
    using assms(2) by (simp_all add: fed_state_def utf8_starts_char starts_char_take)
  obtain w where w: "take i ?s = ?t @ w" "starts_char ?t" by (rule trim_end_split [OF u])
  have "prefix ?t ?s" by (metis prefixI prefix_order.trans take_is_prefix w(1))
  then obtain new where new: "out2 = out @ new" "reads new = map Inl (lead (tp_after_call p) ?t)"
    "located fed new"
    using e(3) [of fed] w(2) fed_state_located [OF assms(2)] by auto
  have p2: "fed_state fed p2" "passes env p new p2"
    by (rule start_call_passes [OF assms(2-4), of p2 new]; simp add: e(2) new(2) f)+
  have rec: "feed_loop env collect p2 out2 = (flow, p', out')"
    using assms(1,3,4) em e(1) by (auto simp: feed_loop.simps [of env collect p] Let_def)
  have "length (tp_pending p2) < length ?s"
    using str_find_length [OF assms(4)] e(2) by (simp add: CALL_START_def)
  then obtain new1 where "out' = out2 @ new1" "fed_on env fed p2 flow p' new1"
    by (rule loop_readsD [OF IH _ rec p2(1)])
  then show ?thesis using fed_on_after [OF p2(2) new(3)] new(1) by auto
qed

lemma loop_hold:
  assumes "feed_loop env collect p out = (flow, p', out')" "fed_state fed p"
    and "\<not> tp_in_call p" "str_find CALL_START (tp_pending p) = None"
  shows "\<exists>new. out' = out @ new \<and> fed_on env fed p flow p' new"
proof -
  let ?s = "tp_pending p"
  let ?n = "length ?s - held_suffix ?s"
  have f: "tp_failure p = None" and u: "starts_char ?s"
    using assms(2) by (simp_all add: fed_state_def utf8_starts_char)
  show ?thesis
  proof (cases "?n = 0")
    case True
    then have "\<not> flow" "p' = p" "out' = out @ []"
      using assms(1,3,4) by (simp_all add: feed_loop.simps [of env collect p] Let_def)
    then show ?thesis using assms(2-4) by (auto simp: fed_on_def settled_def passes_def)
  next
    case False
    let ?p = "p\<lparr>tp_pending := drop ?n ?s, tp_consumed := tp_consumed p + ?n\<rparr>"
    have em: "emit_text collect ?p (take ?n ?s) (tp_consumed p) out = (flow, p', out')"
      using assms(1,3,4) False by (simp add: feed_loop.simps [of env collect p] Let_def)
    note e = emit_text_collect [OF em]
    obtain new where new: "out' = out @ new" "reads new = map Inl (lead (tp_after_call p) (take ?n ?s))"
      "located fed new"
      using e(3) [of fed] starts_char_take [OF u] fed_state_located [OF assms(2), of "take ?n ?s"]
      by (auto simp: take_is_prefix)
    have "lead (tp_after_call p) (take ?n ?s) \<noteq> []" using released_visible [OF u] False by simp
    then have "fed_state fed p'" "passes env p new p'" "settled p'"
      using hold_passes [OF assms(2-4) refl, of p' new] e(2) new(2) f False assms(3) by simp_all
    then show ?thesis using new e(1) by (auto simp: fed_on_def)
  qed
qed

lemma feed_loop_reads:
  "feed_loop env collect p out = (flow, p', out') \<Longrightarrow> fed_state fed p \<Longrightarrow>
     \<exists>new. out' = out @ new \<and> fed_on env fed p flow p' new"
proof (induction "length (tp_pending p)" arbitrary: p out rule: less_induct)
  case less
  then have IH: "loop_reads env fed (length (tp_pending p)) flow p' out'"
    unfolding loop_reads_def by blast
  show ?case
  proof (cases "tp_in_call p")
    case True
    then show ?thesis
      using loop_open_call [OF less(2,3)] loop_end_call [OF less(2,3) True _ IH]
      by (cases "call_end (tp_pending p) (tp_tools p)") auto
  next
    case False
    then show ?thesis
      using loop_hold [OF less(2,3)] loop_start_call [OF less(2,3) False _ IH]
      by (cases "str_find CALL_START (tp_pending p)") auto
  qed
qed

section \<open>The whole stream\<close>

fun feed_all ::
  "tool_env \<Rightarrow> ('l, 's) callback \<Rightarrow> tool_parser \<Rightarrow> string list \<Rightarrow> 's \<Rightarrow> bool \<times> tool_parser \<times> 's" where
  "feed_all env callback p [] s = (False, p, s)"
| "feed_all env callback p (t # ts) s =
     (case feed env callback p t s of
        (True, p1, s1) \<Rightarrow> (True, p1, s1)
      | (False, p1, s1) \<Rightarrow> feed_all env callback p1 ts s1)"

definition parse_pieces ::
  "tool_env \<Rightarrow> tool_set \<Rightarrow> nat \<Rightarrow> string list \<Rightarrow> stop_reason
   \<Rightarrow> tool_parser \<times> ('l event \<times> nat) list" where
  "parse_pieces env tools counter pieces reason =
     (case feed_all env collect (parser_new tools counter) pieces [] of
        (_, p, out) \<Rightarrow> snd (parser_finish collect p reason out))"

definition with_text :: "tool_parser \<Rightarrow> string \<Rightarrow> tool_parser" where
  "with_text p t = p\<lparr>tp_pending := tp_pending p @ t\<rparr>"

lemma with_text_simps [simp]:
  "with_text p [] = p" "tp_pending (with_text p t) = tp_pending p @ t" "tp_tools (with_text p t) = tp_tools p"
  "tp_in_call (with_text p t) = tp_in_call p" "tp_after_call (with_text p t) = tp_after_call p"
  "tp_failure (with_text p t) = tp_failure p" "tp_consumed (with_text p t) = tp_consumed p"
  by (simp_all add: with_text_def)

lemma fed_state_extend:
  "fed_state fed p \<Longrightarrow> utf8 t \<Longrightarrow> fed_state (fed @ t) (with_text p t)"
  by (auto simp: fed_state_def utf8_append)

lemma starts_char_pieces: "list_all utf8 ts \<Longrightarrow> starts_char (concat ts)"
  by (induction ts) (auto intro: starts_char_append utf8_starts_char)

lemma fed_on_later:
  assumes "fed_on env fed (with_text p t) True p' new" "starts_char u"
  shows "fed_on env (fed @ u) (with_text p (t @ u)) True p' new"
  using assms starts_char_append [OF assms(2)] by (auto simp: fed_on_def located_append)

lemma passes_later:
  assumes "passes env (with_text p t) new p1" "starts_char u"
  shows "passes env (with_text p (t @ u)) new (with_text p1 u)"
  using assms starts_char_append [OF assms(2)] by (auto simp: passes_def)

lemma feed_all_reads:
  "feed_all env collect p ts out = (flow, p', out') \<Longrightarrow> fed_state fed p \<Longrightarrow> settled p \<Longrightarrow>
     list_all utf8 ts \<Longrightarrow>
     \<exists>new. out' = out @ new \<and> fed_on env (fed @ concat ts) (with_text p (concat ts)) flow p' new"
proof (induction ts arbitrary: p out fed)
  case Nil
  then show ?case by (auto simp: fed_on_def passes_def)
next
  case (Cons t ts)
  have u: "starts_char (concat ts)" using Cons(5) starts_char_pieces by simp
  have f: "fed_state (fed @ t) (with_text p t)" using Cons(3,5) fed_state_extend by simp
  obtain fl p1 out1 where lp: "feed_loop env collect (with_text p t) out = (fl, p1, out1)"
    by (metis prod_cases3)
  have feed: "feed env collect p t out = (fl, p1, out1)"
    using lp Cons(3) by (simp add: feed_def with_text_def fed_state_def)
  obtain new where new: "out1 = out @ new" "fed_on env (fed @ t) (with_text p t) fl p1 new"
    using feed_loop_reads [OF lp f] by blast
  show ?case
  proof (cases fl)
    case True
    then show ?thesis using Cons(2) feed new fed_on_later [OF _ u, of env "fed @ t" p t p1 new] by auto
  next
    case False
    then have p1: "fed_state (fed @ t) p1" "settled p1" "passes env (with_text p t) new p1" "located (fed @ t) new"
      using new(2) by (simp_all add: fed_on_def)
    obtain new1 where "out' = out1 @ new1"
      "fed_on env ((fed @ t) @ concat ts) (with_text p1 (concat ts)) flow p' new1"
      using Cons(1) [OF _ p1(1,2), of out1] Cons(2,5) feed False by auto
    then show ?thesis
      using fed_on_after [OF passes_later [OF p1(3) u]] located_append [OF p1(4)] new(1) by auto
  qed
qed

text \<open>How a stream that reached the end of the text closes.\<close>

definition closes :: "stop_reason \<Rightarrow> ending \<Rightarrow> call_failure option" where
  "closes reason e =
     (case e of
        Text_Ended \<Rightarrow> None
      | Call_Open \<Rightarrow> if reason = Eos then Some Call_Unfinished else None
      | Call_Broken error \<Rightarrow> Some (Invalid_Call error))"

lemma finish_reads:
  assumes "fed_state fed p" "settled p" "parser_finish collect p reason out = (flow, p', out')"
  shows "\<exists>new. out' = out @ new \<and> located fed new \<and> reads new = fst (remaining env p []) \<and>
           tp_failure p' = closes reason (snd (remaining env p []))"
proof (cases "tp_in_call p")
  case True
  then show ?thesis using assms
    by (auto simp: parser_finish_def settled_def fed_state_def closes_def
        read_answer.simps [of env "tp_tools p" True] split: if_splits)
next
  case False
  let ?p = "p\<lparr>tp_pending := [], tp_consumed := tp_consumed p + length (tp_pending p)\<rparr>"
  have em: "emit_text collect ?p (tp_pending p) (tp_consumed p) out = (flow, p', out')"
    using assms False by (simp add: parser_finish_def fed_state_def)
  note e = emit_text_collect [OF em]
  have "starts_char (tp_pending p)" "prefix (tp_pending p) (drop (tp_consumed p) fed)"
    using assms(1) by (auto simp: fed_state_def utf8_starts_char)
  then obtain new where "out' = out @ new" "reads new = map Inl (lead (tp_after_call p) (tp_pending p))"
    "located fed new"
    using e(3) [of fed] by auto
  then show ?thesis using e(2) assms(1,2) False
    by (auto simp: settled_def fed_state_def closes_def read_answer.simps [of env "tp_tools p" False])
qed

text \<open>
  C7. However a generated answer is cut into pieces, a consumer of the streaming parser reads what the
  text holds as a whole: the same visible text and the same calls in the same order, and the stream
  fails exactly as the whole text does (at a call that cannot be read, or at the end of a call the
  model left open).  Every content event stands in the text at the offset given with it.
\<close>

theorem streamed_answer:
  fixes out :: "('l event \<times> nat) list"
  assumes "list_all utf8 pieces" "parse_pieces env tools counter pieces reason = (p, out)"
    and "read_answer env tools False False (concat pieces) = (answer, e)"
  shows "reads out = answer \<and> tp_failure p = closes reason e \<and> located (concat pieces) out"
proof -
  let ?p = "parser_new tools counter"
  obtain flow p1 and out1 :: "('l event \<times> nat) list"
    where fa: "feed_all env collect ?p pieces [] = (flow, p1, out1)"
    by (metis prod_cases3)
  have fin: "snd (parser_finish collect p1 reason out1) = (p, out)"
    using assms(2) fa by (simp add: parse_pieces_def)
  have "fed_state [] ?p" "settled ?p"
    by (simp_all add: fed_state_def settled_def parser_new_def str_find.simps CALL_START_def)
  then have on: "fed_on env (concat pieces) (with_text ?p (concat pieces)) flow p1 out1"
    using feed_all_reads [OF fa _ _ assms(1), of "[]"] by auto
  have whole: "remaining env (with_text ?p (concat pieces)) [] = (answer, e)"
    using assms(3) by (simp add: parser_new_def)
  show ?thesis
  proof (cases flow)
    case True
    then obtain error where "tp_failure p1 = Some (Invalid_Call error)" "located (concat pieces) out1"
      and b: "remaining env (with_text ?p (concat pieces)) [] = (reads out1, Call_Broken error)"
      using on unfolding fed_on_def by (metis starts_char_simps(1))
    moreover have "answer = reads out1" "e = Call_Broken error" using b whole by simp_all
    ultimately show ?thesis using fin by (auto simp: parser_finish_def closes_def)
  next
    case False
    then have p1: "fed_state (concat pieces) p1" "settled p1" "located (concat pieces) out1"
      and pass: "passes env (with_text ?p (concat pieces)) out1 p1"
      using on by (simp_all add: fed_on_def)
    have "remaining env (with_text ?p (concat pieces)) [] = apfst (append (reads out1)) (remaining env p1 [])"
      using pass starts_char_simps(1) unfolding passes_def by blast
    then have ans: "answer = reads out1 @ fst (remaining env p1 [])" "e = snd (remaining env p1 [])"
      using whole by (metis fst_apfst fst_conv, metis snd_apfst snd_conv)
    have "parser_finish collect p1 reason out1 = (fst (parser_finish collect p1 reason out1), p, out)"
      unfolding fin [symmetric] by simp
    note closed = finish_reads [OF p1(1,2) this, of env]
    show ?thesis using closed p1(3) unfolding ans by auto
  qed
qed

text \<open>A reader and a printer of JSON to evaluate with: numbers of one digit, text and objects.\<close>

definition sample_from_str :: "string \<Rightarrow> json option" where
  "sample_from_str s = (if length s = 1 \<and> List.member ''0123456789'' (hd s) then Some (JNum s) else None)"

definition escape_byte :: "char \<Rightarrow> string" where
  "escape_byte c =
     (if c = CHR 0x22 then [CHR 0x5C, CHR 0x22] else if c = CHR 0x5C then [CHR 0x5C, CHR 0x5C]
      else if c = CHR 0x0A then [CHR 0x5C, CHR ''n''] else [c])"

fun join_with :: "string \<Rightarrow> string list \<Rightarrow> string" where
  "join_with sep [] = []"
| "join_with sep [x] = x"
| "join_with sep (x # xs) = x @ sep @ join_with sep xs"

fun sample_to_string :: "json \<Rightarrow> string" where
  "sample_to_string JNull = ''null''"
| "sample_to_string (JBool b) = (if b then ''true'' else ''false'')"
| "sample_to_string (JNum n) = filter (\<lambda>c. \<not> continuation_byte c) n"
| "sample_to_string (JStr s) = [CHR 0x22] @ concat (map escape_byte s) @ [CHR 0x22]"
| "sample_to_string (JArr items) = ''['' @ join_with '','' (map sample_to_string items) @ '']''"
| "sample_to_string (JObj members) =
     ''{'' @ join_with '','' (map (\<lambda>(k, v).
        ([CHR 0x22] @ concat (map escape_byte k) @ [CHR 0x22]) @ '':'' @ sample_to_string v) members) @ ''}''"

definition sample_env :: tool_env where
  "sample_env = \<lparr>te_from_str = sample_from_str, te_to_string = sample_to_string,
                 te_call_id = next_call_id 7\<rparr>"

definition sample_pieces :: "string list" where
  "sample_pieces =
     [''Hi. <tool'', ''_call><function=ls><parameter=n>5</param'', ''eter></function></tool_'',
      ''call> '', '' Bye <''] "

theorem streamed_answer_witness:
  "list_all utf8 sample_pieces \<and>
   read_answer sample_env [] False False (concat sample_pieces) =
     (map Inl ''Hi.'' @ [Inr (''ls'', JObj [(''n'', JNum ''5'')])] @ map Inl ''Bye <'', Text_Ended) \<and>
   (\<exists>p out. parse_pieces sample_env [] 0 sample_pieces Eos = (p, out :: (nat event \<times> nat) list) \<and>
      reads out = map Inl ''Hi.'' @ [Inr (''ls'', JObj [(''n'', JNum ''5'')])] @ map Inl ''Bye <'' \<and>
      tp_failure p = None \<and> located (concat sample_pieces) out)"
proof -
  have u: "list_all utf8 sample_pieces" by code_simp
  have r: "read_answer sample_env [] False False (concat sample_pieces) =
     (map Inl ''Hi.'' @ [Inr (''ls'', JObj [(''n'', JNum ''5'')])] @ map Inl ''Bye <'', Text_Ended)"
    by code_simp
  obtain p and out :: "(nat event \<times> nat) list"
    where p: "parse_pieces sample_env [] 0 sample_pieces Eos = (p, out)" by fastforce
  show ?thesis using streamed_answer [OF u p r] u r p by (simp add: closes_def)
qed

section \<open>Every call is well formed\<close>

text \<open>A valid name, an object of distinct arguments, and for a strict tool arguments that satisfy its
  schema.\<close>

definition well_formed :: "tool_set \<Rightarrow> string \<times> json \<Rightarrow> bool" where
  "well_formed tools c \<longleftrightarrow>
     check_tool_name (fst c) \<and>
     (case snd c of JObj members \<Rightarrow> distinct (map fst members) | _ \<Rightarrow> False) \<and>
     (case strict_tool_of tools (fst c) of Some t \<Rightarrow> validate_arguments t (snd c) = None | None \<Rightarrow> True)"

lemma parse_parameters_distinct:
  "parse_parameters f t rest args = Inr final \<Longrightarrow> distinct (map fst args) \<Longrightarrow> distinct (map fst final)"
proof (induction f t rest args rule: parse_parameters.induct)
  case (1 f t rest args)
  show ?case
  proof (cases "trim_start rest = []")
    case True
    then show ?thesis using 1(2,3) by (simp add: parse_parameters.simps [of f t rest])
  next
    case False
    then show ?thesis
      using 1 by (auto simp: parse_parameters.simps [of f t rest] Let_def map_of_eq_None_iff
          split: option.splits prod.splits if_splits)
  qed
qed

lemma parse_strict_distinct:
  "parse_strict_parameters f st rest args = Inr final \<Longrightarrow> distinct (map fst args) \<Longrightarrow> distinct (map fst final)"
proof (induction f st rest args rule: parse_strict_parameters.induct)
  case (1 f st rest args)
  then show ?case
    by (auto simp: parse_strict_parameters.simps [of f st rest] map_of_eq_None_iff
        split: option.splits prod.splits if_splits value_kind.splits)
qed

lemma compile_tools_names:
  "compile_tools lib classify names ds = Inr tools \<Longrightarrow> t \<in> set tools \<Longrightarrow>
     check_tool_name (td_name (tl_definition t))"
  by (induction ds arbitrary: names tools) (auto split: if_splits sum.splits)

lemma strict_tool_of_found:
  "strict_tool_of tools name = Some t \<Longrightarrow> t \<in> set tools \<and> td_name (tl_definition t) = name"
  by (auto simp: strict_tool_of_def get_tool_def find_Some_iff split: option.splits if_splits)

lemma call_end_strict:
  "call_end s tools = Some (e, m, Some t) \<Longrightarrow> \<exists>name. strict_tool_of tools name = Some t"
  by (auto simp: call_end_def Let_def split: if_splits option.splits)

lemma parse_block_well_formed:
  assumes "toolset_new lib classify ds = Inr tools" "call_end s tools = Some (e, m, st)"
    and "parse_block env tools i st b = Inr c"
  shows "well_formed tools (called c)"
proof (cases st)
  case None
  then show ?thesis
    using assms(3) parse_parameters_distinct
    by (auto simp: parse_block_def parse_call_def well_formed_def called_def
        split: option.splits prod.splits if_splits)
next
  case (Some t)
  obtain name where n: "strict_tool_of tools name = Some t" using call_end_strict assms(2) Some by blast
  note t = strict_tool_of_found [OF n]
  have "check_tool_name name" using compile_tools_names assms(1) t by (auto simp: toolset_new_def)
  then show ?thesis
    using assms(3) Some n t parse_strict_distinct
    by (auto simp: parse_block_def parse_strict_def well_formed_def called_def Let_def
        split: option.splits sum.splits)
qed

text \<open>
  C27. Every call that a text holds is well formed: its name is a valid tool name, its arguments are an
  object of distinct names, and when the request declared the tool as strict they satisfy its schema.
\<close>

theorem calls_well_formed:
  assumes "toolset_new lib classify ds = Inr tools"
    and "Inr c \<in> set (fst (read_answer env tools in_call after s))"
  shows "well_formed tools c"
  using assms(2)
proof (induction "length s" arbitrary: in_call after s rule: less_induct)
  case less
  show ?case
  proof (cases in_call)
    case True
    then obtain e m st c0 where ce: "call_end s tools = Some (e, m, st)"
      and p: "parse_block env tools [] st (take e s) = Inr c0"
      and c: "c = called c0 \<or> Inr c \<in> set (fst (read_answer env tools False True (drop (e + length m) s)))"
      using less(2) by (auto simp: read_answer.simps [of env tools True] split: option.splits prod.splits sum.splits)
    then show ?thesis
      using parse_block_well_formed [OF assms(1) ce p] less(1) [of "drop (e + length m) s" False True] call_end_shrinks [OF ce]
      by auto
  next
    case False
    then obtain i where i: "str_find CALL_START s = Some i"
      "Inr c \<in> set (fst (read_answer env tools True False (drop (i + length CALL_START) s)))"
      using less(2) by (auto simp: read_answer.simps [of env tools False] split: option.splits)
    then show ?thesis using less(1) [of "drop (i + length CALL_START) s" True False] str_find_length [OF i(1)]
      by (auto simp: CALL_START_def)
  qed
qed

text \<open>A strict tool whose schema takes no arguments.\<close>

definition stop_tool :: tool_definition where
  "stop_tool = \<lparr>td_name = ''stop'', td_description = None, td_parameters = JNull, td_strict = True\<rparr>"

theorem calls_well_formed_witness:
  "well_formed [\<lparr>tl_definition = stop_tool, tl_schema = None, tl_strict = Some (Inr [])\<rparr>] (''stop'', JObj [])"
proof -
  let ?lib = "\<lparr>sl_build = (\<lambda>_. Inl []), sl_registry = (\<lambda>_. Inl []), sl_build_in = (\<lambda>_ _. Inl [])\<rparr> :: schema_lib"
  let ?tools = "[\<lparr>tl_definition = stop_tool, tl_schema = None, tl_strict = Some (Inr [])\<rparr>]"
  have n: "check_tool_name ''stop''" by code_simp
  have "toolset_new ?lib (\<lambda>_. Inr []) [stop_tool] = Inr ?tools"
    using n by (simp add: toolset_new_def stop_tool_def compile_parameters_def)
  moreover have "list_ex (\<lambda>x. x = Inr (''stop'', JObj []))
      (fst (read_answer sample_env ?tools False False
        (''ok <tool_call>'' @ newline @ ''<function=stop>'' @ newline @ ''</function>'' @ newline @ ''</tool_call>'')))"
    by code_simp
  ultimately show ?thesis using calls_well_formed by (fastforce simp: list_ex_iff)
qed

end
