(* ===== verification/Splitter.thy ===== *)
theory Splitter
  imports Tool_Stream
begin

text \<open>
  Splitting generated text (\<open>local-engine/src/api.rs\<close>, \<open>EventSplitter\<close>, \<open>deliver\<close> and
  \<open>StopSequences\<close>): reasoning up to \<open></think>\<close>, then the visible answer up to the first stop
  sequence, as the text arrives in pieces.  Strings are their UTF-8 bytes.  The consumer's
  callback is a function of the events sent so far that says whether it breaks off.  For a request
  with tools the answer goes through the tool-call parser before the stop sequences are matched.
\<close>

section \<open>Events\<close>

text \<open>A callback's history and its answer; \<open>True\<close> is \<open>ControlFlow::Break\<close>.\<close>

type_synonym 'l consumer = "'l event list \<Rightarrow> bool"

definition send :: "'l consumer \<Rightarrow> 'l event \<Rightarrow> 'l event list \<Rightarrow> bool \<times> 'l event list" where
  "send breaks e out = (breaks (out @ [e]), out @ [e])"

record 'l spanned =
  sp_start :: nat
  sp_end :: nat
  sp_tokens :: "'l list"

text \<open>\<open>deliver\<close>: content goes after the log-probabilities of the tokens whose text it holds.\<close>

fun pop_spans :: "nat \<Rightarrow> nat \<Rightarrow> 'l spanned list \<Rightarrow> 'l list \<Rightarrow> 'l list \<times> 'l spanned list" where
  "pop_spans offset end [] tokens = (tokens, [])"
| "pop_spans offset end (s # spans) tokens =
     (if sp_start s < end
      then pop_spans offset end spans (if sp_end s > offset then tokens @ sp_tokens s else tokens)
      else (tokens, s # spans))"

definition deliver ::
  "'l consumer \<Rightarrow> 'l event \<Rightarrow> nat \<Rightarrow> 'l spanned list \<Rightarrow> 'l event list
   \<Rightarrow> bool \<times> 'l spanned list \<times> 'l event list" where
  "deliver breaks e offset logprobs out =
     (case e of
        Content text \<Rightarrow>
          (case pop_spans offset (offset + length text) logprobs [] of
             (tokens, logprobs1) \<Rightarrow>
               if tokens \<noteq> [] then
                 (case send breaks (Logprobs tokens) out of
                    (True, out1) \<Rightarrow> (True, logprobs1, out1)
                  | (False, out1) \<Rightarrow>
                      (case send breaks e out1 of (flow, out2) \<Rightarrow> (flow, logprobs1, out2)))
               else (case send breaks e out of (flow, out1) \<Rightarrow> (flow, logprobs1, out1)))
      | _ \<Rightarrow> (case send breaks e out of (flow, out1) \<Rightarrow> (flow, logprobs, out1)))"

section \<open>Stop sequences\<close>

record stop_sequences =
  sq_sequences :: "string list"
  sq_held :: string
  sq_held_from :: nat
  sq_matched :: bool

definition stop_new :: "string list \<Rightarrow> stop_sequences" where
  "stop_new sequences =
     \<lparr>sq_sequences = filter (\<lambda>s. s \<noteq> []) sequences, sq_held = [], sq_held_from = 0, sq_matched = False\<rparr>"

text \<open>The least offset at which a sequence occurs, and the longest end that begins one.\<close>

definition first_match :: "string list \<Rightarrow> string \<Rightarrow> nat option" where
  "first_match sequences s =
     (let found = List.map_filter (\<lambda>sequence. str_find sequence s) sequences
      in if found = [] then None else Some (Min (set found)))"

definition partial_lengths :: "string \<Rightarrow> string \<Rightarrow> nat list" where
  "partial_lengths held sequence =
     filter (\<lambda>len. is_char_boundary sequence len \<and> ends_with held (take len sequence))
       (rev [1..<min (length sequence) (length held + 1)])"

definition partial_match :: "string list \<Rightarrow> string \<Rightarrow> nat" where
  "partial_match sequences held =
     foldr max (List.map_filter
       (\<lambda>sequence. case partial_lengths held sequence of [] \<Rightarrow> None | l # _ \<Rightarrow> Some l) sequences) 0"

text \<open>The state of the consumer's side of the splitter: the log-probabilities not yet sent and
  the events sent.\<close>

type_synonym 'l sink = "'l spanned list \<times> 'l event list"

definition stop_flush ::
  "'l consumer \<Rightarrow> stop_sequences \<Rightarrow> 'l sink \<Rightarrow> bool \<times> stop_sequences \<times> 'l sink" where
  "stop_flush breaks st sink =
     (if sq_held st = [] then (False, st, sink)
      else
        let text = sq_held st; from = sq_held_from st;
            st1 = st\<lparr>sq_held := [], sq_held_from := from + length text\<rparr>
        in (case deliver breaks (Content text) from (fst sink) (snd sink) of
              (flow, sink1) \<Rightarrow> (flow, st1, sink1)))"

definition stop_content ::
  "'l consumer \<Rightarrow> stop_sequences \<Rightarrow> string \<Rightarrow> nat \<Rightarrow> 'l sink \<Rightarrow> bool \<times> stop_sequences \<times> 'l sink" where
  "stop_content breaks st text offset sink =
     (if sq_matched st then (True, st, sink)
      else if sq_sequences st = [] then
        (case deliver breaks (Content text) offset (fst sink) (snd sink) of
           (flow, sink1) \<Rightarrow> (flow, st, sink1))
      else
        let st0 = (if sq_held st = [] then st\<lparr>sq_held_from := offset\<rparr> else st);
            held = sq_held st0 @ text;
            st1 = st0\<lparr>sq_held := held\<rparr>
        in case first_match (sq_sequences st1) held of
             Some at \<Rightarrow>
               (case stop_flush breaks (st1\<lparr>sq_held := take at held, sq_matched := True\<rparr>) sink of
                  (_, st2, sink1) \<Rightarrow> (True, st2, sink1))
           | None \<Rightarrow>
               let ready = length held - partial_match (sq_sequences st1) held in
               if ready = 0 then (False, st1, sink)
               else
                 let from = sq_held_from st1;
                     st2 = st1\<lparr>sq_held := drop ready held, sq_held_from := from + ready\<rparr>
                 in (case deliver breaks (Content (take ready held)) from (fst sink) (snd sink) of
                       (flow, sink1) \<Rightarrow> (flow, st2, sink1)))"

definition stop_event ::
  "'l consumer \<Rightarrow> stop_sequences \<Rightarrow> 'l event \<Rightarrow> nat \<Rightarrow> 'l sink \<Rightarrow> bool \<times> stop_sequences \<times> 'l sink" where
  "stop_event breaks st e offset sink =
     (case e of
        Content text \<Rightarrow> stop_content breaks st text offset sink
      | _ \<Rightarrow>
          if sq_matched st then (True, st, sink)
          else
            (case stop_flush breaks st sink of
               (True, st1, sink1) \<Rightarrow> (True, st1, sink1)
             | (False, st1, sink1) \<Rightarrow>
                 (case deliver breaks e offset (fst sink1) (snd sink1) of
                    (flow, sink2) \<Rightarrow> (flow, st1, sink2))))"

section \<open>The splitter\<close>

definition THINK_END :: string where "THINK_END = ''</think>''"

record event_splitter =
  es_thinking :: bool
  es_reasoning :: bool
  es_pending :: string
  es_answer_started :: bool
  es_tools :: "tool_parser option"
  es_stop :: stop_sequences
  es_generated :: nat
  es_parsed_from :: "nat option"

text \<open>\<open>tools\<close> are the validated tools of the request and where the counter of call ids stands.\<close>

definition splitter_new :: "bool \<Rightarrow> (tool_set \<times> nat) option \<Rightarrow> string list \<Rightarrow> event_splitter" where
  "splitter_new reasoning tools stop =
     \<lparr>es_thinking = reasoning, es_reasoning = reasoning, es_pending = [],
      es_answer_started = (\<not> reasoning),
      es_tools = map_option (\<lambda>(tools, counter). parser_new tools counter) tools,
      es_stop = stop_new stop, es_generated = 0, es_parsed_from = None\<rparr>"

definition splitter_failed :: "event_splitter \<Rightarrow> bool" where
  "splitter_failed es = (case es_tools es of Some p \<Rightarrow> tp_failure p \<noteq> None | None \<Rightarrow> False)"

definition splitter_take_failure :: "event_splitter \<Rightarrow> call_failure option \<times> event_splitter" where
  "splitter_take_failure es =
     (case es_tools es of
        Some p \<Rightarrow> (case take_failure p of (f, p1) \<Rightarrow> (f, es\<lparr>es_tools := Some p1\<rparr>))
      | None \<Rightarrow> (None, es))"

text \<open>What the tool-call parser sends goes to the stop sequences, at its place in the generated text.\<close>

definition stop_callback :: "'l consumer \<Rightarrow> nat \<Rightarrow> ('l, stop_sequences \<times> 'l sink) callback" where
  "stop_callback breaks base e at s = (case s of (st, sink) \<Rightarrow> stop_event breaks st e (base + at) sink)"

definition splitter_content ::
  "tool_env \<Rightarrow> 'l consumer \<Rightarrow> event_splitter \<Rightarrow> string \<Rightarrow> 'l sink \<Rightarrow> bool \<times> event_splitter \<times> 'l sink" where
  "splitter_content env breaks es piece sink =
     (let text = (if es_answer_started es then piece else dropWhile (\<lambda>c. c = CHR 0x0A) piece) in
      if text = [] then (False, es, sink)
      else
        let offset = es_generated es - length text;
            es1 = es\<lparr>es_answer_started := True,
                     es_parsed_from := (case es_parsed_from es of None \<Rightarrow> Some offset | b \<Rightarrow> b)\<rparr>
        in case es_tools es1 of
             None \<Rightarrow>
               (case stop_content breaks (es_stop es1) text offset sink of
                  (flow, st, sink1) \<Rightarrow> (flow, es1\<lparr>es_stop := st\<rparr>, sink1))
           | Some parser \<Rightarrow>
               let base = (case es_parsed_from es1 of Some b \<Rightarrow> b | None \<Rightarrow> offset) in
               (case feed env (stop_callback breaks base) parser text (es_stop es1, sink) of
                  (flow, parser1, st, sink1) \<Rightarrow>
                    (flow, es1\<lparr>es_stop := st, es_tools := Some parser1\<rparr>, sink1)))"

fun back_to_boundary :: "string \<Rightarrow> nat \<Rightarrow> nat" where
  "back_to_boundary s 0 = 0"
| "back_to_boundary s (Suc i) = (if is_char_boundary s (Suc i) then Suc i else back_to_boundary s i)"

definition flush_prefix ::
  "'l consumer \<Rightarrow> event_splitter \<Rightarrow> nat \<Rightarrow> 'l sink \<Rightarrow> bool \<times> event_splitter \<times> 'l sink" where
  "flush_prefix breaks es len sink =
     (let text = take len (es_pending es);
          es1 = es\<lparr>es_pending := drop len (es_pending es)\<rparr>;
          sent = es_generated es1 - length (es_pending es1);
          logprobs = dropWhile (\<lambda>s. sp_end s \<le> sent) (fst sink)
      in (case send breaks (Reasoning text) (snd sink) of
            (flow, out) \<Rightarrow> (flow, es1, (logprobs, out))))"

definition splitter_emit ::
  "tool_env \<Rightarrow> 'l consumer \<Rightarrow> event_splitter \<Rightarrow> string \<Rightarrow> 'l list \<Rightarrow> 'l sink \<Rightarrow> bool \<times> event_splitter \<times> 'l sink" where
  "splitter_emit env breaks es0 piece logprobs sink0 =
     (let start = es_generated es0;
          es = es0\<lparr>es_generated := start + length piece\<rparr>;
          sink = (if logprobs = [] then sink0
                  else (fst sink0 @ [\<lparr>sp_start = start, sp_end = es_generated es, sp_tokens = logprobs\<rparr>],
                        snd sink0))
      in if \<not> es_reasoning es then splitter_content env breaks es piece sink
         else
           let pending = es_pending es @ piece in
           case str_find THINK_END pending of
             Some boundary \<Rightarrow>
               let content = drop (boundary + length THINK_END) pending;
                   reasoning = take boundary pending;
                   es1 = es\<lparr>es_pending := [], es_reasoning := False\<rparr>
               in if reasoning \<noteq> [] then
                    (case send breaks (Reasoning reasoning) (snd sink) of
                       (True, out) \<Rightarrow> (True, es1, (fst sink, out))
                     | (False, out) \<Rightarrow> splitter_content env breaks es1 content (fst sink, out))
                  else splitter_content env breaks es1 content sink
           | None \<Rightarrow>
               let es1 = es\<lparr>es_pending := pending\<rparr>;
                   safe = back_to_boundary pending (length pending - (length THINK_END - 1))
               in if safe \<noteq> 0 then flush_prefix breaks es1 safe sink else (False, es1, sink))"

definition splitter_finish ::
  "'l consumer \<Rightarrow> event_splitter \<Rightarrow> stop_reason \<Rightarrow> 'l sink \<Rightarrow> bool \<times> event_splitter \<times> 'l sink" where
  "splitter_finish breaks es0 reason sink0 =
     (let (broke, es, sink) =
            (if es_pending es0 \<noteq> [] then
               let text = es_pending es0;
                   offset = es_generated es0 - length text;
                   es1 = es0\<lparr>es_pending := []\<rparr>
               in (case deliver breaks (if es_reasoning es0 then Reasoning text else Content text) offset
                          (fst sink0) (snd sink0) of
                     (flow, sink1) \<Rightarrow> (flow, es1, sink1))
             else (False, es0, sink0))
      in if broke then (True, es, sink)
         else
           let base = (case es_parsed_from es of Some b \<Rightarrow> b | None \<Rightarrow> es_generated es);
               (flow, es1, sink1) =
                 (case es_tools es of
                    None \<Rightarrow> (False, es, sink)
                  | Some parser \<Rightarrow>
                      (case parser_finish (stop_callback breaks base) parser reason (es_stop es, sink) of
                         (flow, parser1, st, sink1) \<Rightarrow>
                           (flow, es\<lparr>es_stop := st, es_tools := Some parser1\<rparr>, sink1)))
           in if flow then (True, es1, sink1)
              else
                (case stop_flush breaks (es_stop es1) sink1 of
                   (flow, st, sink2) \<Rightarrow> (flow, es1\<lparr>es_stop := st\<rparr>, sink2)))"

definition splitter_close ::
  "'l consumer \<Rightarrow> event_splitter \<Rightarrow> stop_reason \<Rightarrow> 'l sink
   \<Rightarrow> (bool \<times> stop_reason) \<times> event_splitter \<times> 'l sink" where
  "splitter_close breaks es reason sink =
     (if splitter_failed es then ((True, reason), es, sink)
      else if \<not> sq_matched (es_stop es) then
        let reason1 = (if reason = Stopped then Cancelled else reason) in
        (case splitter_finish breaks es reason1 sink of
           (flow, es1, sink1) \<Rightarrow>
             if \<not> sq_matched (es_stop es1) then ((flow, reason1), es1, sink1)
             else ((False, Stopped), es1, sink1))
      else ((False, Stopped), es, sink))"

text \<open>
  A generation: the engine hands over each piece with its log-probabilities until the splitter
  refuses one, which stops the engine for \<open>Stopped\<close>; \<open>pieces\<close> is what it would generate and
  \<open>reason\<close> why it would stop by itself.
\<close>

fun split_pieces ::
  "tool_env \<Rightarrow> 'l consumer \<Rightarrow> event_splitter \<Rightarrow> (string \<times> 'l list) list \<Rightarrow> 'l sink
   \<Rightarrow> bool \<times> event_splitter \<times> 'l sink" where
  "split_pieces env breaks es [] sink = (False, es, sink)"
| "split_pieces env breaks es ((piece, logprobs) # rest) sink =
     (case splitter_emit env breaks es piece logprobs sink of
        (True, es1, sink1) \<Rightarrow> (True, es1, sink1)
      | (False, es1, sink1) \<Rightarrow> split_pieces env breaks es1 rest sink1)"

definition think_end_id :: u32 where "think_end_id = 248069"

definition answer_start :: "u32 list \<Rightarrow> bool \<Rightarrow> nat option" where
  "answer_start ids thinking =
     (if thinking then map_option Suc (position (\<lambda>i. i = think_end_id) ids) else Some 0)"

text \<open>A tool-call failure is the error of the generation.\<close>

definition close_generation ::
  "'l consumer \<Rightarrow> event_splitter \<Rightarrow> u32 list \<Rightarrow> stop_reason \<Rightarrow> 'l sink
   \<Rightarrow> (call_failure + stats) \<times> 'l event list" where
  "close_generation breaks es token_ids reason sink =
     (let reasoning_tokens =
            (case answer_start token_ids (es_thinking es) of
               Some n \<Rightarrow> n | None \<Rightarrow> length token_ids)
      in case splitter_close breaks es reason sink of
           ((finished, stop_reason), es1, sink1) \<Rightarrow>
             (case splitter_take_failure es1 of
                (Some failure, _) \<Rightarrow> (Inl failure, snd sink1)
              | (None, _) \<Rightarrow>
                  let stats = \<lparr>stats_stop_reason = stop_reason, stats_reasoning_tokens = reasoning_tokens\<rparr>
                  in if finished then (Inr (stats\<lparr>stats_stop_reason := Cancelled\<rparr>), snd sink1)
                     else (case send breaks (TokenIds token_ids) (snd sink1) of
                             (True, out) \<Rightarrow> (Inr (stats\<lparr>stats_stop_reason := Cancelled\<rparr>), out)
                           | (False, out) \<Rightarrow> (Inr stats, snd (send breaks (Finished stats) out)))))"

definition generate ::
  "tool_env \<Rightarrow> 'l consumer \<Rightarrow> bool \<Rightarrow> (tool_set \<times> nat) option \<Rightarrow> string list \<Rightarrow> (string \<times> 'l list) list
   \<Rightarrow> u32 list \<Rightarrow> stop_reason \<Rightarrow> (call_failure + stats) \<times> 'l event list" where
  "generate env breaks thinking tools stop pieces token_ids reason =
     (case split_pieces env breaks (splitter_new thinking tools stop) pieces ([], []) of
        (refused, es, sink) \<Rightarrow>
          close_generation breaks es token_ids (if refused then Stopped else reason) sink)"

text \<open>An end of the text that begins a sequence stops at a boundary of the sequence.\<close>

lemma partial_at_boundary:
  assumes "utf8 s" "utf8 q" "suffix (take n q) s" "0 < n" "n < length q"
  shows "is_char_boundary q n"
proof -
  obtain c q' where q: "q = c # q'" using assms(5) by (cases q) auto
  obtain h where s: "s = h @ take n q" using assms(3) by (auto simp: suffix_def)
  have "\<not> continuation_byte c" using assms(2) q by (auto simp: Let_def utf8_len_continuation)
  then have "utf8 (drop (length h) s)"
    using assms(1,4,5) s q by (intro utf8_drop) (auto simp: nth_append)
  then have "utf8 (take n q)" using s by simp
  moreover have "utf8 (take n q @ drop n q)" using assms(2) by simp
  ultimately have "\<not> continuation_byte (hd (drop n q))"
    using utf8_prefix_boundary [of "take n q" "drop n q"] assms(5) by simp
  then show ?thesis using assms(5) by (simp add: is_char_boundary_def hd_drop_conv_nth)
qed

section \<open>What the consumer has read\<close>

fun event_content :: "'l event \<Rightarrow> string" where
  "event_content (Content t) = t"
| "event_content _ = []"

fun event_reasoning :: "'l event \<Rightarrow> string" where
  "event_reasoning (Reasoning t) = t"
| "event_reasoning _ = []"

definition contents :: "'l event list \<Rightarrow> string" where
  "contents out = concat (map event_content out)"

definition reasonings :: "'l event list \<Rightarrow> string" where
  "reasonings out = concat (map event_reasoning out)"

text \<open>The visible text and the calls read.\<close>

definition heard :: "'l event list \<Rightarrow> (char + string \<times> json) list" where
  "heard out = concat (map event_reads out)"

lemma heard_simps [simp]:
  "heard [] = []" "heard (a @ b) = heard a @ heard b" "heard (e # b) = event_reads e @ heard b"
  by (simp_all add: heard_def)

lemma contents_simps [simp]:
  "contents [] = []" "contents (a @ b) = contents a @ contents b" "contents (e # b) = event_content e @ contents b"
  by (simp_all add: contents_def)

lemma reasonings_simps [simp]:
  "reasonings [] = []" "reasonings (a @ b) = reasonings a @ reasonings b"
  "reasonings (e # b) = event_reasoning e @ reasonings b"
  by (simp_all add: reasonings_def)

text \<open>A consumer that listens to the end reads every event delivered, and no other text.\<close>

abbreviation listening :: "'l consumer" where "listening \<equiv> \<lambda>_. False"

lemma deliver_listening:
  obtains lp' out' where "deliver listening e offset lp out = (False, lp', out')"
    and "contents out' = contents out @ event_content e"
    and "reasonings out' = reasonings out @ event_reasoning e"
proof -
  define r where "r = deliver listening e offset lp out"
  have "\<not> fst r" "contents (snd (snd r)) = contents out @ event_content e"
    "reasonings (snd (snd r)) = reasonings out @ event_reasoning e"
    by (simp_all add: r_def deliver_def send_def split: event.split prod.split)
  then show thesis using that [of "fst (snd r)" "snd (snd r)"] by (simp add: r_def prod_eq_iff)
qed

section \<open>Matching stop sequences\<close>

lemma first_match_None:
  "first_match sequences s = None \<longleftrightarrow> (\<forall>q\<in>set sequences. str_find q s = None)"
  by (auto simp: first_match_def Let_def List.map_filter_def filter_empty_conv)

lemma first_match_shift:
  assumes "\<And>q. q \<in> set sequences \<Longrightarrow> str_find q s = map_option ((+) d) (str_find q t)"
  shows "first_match sequences s = map_option ((+) d) (first_match sequences t)"
proof -
  have "List.map_filter (\<lambda>q. str_find q s) sequences
        = map ((+) d) (List.map_filter (\<lambda>q. str_find q t) sequences)"
    using assms by (induction sequences) (auto simp: List.map_filter_simps split: option.splits)
  moreover have "Min ((+) d ` set xs) = d + Min (set xs)" if "xs \<noteq> []" for xs :: "nat list"
    using mono_Min_commute [of "(+) d" "set xs"] that by (simp add: mono_def)
  ultimately show ?thesis by (simp add: first_match_def Let_def)
qed

lemma foldr_max_ge: "x \<in> set xs \<Longrightarrow> x \<le> foldr max xs (0::nat)"
  by (induction xs) auto

lemma foldr_max_le: "\<forall>x\<in>set xs. x \<le> n \<Longrightarrow> foldr max xs (0::nat) \<le> n"
  by (induction xs) auto

lemma partial_lengths_mem:
  "n \<in> set (partial_lengths held q) \<longleftrightarrow>
     0 < n \<and> n < length q \<and> n \<le> length held \<and> is_char_boundary q n \<and> suffix (take n q) held"
  by (auto simp: partial_lengths_def ends_with_def)

lemma partial_lengths_head:
  assumes "n \<in> set (partial_lengths held q)"
  obtains m ms where "partial_lengths held q = m # ms" "n \<le> m" "m \<in> set (partial_lengths held q)"
proof -
  have "sorted (rev (partial_lengths held q))"
    using sorted_wrt_filter [of "(\<le>)" "[1..<min (length q) (length held + 1)]"]
    by (simp add: partial_lengths_def rev_filter)
  with assms that show thesis
    by (cases "partial_lengths held q") (auto simp: sorted_append)
qed

lemma partial_match_le: "partial_match sequences held \<le> length held"
  unfolding partial_match_def
proof (rule foldr_max_le, rule ballI)
  fix n
  assume "n \<in> set (List.map_filter (\<lambda>sequence. case partial_lengths held sequence of
                     [] \<Rightarrow> None | l # _ \<Rightarrow> Some l) sequences)"
  then obtain q where "(case partial_lengths held q of [] \<Rightarrow> None | l # _ \<Rightarrow> Some l) = Some n"
    by (auto simp: set_map_filter)
  then have "n \<in> set (partial_lengths held q)" by (auto split: list.splits)
  then show "n \<le> length held" by (simp add: partial_lengths_mem)
qed

lemma partial_match_ge:
  assumes "q \<in> set sequences" "n \<in> set (partial_lengths held q)"
  shows "n \<le> partial_match sequences held"
proof -
  obtain m ms where m: "partial_lengths held q = m # ms" "n \<le> m"
    using partial_lengths_head [OF assms(2)] by blast
  have "m \<le> partial_match sequences held"
    unfolding partial_match_def
    by (rule foldr_max_ge) (use assms(1) m(1) in \<open>force simp: set_map_filter\<close>)
  then show ?thesis using m(2) by simp
qed

text \<open>
  The stop matcher after the text \<open>T\<close>: no sequence occurs in it, and every end of \<open>T\<close> that begins
  a sequence lies in the held text.
\<close>

definition stop_ok :: "string \<Rightarrow> stop_sequences \<Rightarrow> bool" where
  "stop_ok T st \<longleftrightarrow> \<not> sq_matched st \<and> suffix (sq_held st) T \<and> utf8 T \<and>
     (sq_sequences st = [] \<longrightarrow> sq_held st = []) \<and>
     (\<forall>q\<in>set (sq_sequences st). q \<noteq> [] \<and> utf8 q \<and> str_find q T = None \<and>
        (\<forall>n. 0 < n \<and> n < length q \<and> suffix (take n q) T \<longrightarrow> n \<le> length (sq_held st)))"

lemma stop_ok_find:
  assumes "stop_ok T st" "q \<in> set (sq_sequences st)"
  shows "str_find q (T @ p) = map_option ((+) (length T - length (sq_held st))) (str_find q (sq_held st @ p))"
proof -
  define d where "d = length T - length (sq_held st)"
  have len: "length (sq_held st) \<le> length T"
    and held: "drop d T = sq_held st"
    using assms(1) by (auto simp: stop_ok_def d_def suffix_def)
  have none: "str_find q T = None"
    and part: "\<And>n. 0 < n \<Longrightarrow> n < length q \<Longrightarrow> suffix (take n q) T \<Longrightarrow> n \<le> length (sq_held st)"
    using assms by (auto simp: stop_ok_def)
  have "\<not> prefix q (drop j (T @ p))" if j: "j < d" for j
  proof
    assume "prefix q (drop j (T @ p))"
    then have pre: "prefix q (drop j T @ p)" using j by (simp add: d_def)
    moreover have "\<not> prefix q (drop j T)" using none j by (auto simp: str_find_None d_def)
    ultimately obtain u where u: "q = drop j T @ u" "u \<noteq> []" "prefix u p"
      by (auto simp: prefix_append)
    have "suffix (take (length T - j) q) T"
      using u j by (simp add: d_def suffix_drop)
    moreover have "0 < length T - j" "length T - j < length q"
      using u(1) j length_greater_0_conv [of u] u(2) unfolding d_def by (simp, simp, linarith)
    ultimately have "length T - j \<le> length (sq_held st)" using part by blast
    then show False using j by (simp add: d_def)
  qed
  then show ?thesis
    using str_find_shift [of d "T @ p" q] held by (simp add: d_def [symmetric]) (simp add: d_def)
qed

lemma stop_ok_first_match:
  assumes "stop_ok T st"
  shows "first_match (sq_sequences st) (T @ p)
    = map_option ((+) (length T - length (sq_held st))) (first_match (sq_sequences st) (sq_held st @ p))"
  by (rule first_match_shift) (rule stop_ok_find [OF assms])

text \<open>Holding back the longest partial match keeps the invariant.\<close>

lemma stop_ok_advance:
  assumes ok: "stop_ok T st" and p: "utf8 p"
    and none: "first_match (sq_sequences st) (T @ p) = None"
    and st': "sq_sequences st' = sq_sequences st" "\<not> sq_matched st'"
      "sq_sequences st = [] \<longrightarrow> sq_held st' = []"
      "sq_sequences st \<noteq> [] \<longrightarrow>
        sq_held st' = drop (length (sq_held st @ p) - partial_match (sq_sequences st) (sq_held st @ p)) (sq_held st @ p)"
  shows "stop_ok (T @ p) st'"
proof -
  define held where "held = sq_held st @ p"
  obtain h where T: "T = h @ sq_held st" using ok by (auto simp: stop_ok_def suffix_def)
  have Tp: "T @ p = h @ held" by (simp add: T held_def)
  have utf8: "utf8 (T @ p)" using ok p by (auto simp: stop_ok_def intro: utf8_append)
  have len: "length (sq_held st') = partial_match (sq_sequences st) held" if "sq_sequences st \<noteq> []"
    using st'(4) that partial_match_le [of "sq_sequences st" held] by (simp add: held_def)
  have part: "n \<le> length (sq_held st')"
    if q: "q \<in> set (sq_sequences st)" and n: "0 < n" "n < length q" "suffix (take n q) (T @ p)" for q n
  proof (cases "n \<le> length held")
    case True
    have "is_char_boundary q n"
      using partial_at_boundary [of "T @ p" q n] utf8 ok q n by (auto simp: stop_ok_def)
    moreover have "suffix (take n q) held"
      using n True suffix_length_suffix [of "take n q" "T @ p" held] by (simp add: Tp suffix_def)
    ultimately have "n \<in> set (partial_lengths held q)"
      using True n by (simp add: partial_lengths_mem)
    then show ?thesis using partial_match_ge [OF q] len q by (metis empty_iff list.set(1))
  next
    case False
    define m where "m = n - length p"
    have m: "0 < m" "length (sq_held st) < m" "m < length q" using False n by (auto simp: m_def held_def)
    obtain u where u: "T @ p = u @ take n q" using n(3) by (auto simp: suffix_def)
    have "T = take (length T) (u @ take n q)" by (metis append_eq_conv_conj u)
    moreover have "length T - length u = m"
      using arg_cong [OF u, of length] n False by (simp add: m_def held_def)
    moreover have "length u \<le> length T" using calculation m by linarith
    ultimately have "T = u @ take m q" using m_def by simp
    then have "suffix (take m q) T" by (auto simp: suffix_def)
    then have "m \<le> length (sq_held st)" using ok q m unfolding stop_ok_def by blast
    then show ?thesis using m(2) by simp
  qed
  have suf: "suffix (sq_held st') (T @ p)"
    using st'(3,4) by (cases "sq_sequences st = []") (auto simp: Tp held_def [symmetric] intro: suffix_appendI suffix_drop)
  show ?thesis
    unfolding stop_ok_def
    using st' suf utf8 part none ok by (auto simp: first_match_None stop_ok_def)
qed

definition stop_read :: "string \<Rightarrow> stop_sequences \<Rightarrow> 'l event list \<Rightarrow> bool" where
  "stop_read T st out \<longleftrightarrow> stop_ok T st \<and> contents out @ sq_held st = T"

lemma stop_flush_listening:
  obtains st' lp' out' where "stop_flush listening st (lp, out) = (False, st', (lp', out'))"
    and "contents out' = contents out @ sq_held st" "reasonings out' = reasonings out"
    and "sq_held st' = []" "sq_matched st' = sq_matched st" "sq_sequences st' = sq_sequences st"
proof (cases "sq_held st = []")
  case True
  then show thesis using that [of st lp out] by (simp add: stop_flush_def)
next
  case False
  obtain lp' out' where "deliver listening (Content (sq_held st)) (sq_held_from st) lp out = (False, lp', out')"
    "contents out' = contents out @ sq_held st" "reasonings out' = reasonings out"
    using deliver_listening [of "Content (sq_held st)" "sq_held_from st" lp out] by auto
  then show thesis using that False by (simp add: stop_flush_def Let_def)
qed

text \<open>The state with the piece appended to the held text.\<close>

definition stop_hold :: "stop_sequences \<Rightarrow> string \<Rightarrow> nat \<Rightarrow> stop_sequences" where
  "stop_hold st p offset =
     (if sq_held st = [] then st\<lparr>sq_held_from := offset\<rparr> else st)\<lparr>sq_held := sq_held st @ p\<rparr>"

lemma stop_hold_fields [simp]:
  "sq_sequences (stop_hold st p offset) = sq_sequences st"
  "sq_held (stop_hold st p offset) = sq_held st @ p"
  "sq_matched (stop_hold st p offset) = sq_matched st"
  by (simp_all add: stop_hold_def)

lemma stop_content_hold:
  assumes "\<not> sq_matched st" "sq_sequences st \<noteq> []"
  shows "stop_content breaks st p offset sink =
    (case first_match (sq_sequences st) (sq_held st @ p) of
       Some at \<Rightarrow>
         (case stop_flush breaks ((stop_hold st p offset)\<lparr>sq_held := take at (sq_held st @ p), sq_matched := True\<rparr>) sink of
            (_, st2, sink1) \<Rightarrow> (True, st2, sink1))
     | None \<Rightarrow>
         let held = sq_held st @ p; ready = length held - partial_match (sq_sequences st) held in
         if ready = 0 then (False, stop_hold st p offset, sink)
         else (case deliver breaks (Content (take ready held)) (sq_held_from (stop_hold st p offset)) (fst sink) (snd sink) of
                 (flow, sink1) \<Rightarrow> (flow, (stop_hold st p offset)\<lparr>sq_held := drop ready held,
                      sq_held_from := sq_held_from (stop_hold st p offset) + ready\<rparr>, sink1)))"
proof -
  define st0 where "st0 = (if sq_held st = [] then st\<lparr>sq_held_from := offset\<rparr> else st)"
  have "stop_hold st p offset = st0\<lparr>sq_held := sq_held st @ p\<rparr>"
    "sq_held st0 = sq_held st" "sq_sequences st0 = sq_sequences st"
    by (simp_all add: st0_def stop_hold_def)
  then show ?thesis
    using assms by (simp add: stop_content_def st0_def [symmetric] Let_def cong: option.case_cong)
qed

lemma stop_content_none:
  assumes "stop_read T st out" "utf8 p" "first_match (sq_sequences st) (T @ p) = None"
  obtains st' lp' out' where
      "stop_content listening st p offset (lp, out) = (False, st', (lp', out'))"
      "stop_read (T @ p) st' out'" "reasonings out' = reasonings out" "sq_sequences st' = sq_sequences st"
proof (cases "sq_sequences st = []")
  case True
  have ok: "stop_ok T st" "sq_held st = []" "T = contents out" "\<not> sq_matched st"
    using assms(1) True by (auto simp: stop_read_def stop_ok_def)
  obtain lp' out' where d: "deliver listening (Content p) offset lp out = (False, lp', out')"
    "contents out' = contents out @ p" "reasonings out' = reasonings out"
    using deliver_listening [of "Content p" offset lp out] by auto
  have "stop_ok (T @ p) st" using stop_ok_advance [OF ok(1) assms(2,3), of st] ok True by simp
  then show thesis using that [of st lp' out'] d True ok by (simp add: stop_content_def stop_read_def)
next
  case False
  define held where "held = sq_held st @ p"
  define ready where "ready = length held - partial_match (sq_sequences st) held"
  have ok: "stop_ok T st" and T: "T = contents out @ sq_held st" and unmatched: "\<not> sq_matched st"
    using assms(1) by (auto simp: stop_read_def stop_ok_def)
  have none: "first_match (sq_sequences st) held = None"
    using stop_ok_first_match [OF ok, of p] assms(3) by (simp add: held_def)
  have next_ok: "stop_ok (T @ p) st'"
    if "sq_sequences st' = sq_sequences st" "\<not> sq_matched st'" "sq_held st' = drop ready held" for st'
    using stop_ok_advance [OF ok assms(2,3) that(1,2)] that(3) False by (simp add: held_def ready_def)
  note run = stop_content_hold [OF unmatched False, of listening p offset "(lp, out)",
      folded held_def, unfolded none option.case Let_def, folded ready_def]
  show thesis
  proof (cases "ready = 0")
    case True
    then have "stop_read (T @ p) (stop_hold st p offset) out"
      using next_ok [of "stop_hold st p offset"] unmatched by (simp add: stop_read_def T held_def)
    then show thesis using that True run by simp
  next
    case ready: False
    obtain lp' out' where
      "deliver listening (Content (take ready held)) (sq_held_from (stop_hold st p offset)) lp out = (False, lp', out')"
      "contents out' = contents out @ take ready held" "reasonings out' = reasonings out"
      using deliver_listening [of "Content (take ready held)" "sq_held_from (stop_hold st p offset)" lp out]
      by auto
    note d = this
    define st2 where "st2 = (stop_hold st p offset)\<lparr>sq_held := drop ready held,
      sq_held_from := sq_held_from (stop_hold st p offset) + ready\<rparr>"
    have st2: "sq_sequences st2 = sq_sequences st" "\<not> sq_matched st2" "sq_held st2 = drop ready held"
      using unmatched by (simp_all add: st2_def)
    have "T @ p = contents out @ held" by (simp add: T held_def)
    then have "stop_read (T @ p) st2 out'" using next_ok [OF st2] st2(3) d(2) by (simp add: stop_read_def)
    moreover have "stop_content listening st p offset (lp, out) = (False, st2, (lp', out'))"
      using run ready d(1) by (simp add: st2_def)
    ultimately show thesis using that d(3) st2(1) by metis
  qed
qed

lemma stop_content_hit:
  assumes "stop_read T st out" "first_match (sq_sequences st) (T @ p) = Some at"
  obtains st' lp' out' where
      "stop_content listening st p offset (lp, out) = (True, st', (lp', out'))"
      "contents out' = take at (T @ p)" "reasonings out' = reasonings out"
      "sq_matched st'" "sq_held st' = []"
proof -
  have ok: "stop_ok T st" and T: "T = contents out @ sq_held st" and unmatched: "\<not> sq_matched st"
    using assms(1) by (auto simp: stop_read_def stop_ok_def)
  have seqs: "sq_sequences st \<noteq> []" using assms(2) by (auto simp: first_match_def List.map_filter_simps)
  obtain k where k: "first_match (sq_sequences st) (sq_held st @ p) = Some k" "at = length (contents out) + k"
    using stop_ok_first_match [OF ok, of p] assms(2) T by auto
  define st1 where "st1 = (stop_hold st p offset)\<lparr>sq_held := take k (sq_held st @ p), sq_matched := True\<rparr>"
  have st1: "sq_held st1 = take k (sq_held st @ p)" "sq_matched st1" by (simp_all add: st1_def)
  obtain st2 lp' out' where f: "stop_flush listening st1 (lp, out) = (False, st2, (lp', out'))"
    "contents out' = contents out @ sq_held st1" "reasonings out' = reasonings out"
    "sq_held st2 = []" "sq_matched st2 = sq_matched st1"
    using stop_flush_listening [of st1 lp out] by metis
  have "stop_content listening st p offset (lp, out) = (True, st2, (lp', out'))"
    using stop_content_hold [OF unmatched seqs, of listening p offset "(lp, out)"] k(1) f(1)
    by (simp add: st1_def)
  moreover have "contents out' = take at (T @ p)" using f(2) st1 k(2) T by simp
  ultimately show thesis using that f st1 by metis
qed

section \<open>The split, independent of the pieces\<close>

text \<open>What a generation \<open>G\<close> is to be read as: the reasoning up to the first \<open></think>\<close>, and the answer
  after it without its leading newlines.\<close>

definition reasoning_text :: "bool \<Rightarrow> string \<Rightarrow> string" where
  "reasoning_text thinking G =
     (if thinking then case str_find THINK_END G of None \<Rightarrow> G | Some b \<Rightarrow> take b G else [])"

definition answer_text :: "bool \<Rightarrow> string \<Rightarrow> string" where
  "answer_text thinking G =
     (if thinking then
        case str_find THINK_END G of
          None \<Rightarrow> []
        | Some b \<Rightarrow> dropWhile (\<lambda>c. c = CHR 0x0A) (drop (b + length THINK_END) G)
      else G)"



lemma answer_text_append:
  "answer_text thinking (G @ p) = answer_text thinking G @ p"
  if "\<not> thinking \<or> answer_text thinking G \<noteq> []"
  using that str_find_append [of THINK_END G _ p] str_find_length [of THINK_END G]
  by (auto simp: answer_text_def dropWhile_snoc split: option.splits)

lemma answer_text_append_blank:
  assumes "thinking" "str_find THINK_END G \<noteq> None" "answer_text thinking G = []"
  shows "answer_text thinking (G @ p) = dropWhile (\<lambda>c. c = CHR 0x0A) p"
  using assms str_find_append [of THINK_END G _ p] str_find_length [of THINK_END G]
  by (auto simp: answer_text_def dropWhile_snoc split: option.splits)

lemma reasoning_text_append:
  "reasoning_text thinking (G @ p) = reasoning_text thinking G"
  if "thinking \<longrightarrow> str_find THINK_END G \<noteq> None"
  using that str_find_append [of THINK_END G _ p] str_find_length [of THINK_END G]
  by (auto simp: reasoning_text_def)

lemma answer_text_prefix: "prefix (answer_text thinking G) (answer_text thinking (G @ p))"
proof (cases "\<not> thinking \<or> answer_text thinking G \<noteq> []")
  case True
  then show ?thesis using answer_text_append [of thinking G p] by simp
qed auto

lemma utf8_newline [simp]: "utf8 (CHR 0x0A # s) = utf8 s"
  by (simp add: Let_def utf8_len.simps)

lemma utf8_dropWhile_newline: "utf8 s \<Longrightarrow> utf8 (dropWhile (\<lambda>c. c = CHR 0x0A) s)"
  by (induction s) (auto simp del: utf8.simps)

lemma THINK_END_length [simp]: "length THINK_END = 8" "THINK_END \<noteq> []"
  by (simp_all add: THINK_END_def)

lemma utf8_after_think:
  assumes "utf8 G" "str_find THINK_END G = Some b"
  shows "utf8 (drop (b + 8) G)"
proof -
  obtain r where r: "drop b G = THINK_END @ r" using assms(2) by (auto simp: str_find_Some prefix_def)
  have b: "b < length G" using str_find_length [OF assms(2)] by simp
  then have "G ! b = CHR ''<''" using r by (metis Cons_eq_appendI Cons_nth_drop_Suc THINK_END_def list.inject)
  then have "utf8 (THINK_END @ r)"
    using utf8_drop [OF assms(1) b] r by (simp add: continuation_byte_def)
  then have "utf8 r" by (simp add: THINK_END_def Let_def utf8_len.simps)
  moreover have "drop (b + 8) G = r" using r by (metis THINK_END_length(1) add.commute append_eq_conv_conj drop_drop)
  ultimately show ?thesis by simp
qed

lemma utf8_answer_text: "utf8 G \<Longrightarrow> utf8 (answer_text thinking G)"
  using utf8_after_think by (auto simp: answer_text_def utf8_dropWhile_newline split: option.splits)

text \<open>The splitter after the text \<open>G\<close>: still reasoning, in the answer, or past a stop sequence.\<close>

definition in_reasoning :: "bool \<Rightarrow> tool_parser option \<Rightarrow> string list \<Rightarrow> string \<Rightarrow> event_splitter \<Rightarrow> 'l event list \<Rightarrow> bool" where
  "in_reasoning thinking tools stop G es out \<longleftrightarrow>
     thinking \<and> es_reasoning es \<and> \<not> es_answer_started es \<and> str_find THINK_END G = None \<and>
     G = reasonings out @ es_pending es \<and> (reasonings out = [] \<or> 7 \<le> length (es_pending es)) \<and>
     contents out = [] \<and> heard out = [] \<and> es_stop es = stop_new stop \<and> es_tools es = tools \<and> utf8 G"

definition in_answer :: "bool \<Rightarrow> string list \<Rightarrow> string \<Rightarrow> event_splitter \<Rightarrow> 'l event list \<Rightarrow> bool" where
  "in_answer thinking stop G es out \<longleftrightarrow>
     \<not> es_reasoning es \<and> es_pending es = [] \<and> reasonings out = reasoning_text thinking G \<and>
     (thinking \<longrightarrow> str_find THINK_END G \<noteq> None) \<and>
     (es_answer_started es \<longleftrightarrow> \<not> thinking \<or> answer_text thinking G \<noteq> []) \<and>
     sq_sequences (es_stop es) = filter (\<lambda>q. q \<noteq> []) stop \<and>
     stop_read (answer_text thinking G) (es_stop es) out \<and> es_tools es = None \<and> utf8 G"

definition at_stop :: "bool \<Rightarrow> string list \<Rightarrow> string \<Rightarrow> event_splitter \<Rightarrow> 'l event list \<Rightarrow> bool" where
  "at_stop thinking stop G es out \<longleftrightarrow>
     sq_matched (es_stop es) \<and> sq_held (es_stop es) = [] \<and> es_pending es = [] \<and> es_tools es = None \<and>
     reasonings out = reasoning_text thinking G \<and> (thinking \<longrightarrow> str_find THINK_END G \<noteq> None) \<and>
     (\<exists>A at. prefix A (answer_text thinking G) \<and>
        first_match (filter (\<lambda>q. q \<noteq> []) stop) A = Some at \<and> contents out = take at A)"

lemma stop_ok_new: "list_all utf8 stop \<Longrightarrow> stop_ok [] (stop_new stop)"
  by (auto simp: stop_ok_def stop_new_def list_all_iff str_find_None prefix_Nil)

text \<open>A piece of the answer: \<open>es\<close> has taken in \<open>G\<close>, and its answer so far is \<open>T\<close>.\<close>

lemma splitter_content_step:
  fixes out :: "'l event list"
  assumes stop: "stop_read T (es_stop es) out" "sq_sequences (es_stop es) = filter (\<lambda>q. q \<noteq> []) stop"
    and es: "\<not> es_reasoning es" "es_pending es = []" "es_tools es = None"
    and read: "reasonings out = reasoning_text thinking G" "thinking \<longrightarrow> str_find THINK_END G \<noteq> None"
    and started: "es_answer_started es \<longleftrightarrow> \<not> thinking \<or> T \<noteq> []"
    and A: "answer_text thinking G =
              T @ (if es_answer_started es then p else dropWhile (\<lambda>c. c = CHR 0x0A) p)"
    and utf8: "utf8 G" "utf8 p"
  obtains es' lp' out' where
      "splitter_content env listening es p (lp, out) = (False, es', (lp', out'))"
      "in_answer thinking stop G es' out'"
  | es' lp' out' where
      "splitter_content env listening es p (lp, out) = (True, es', (lp', out'))"
      "at_stop thinking stop G es' out'"
proof -
  define w where "w = (if es_answer_started es then p else dropWhile (\<lambda>c. c = CHR 0x0A) p)"
  have utf8_w: "utf8 w" using utf8 by (simp add: w_def utf8_dropWhile_newline)
  have AT: "answer_text thinking G = T @ w" using A by (simp add: w_def)
  show thesis
  proof (cases "w = []")
    case True
    then have "splitter_content env listening es p (lp, out) = (False, es, (lp, out))"
      by (simp add: splitter_content_def w_def)
    moreover have "in_answer thinking stop G es out"
      using True AT assms by (simp add: in_answer_def)
    ultimately show thesis using that by metis
  next
    case False
    define off where "off = es_generated es - length w"
    define es1 where "es1 = es\<lparr>es_answer_started := True,
      es_parsed_from := (case es_parsed_from es of None \<Rightarrow> Some off | b \<Rightarrow> b)\<rparr>"
    have run: "splitter_content env listening es p (lp, out) =
        (case stop_content listening (es_stop es) w off (lp, out) of
           (flow, st, sink1) \<Rightarrow> (flow, es1\<lparr>es_stop := st\<rparr>, sink1))"
      using False es(3) unfolding es1_def off_def by (simp add: splitter_content_def w_def [symmetric] Let_def)
    show thesis
    proof (cases "first_match (sq_sequences (es_stop es)) (T @ w)")
      case None
      obtain st' lp' out' where step:
        "stop_content listening (es_stop es) w off (lp, out) = (False, st', (lp', out'))"
        "stop_read (T @ w) st' out'" "reasonings out' = reasonings out"
        "sq_sequences st' = sq_sequences (es_stop es)"
        using stop_content_none [OF stop(1) utf8_w None] by metis
      have "in_answer thinking stop G (es1\<lparr>es_stop := st'\<rparr>) out'"
        using step AT assms False by (simp add: in_answer_def es1_def)
      then show thesis using that(1) run step(1) by simp
    next
      case (Some at)
      obtain st' lp' out' where step:
        "stop_content listening (es_stop es) w off (lp, out) = (True, st', (lp', out'))"
        "contents out' = take at (T @ w)" "reasonings out' = reasonings out"
        "sq_matched st'" "sq_held st' = []"
        using stop_content_hit [OF stop(1) Some] by metis
      have "at_stop thinking stop G (es1\<lparr>es_stop := st'\<rparr>) out'"
        using step AT assms Some
        by (auto simp: at_stop_def es1_def intro!: exI [of _ "T @ w"] exI [of _ at])
      then show thesis using that(2) run step(1) by simp
    qed
  qed
qed

text \<open>Appending a piece and its log-probabilities, before the text is looked at.\<close>

definition emit_start :: "event_splitter \<Rightarrow> string \<Rightarrow> event_splitter" where
  "emit_start es piece = es\<lparr>es_generated := es_generated es + length piece\<rparr>"

definition emit_sink :: "event_splitter \<Rightarrow> string \<Rightarrow> 'l list \<Rightarrow> 'l sink \<Rightarrow> 'l sink" where
  "emit_sink es piece logprobs sink =
     (if logprobs = [] then sink
      else (fst sink @ [\<lparr>sp_start = es_generated es, sp_end = es_generated es + length piece,
                         sp_tokens = logprobs\<rparr>], snd sink))"

lemma emit_start_fields [simp]:
  "es_reasoning (emit_start es p) = es_reasoning es" "es_pending (emit_start es p) = es_pending es"
  "es_stop (emit_start es p) = es_stop es" "es_answer_started (emit_start es p) = es_answer_started es"
  "es_tools (emit_start es p) = es_tools es"
  by (simp_all add: emit_start_def)

lemma snd_emit_sink [simp]: "snd (emit_sink es p l sink) = snd sink"
  by (simp add: emit_sink_def)

lemma splitter_emit_start:
  "splitter_emit env breaks es piece logprobs sink =
     (let es0 = emit_start es piece; sink0 = emit_sink es piece logprobs sink;
          pending = es_pending es @ piece in
      if \<not> es_reasoning es then splitter_content env breaks es0 piece sink0
      else case str_find THINK_END pending of
             Some boundary \<Rightarrow>
               let es1 = es0\<lparr>es_pending := [], es_reasoning := False\<rparr> in
               if take boundary pending \<noteq> [] then
                 (case send breaks (Reasoning (take boundary pending)) (snd sink0) of
                    (True, out) \<Rightarrow> (True, es1, (fst sink0, out))
                  | (False, out) \<Rightarrow> splitter_content env breaks es1 (drop (boundary + 8) pending) (fst sink0, out))
               else splitter_content env breaks es1 (drop (boundary + 8) pending) sink0
           | None \<Rightarrow>
               let safe = back_to_boundary pending (length pending - 7) in
               if safe \<noteq> 0 then flush_prefix breaks (es0\<lparr>es_pending := pending\<rparr>) safe sink0
               else (False, es0\<lparr>es_pending := pending\<rparr>, sink0))"
  by (cases "es_reasoning es"; cases "str_find THINK_END (es_pending es @ piece)")
    (simp_all add: splitter_emit_def emit_start_def emit_sink_def Let_def split: prod.split bool.split
      del: take_append drop_append)

lemma in_answer_emit:
  fixes out :: "'l event list"
  assumes "in_answer thinking stop G es out" "utf8 p"
  obtains es' lp' out' where "splitter_emit env listening es p l (lp, out) = (False, es', (lp', out'))"
      "in_answer thinking stop (G @ p) es' out'"
  | es' lp' out' where "splitter_emit env listening es p l (lp, out) = (True, es', (lp', out'))"
      "at_stop thinking stop (G @ p) es' out'"
proof -
  define T where "T = answer_text thinking G"
  obtain lp0 where sink: "emit_sink es p l (lp, out) = (lp0, out)"
    by (metis prod.collapse snd_conv snd_emit_sink)
  have emit: "splitter_emit env listening es p l (lp, out) = splitter_content env listening (emit_start es p) p (lp0, out)"
    using assms(1) by (simp add: splitter_emit_start Let_def sink in_answer_def)
  have A: "answer_text thinking (G @ p) =
      T @ (if es_answer_started (emit_start es p) then p else dropWhile (\<lambda>c. c = CHR 0x0A) p)"
    using assms(1) answer_text_append [of thinking G p] answer_text_append_blank [of thinking G p]
    by (auto simp: in_answer_def T_def)
  have found: "thinking \<longrightarrow> str_find THINK_END (G @ p) \<noteq> None"
    using assms(1) by (auto simp: in_answer_def dest: str_find_append)
  show thesis
    by (rule splitter_content_step [of T "emit_start es p" out stop thinking "G @ p" p env lp0])
      (use assms A found that emit in \<open>auto simp: in_answer_def T_def reasoning_text_append utf8_append\<close>)
qed

lemma back_to_boundary_le: "back_to_boundary s i \<le> i"
  by (induction i) auto

text \<open>The held end of the reasoning is long enough for a split \<open></think>\<close>.\<close>

lemma in_reasoning_find:
  assumes "in_reasoning thinking tools stop G es out"
  shows "str_find THINK_END (G @ p) =
    map_option ((+) (length (reasonings out))) (str_find THINK_END (es_pending es @ p))"
proof -
  have G: "G = reasonings out @ es_pending es" and none: "str_find THINK_END G = None"
    and held: "reasonings out = [] \<or> 7 \<le> length (es_pending es)"
    using assms by (auto simp: in_reasoning_def)
  have "\<not> prefix THINK_END (drop j (G @ p))" if j: "j < length (reasonings out)" for j
  proof
    assume "prefix THINK_END (drop j (G @ p))"
    moreover have "j + 8 \<le> length G" using j held G by auto
    ultimately have "prefix THINK_END (drop j G)" by (auto intro: prefix_drop_append)
    moreover have "j \<le> length G" using j G by simp
    ultimately show False using none unfolding str_find_None by blast
  qed
  then show ?thesis
    using str_find_shift [of "length (reasonings out)" "G @ p" THINK_END] G by simp
qed

text \<open>A piece that ends the reasoning leaves the text \<open>w\<close> for the answer.\<close>

definition answer_begins ::
  "bool \<Rightarrow> tool_parser option \<Rightarrow> string list \<Rightarrow> string \<Rightarrow> event_splitter \<Rightarrow> string \<Rightarrow> 'l event list \<Rightarrow> bool" where
  "answer_begins thinking tools stop G es w out \<longleftrightarrow>
     str_find THINK_END G \<noteq> None \<and> \<not> es_reasoning es \<and> es_pending es = [] \<and> \<not> es_answer_started es \<and>
     es_stop es = stop_new stop \<and> es_tools es = tools \<and> thinking \<and>
     reasonings out = reasoning_text thinking G \<and> contents out = [] \<and> heard out = [] \<and>
     answer_text thinking G = dropWhile (\<lambda>c. c = CHR 0x0A) w \<and> utf8 w \<and> utf8 G"

lemma flush_prefix_listening:
  "flush_prefix listening es n (lp, out) =
     (False, es\<lparr>es_pending := drop n (es_pending es)\<rparr>,
      (dropWhile (\<lambda>s. sp_end s \<le> es_generated es - length (drop n (es_pending es))) lp,
       out @ [Reasoning (take n (es_pending es))]))"
  by (simp add: flush_prefix_def send_def Let_def)

lemma in_reasoning_stays:
  fixes out :: "'l event list"
  assumes inv: "in_reasoning thinking tools stop G es out" and p: "utf8 p"
    and none: "str_find THINK_END (es_pending es @ p) = None"
  obtains es' lp' out' where "splitter_emit env listening es p l (lp, out) = (False, es', (lp', out'))"
      "in_reasoning thinking tools stop (G @ p) es' out'"
proof -
  define pend where "pend = es_pending es @ p"
  define safe where "safe = back_to_boundary pend (length pend - 7)"
  define es1 where "es1 = (emit_start es p)\<lparr>es_pending := pend\<rparr>"
  obtain lp0 where sink: "emit_sink es p l (lp, out) = (lp0, out)"
    by (metis prod.collapse snd_conv snd_emit_sink)
  have emit: "splitter_emit env listening es p l (lp, out) =
      (if safe \<noteq> 0 then flush_prefix listening es1 safe (lp0, out) else (False, es1, (lp0, out)))"
    using inv none unfolding safe_def es1_def pend_def
    by (simp add: splitter_emit_start sink Let_def in_reasoning_def)
  have safe: "safe \<le> length pend - 7" by (simp add: safe_def back_to_boundary_le)
  have utf8: "utf8 (G @ p)" using inv p unfolding in_reasoning_def by (blast intro: utf8_append)
  have find: "str_find THINK_END (G @ p) = None" using in_reasoning_find [OF inv] none by simp
  have "in_reasoning thinking tools stop (G @ p) es1 out"
    using inv utf8 find by (auto simp: in_reasoning_def es1_def pend_def)
  moreover have "in_reasoning thinking tools stop (G @ p) (es1\<lparr>es_pending := drop safe pend\<rparr>)
      (out @ [Reasoning (take safe pend)])" if "safe \<noteq> 0"
    using inv utf8 find safe that by (auto simp: in_reasoning_def es1_def pend_def [symmetric])
  ultimately show thesis using that emit
    by (cases "safe = 0") (auto simp: flush_prefix_listening es1_def)
qed

lemma in_reasoning_ends:
  fixes out :: "'l event list"
  assumes inv: "in_reasoning thinking tools stop G es out" and p: "utf8 p"
    and some: "str_find THINK_END (es_pending es @ p) = Some k"
  obtains es1 w lp1 out1 where
      "splitter_emit env listening es p l (lp, out) = splitter_content env listening es1 w (lp1, out1)"
      "answer_begins thinking tools stop (G @ p) es1 w out1"
proof -
  define pend where "pend = es_pending es @ p"
  define es1 where "es1 = (emit_start es p)\<lparr>es_pending := [], es_reasoning := False\<rparr>"
  define out1 where "out1 = (if take k pend = [] then out else out @ [Reasoning (take k pend)])"
  define w where "w = drop (k + 8) pend"
  obtain lp0 where sink: "emit_sink es p l (lp, out) = (lp0, out)"
    by (metis prod.collapse snd_conv snd_emit_sink)
  have run: "splitter_emit env listening es p l (lp, out) = splitter_content env listening es1 w (lp0, out1)"
    using inv some unfolding es1_def out1_def w_def pend_def
    by (simp add: splitter_emit_start sink Let_def in_reasoning_def send_def)
  have Gp: "G @ p = reasonings out @ pend" and thinking using inv by (auto simp: in_reasoning_def pend_def)
  have utf8: "utf8 (G @ p)" using inv p unfolding in_reasoning_def by (blast intro: utf8_append)
  have found: "str_find THINK_END (G @ p) = Some (length (reasonings out) + k)"
    using in_reasoning_find [OF inv] some by simp
  have w: "drop (length (reasonings out) + k + 8) (G @ p) = w" by (simp add: w_def Gp)
  have "reasonings out1 = reasoning_text thinking (G @ p)"
    using found \<open>thinking\<close> by (simp add: out1_def reasoning_text_def Gp)
  moreover have "answer_text thinking (G @ p) = dropWhile (\<lambda>c. c = CHR 0x0A) w"
    using found \<open>thinking\<close> w by (simp add: answer_text_def)
  moreover have "utf8 w" using utf8_after_think [OF utf8 found] w by simp
  ultimately have "answer_begins thinking tools stop (G @ p) es1 w out1"
    using inv utf8 found by (auto simp: answer_begins_def in_reasoning_def es1_def out1_def)
  then show thesis using that run by metis
qed

lemma in_reasoning_emit:
  fixes out :: "'l event list"
  assumes inv: "in_reasoning thinking None stop G es out" and p: "utf8 p" and stop: "list_all utf8 stop"
  obtains es' lp' out' where "splitter_emit env listening es p l (lp, out) = (False, es', (lp', out'))"
      "in_reasoning thinking None stop (G @ p) es' out' \<or> in_answer thinking stop (G @ p) es' out'"
  | es' lp' out' where "splitter_emit env listening es p l (lp, out) = (True, es', (lp', out'))"
      "at_stop thinking stop (G @ p) es' out'"
proof (cases "str_find THINK_END (es_pending es @ p)")
  case None
  show thesis by (rule in_reasoning_stays [OF inv p None, of env l lp]) (use that in blast)
next
  case (Some k)
  obtain es1 w lp1 and out1 :: "'l event list" where
    run: "splitter_emit env listening es p l (lp, out) = splitter_content env listening es1 w (lp1, out1)"
    and begins: "answer_begins thinking None stop (G @ p) es1 w out1"
    by (rule in_reasoning_ends [OF inv p Some, of env l lp])
  have "stop_read [] (es_stop es1) out1"
    using begins stop_ok_new [OF stop] by (simp add: stop_read_def answer_begins_def stop_new_def)
  then show thesis
    by (rule_tac splitter_content_step [of "[]" es1 out1 stop thinking "G @ p" w env lp1])
      (use begins run that in \<open>auto simp: answer_begins_def stop_new_def\<close>)
qed

lemma at_stop_mono:
  assumes "at_stop thinking stop G es out"
  shows "at_stop thinking stop (G @ p) es out"
proof -
  have "thinking \<longrightarrow> str_find THINK_END G \<noteq> None" using assms by (simp add: at_stop_def)
  then have "reasoning_text thinking (G @ p) = reasoning_text thinking G"
    "thinking \<longrightarrow> str_find THINK_END (G @ p) \<noteq> None"
    using reasoning_text_append [of thinking G p] str_find_append [of THINK_END G _ p] by auto
  moreover have "prefix A (answer_text thinking (G @ p))" if "prefix A (answer_text thinking G)" for A
    using that answer_text_prefix by (rule prefix_order.trans)
  ultimately show ?thesis using assms unfolding at_stop_def by metis
qed

lemma split_pieces_run:
  fixes out :: "'l event list"
  assumes "in_reasoning thinking None stop G es out \<or> in_answer thinking stop G es out"
    and "list_all utf8 stop" "list_all (\<lambda>a. utf8 (fst a)) pieces"
  obtains es' lp' out' where "split_pieces env listening es pieces (lp, out) = (False, es', (lp', out'))"
      "in_reasoning thinking None stop (G @ concat (map fst pieces)) es' out' \<or>
       in_answer thinking stop (G @ concat (map fst pieces)) es' out'"
  | es' lp' out' where "split_pieces env listening es pieces (lp, out) = (True, es', (lp', out'))"
      "at_stop thinking stop (G @ concat (map fst pieces)) es' out'"
  using assms
proof (induction pieces arbitrary: thesis G es lp out)
  case Nil
  then show ?case by simp
next
  case (Cons pl pieces)
  obtain p l where pl: "pl = (p, l)" by (cases pl)
  have p: "utf8 p" "list_all (\<lambda>a. utf8 (fst a)) pieces" using Cons.prems pl by auto
  consider (go) es1 lp1 out1 where "splitter_emit env listening es p l (lp, out) = (False, es1, (lp1, out1))"
      "in_reasoning thinking None stop (G @ p) es1 out1 \<or> in_answer thinking stop (G @ p) es1 out1"
    | (halt) es1 lp1 out1 where "splitter_emit env listening es p l (lp, out) = (True, es1, (lp1, out1))"
      "at_stop thinking stop (G @ p) es1 out1"
    using Cons.prems(3) in_reasoning_emit [of thinking stop G es out p env l lp] in_answer_emit [of thinking stop G es out p env l lp]
      p(1) Cons.prems(4) by metis
  then show ?case
  proof cases
    case go
    show ?thesis
      by (rule Cons.IH [OF _ _ go(2) Cons.prems(4) p(2), of lp1])
        (use Cons.prems(1,2) go(1) pl in \<open>auto\<close>)
  next
    case halt
    then show ?thesis using Cons.prems(2) pl at_stop_mono [OF halt(2)] by simp
  qed
qed

lemma splitter_new_inv:
  assumes "list_all utf8 stop"
  shows "in_reasoning thinking None stop [] (splitter_new thinking None stop) ([] :: 'l event list) \<or>
         in_answer thinking stop [] (splitter_new thinking None stop) ([] :: 'l event list)"
proof (cases thinking)
  case True
  then have "in_reasoning thinking None stop [] (splitter_new thinking None stop) ([] :: 'l event list)"
    by (simp add: in_reasoning_def splitter_new_def str_find_None)
  then show ?thesis by simp
next
  case False
  then have "in_answer thinking stop [] (splitter_new thinking None stop) ([] :: 'l event list)"
    using stop_ok_new [OF assms]
    by (simp add: in_answer_def splitter_new_def reasoning_text_def answer_text_def stop_read_def stop_new_def)
  then show ?thesis by simp
qed

text \<open>Closing: what was held is released, and the reason reported says whether a sequence matched.\<close>

definition natural_reason :: "stop_reason \<Rightarrow> stop_reason" where
  "natural_reason reason = (if reason = Stopped then Cancelled else reason)"

lemma splitter_close_open:
  assumes "in_reasoning thinking None stop G es out \<or> in_answer thinking stop G es out"
  obtains es' lp' out' where
    "splitter_close listening es reason (lp, out) = ((False, natural_reason reason), es', (lp', out'))"
    "reasonings out' = reasoning_text thinking G" "contents out' = answer_text thinking G"
    "first_match (filter (\<lambda>q. q \<noteq> []) stop) (answer_text thinking G) = None" "es_tools es' = None"
  using assms
proof
  assume inv: "in_reasoning thinking None stop G es out"
  obtain lp1 out1 where d:
    "deliver listening (Reasoning (es_pending es)) (es_generated es - length (es_pending es)) lp out = (False, lp1, out1)"
    "contents out1 = contents out" "reasonings out1 = reasonings out @ es_pending es"
    using deliver_listening [of "Reasoning (es_pending es)"] by (metis append.right_neutral event_content.simps(2) event_reasoning.simps(1))
  have G: "reasoning_text thinking G = reasonings out @ es_pending es" "answer_text thinking G = []" "contents out = []"
    using inv by (auto simp: in_reasoning_def reasoning_text_def answer_text_def)
  have "first_match (filter (\<lambda>q. q \<noteq> []) stop) [] = None" by (auto simp: first_match_None str_find_None)
  note G = G this
  have st: "es_reasoning es" "sq_held (es_stop es) = []" "\<not> sq_matched (es_stop es)" "es_tools es = None"
    using inv by (auto simp: in_reasoning_def stop_new_def)
  show thesis
    using that d G st
    by (cases "es_pending es = []")
      (simp_all add: splitter_close_def splitter_failed_def splitter_finish_def stop_flush_def natural_reason_def Let_def)
next
  assume inv: "in_answer thinking stop G es out"
  obtain st' lp1 out1 where f: "stop_flush listening (es_stop es) (lp, out) = (False, st', (lp1, out1))"
    "contents out1 = contents out @ sq_held (es_stop es)" "reasonings out1 = reasonings out"
    "sq_matched st' = sq_matched (es_stop es)"
    using stop_flush_listening [of "es_stop es" lp out] by metis
  have ok: "stop_ok (answer_text thinking G) (es_stop es)"
    and seqs: "sq_sequences (es_stop es) = filter (\<lambda>q. q \<noteq> []) stop"
    and read: "es_pending es = []" "contents out1 = answer_text thinking G" "reasonings out1 = reasoning_text thinking G"
    using inv f(2,3) unfolding in_answer_def stop_read_def by metis+
  have "first_match (filter (\<lambda>q. q \<noteq> []) stop) (answer_text thinking G) = None"
    unfolding first_match_None seqs [symmetric] using ok unfolding stop_ok_def by blast
  moreover note read
  moreover have "\<not> sq_matched (es_stop es)" using ok unfolding stop_ok_def by blast
  moreover have "es_tools es = None" using inv by (simp add: in_answer_def)
  moreover have "splitter_close listening es reason (lp, out)
      = ((False, natural_reason reason), es\<lparr>es_stop := st'\<rparr>, (lp1, out1))"
    using calculation f(1,4) by (simp add: splitter_close_def splitter_failed_def splitter_finish_def natural_reason_def)
  ultimately show thesis using that [of "es\<lparr>es_stop := st'\<rparr>" lp1 out1] by simp
qed

lemma splitter_close_stopped:
  "at_stop thinking stop G es out \<Longrightarrow>
   splitter_close listening es reason (lp, out) = ((False, Stopped), es, (lp, out))"
  by (simp add: splitter_close_def splitter_failed_def at_stop_def)

text \<open>
  A whole generation, for a consumer that listens to the end: no sequence occurs and everything is
  delivered, or the answer ends where a sequence begins.
\<close>

lemma close_generation_listening:
  assumes "splitter_close listening es reason sink = ((False, r), es', (lp, out))" "es_tools es' = None"
  shows "map_sum id stats_stop_reason (fst (close_generation listening es ids reason sink)) = Inr r"
    and "contents (snd (close_generation listening es ids reason sink)) = contents out"
    and "reasonings (snd (close_generation listening es ids reason sink)) = reasonings out"
  by (simp_all add: close_generation_def splitter_take_failure_def assms send_def Let_def)

lemma generate_listening:
  assumes utf8: "list_all utf8 stop" "list_all (\<lambda>a. utf8 (fst a)) pieces"
    and G: "G = concat (map fst pieces)"
    and run: "generate env listening thinking None stop pieces ids reason = (result, out)"
  obtains "first_match (filter (\<lambda>q. q \<noteq> []) stop) (answer_text thinking G) = None"
      "contents out = answer_text thinking G" "reasonings out = reasoning_text thinking G"
      "map_sum id stats_stop_reason result = Inr (natural_reason reason)"
  | A at where "prefix A (answer_text thinking G)"
      "first_match (filter (\<lambda>q. q \<noteq> []) stop) A = Some at"
      "contents out = take at A" "reasonings out = reasoning_text thinking G"
      "map_sum id stats_stop_reason result = Inr Stopped"
proof (rule split_pieces_run [OF splitter_new_inv [OF utf8(1), of thinking] utf8, of env "[]"])
  fix es lp out'
  assume "split_pieces env listening (splitter_new thinking None stop) pieces ([], []) = (False, es, lp, out')"
    and inv: "in_reasoning thinking None stop ([] @ concat (map fst pieces)) es out' \<or>
              in_answer thinking stop ([] @ concat (map fst pieces)) es out'"
  then have gen: "close_generation listening es ids reason (lp, out') = (result, out)"
    using run by (simp add: generate_def)
  from inv show thesis
    by (rule splitter_close_open [of thinking stop _ es out' reason lp])
      (use gen that(1) G close_generation_listening [of es reason "(lp, out')" _ _ _ _ ids] in auto)
next
  fix es lp out'
  assume "split_pieces env listening (splitter_new thinking None stop) pieces ([], []) = (True, es, lp, out')"
    and inv: "at_stop thinking stop ([] @ concat (map fst pieces)) es out'"
  then have gen: "close_generation listening es ids Stopped (lp, out') = (result, out)"
    using run by (simp add: generate_def)
  moreover have "es_tools es = None" using inv by (simp add: at_stop_def)
  ultimately have "map_sum id stats_stop_reason result = Inr Stopped" "contents out = contents out'" "reasonings out = reasonings out'"
    using close_generation_listening [OF splitter_close_stopped [OF inv], of ids Stopped lp] by simp_all
  then show thesis using that(2) inv G by (auto simp: at_stop_def)
qed

section \<open>Properties\<close>








text \<open>With one stop sequence the answer read is the text before its first occurrence, the whole
  answer when there is none, however the text was cut into pieces.\<close>

theorem stop_sequence_cuts:
  assumes "list_all (\<lambda>a. utf8 (fst a)) pieces" "utf8 q" "q \<noteq> []"
    and "A = answer_text thinking (concat (map fst pieces))"
  shows "contents (snd (generate env listening thinking None [q] pieces ids reason)) =
           (case str_find q A of Some i \<Rightarrow> take i A | None \<Rightarrow> A)"
proof -
  obtain result out where run: "generate env listening thinking None [q] pieces ids reason = (result, out)"
    by fastforce
  have match: "first_match (filter (\<lambda>q. q \<noteq> []) [q]) B = str_find q B" for B
    using assms(3) by (auto simp: first_match_def List.map_filter_simps split: option.split)
  have stop: "list_all utf8 [q]" using assms(2) by simp
  show ?thesis
  proof (rule generate_listening [OF stop assms(1) refl run], unfold match assms(4) [symmetric])
    fix B at
    assume "prefix B A" "str_find q B = Some at" "contents out = take at B"
    moreover have "at \<le> length B" using str_find_length [OF calculation(2)] by simp
    ultimately show ?thesis using str_find_prefix [of q B at A] run by (auto simp: prefix_def)
  qed (simp add: run)
qed

theorem stop_sequence_cuts_witness:
  "contents (snd (generate sample_env listening False None [''ND''] [(''aN'', [()]), (''Nb'', []), (''ND'', [])] [] Eos)) = ''aNNb''"
proof -
  have u: "list_all (\<lambda>a. utf8 (fst a)) [(''aN'', [()]), (''Nb'', []), (''ND'', [])]" by code_simp
  have v: "utf8 ''ND''" "''ND'' \<noteq> []" by code_simp+
  have A: "''aNNbND'' = answer_text False (concat (map fst [(''aN'', [()]), (''Nb'', []), (''ND'', [])]))"
    by code_simp
  have f: "str_find ''ND'' ''aNNbND'' = Some 4" by code_simp
  show ?thesis using stop_sequence_cuts [OF u v A, of sample_env "[]" Eos] f by simp
qed



end
