(* ===== verification/Tool_Generation.thy ===== *)
theory Tool_Generation
  imports Splitter
begin

text \<open>
  A generation with tools (\<open>local-engine/src/api.rs\<close>, \<open>EventSplitter\<close> over \<open>ToolCallParser\<close> of
  \<open>local-engine/src/tools.rs\<close>): the reasoning is split off, and the answer that remains goes through
  the tool-call parser to the consumer.  What the parser does when it writes to a consumer that
  listens to the end does not depend on that consumer, which is the interface below; the
  definitions are those of \<open>Splitter\<close> and \<open>Tool_Stream\<close>.
\<close>

section \<open>Consumers that listen to the parser\<close>

fun parser_event :: "'l event \<Rightarrow> bool" where
  "parser_event (Content t) = True"
| "parser_event (ToolCall c) = True"
| "parser_event (ToolCallDelta d) = True"
| "parser_event _ = False"

text \<open>The consumer's state \<open>s\<close> stands for the events \<open>xs\<close> sent to it so far.\<close>

locale parser_listener =
  fixes cb :: "'l event \<Rightarrow> nat \<Rightarrow> 's \<Rightarrow> bool \<times> 's"
    and stands :: "'s \<Rightarrow> ('l event \<times> nat) list \<Rightarrow> bool"
  assumes listens: "stands s xs \<Longrightarrow> parser_event e \<Longrightarrow>
      \<not> fst (cb e at s) \<and> stands (snd (cb e at s)) (xs @ [(e, at)])"
begin

definition agrees :: "bool \<times> 'p \<times> 's \<Rightarrow> bool \<times> 'p \<times> ('l event \<times> nat) list \<Rightarrow> bool" where
  "agrees r c \<longleftrightarrow> fst r = fst c \<and> fst (snd r) = fst (snd c) \<and> stands (snd (snd r)) (snd (snd c))"

lemma sent:
  assumes "stands s xs" "parser_event e"
  obtains s1 where "cb e at s = (False, s1)" "stands s1 (xs @ [(e, at)])"
  using listens [OF assms, of at] by (cases "cb e at s") auto

lemma emit_text_agrees:
  assumes "stands s xs"
  shows "agrees (emit_text cb p t offset s) (emit_text collect p t offset xs)"
proof (cases "(if tp_after_call p then trim_start t else t) = []")
  case False
  let ?t = "if tp_after_call p then trim_start t else t"
  obtain s1 where "cb (Content ?t) (offset + length t - length ?t) s = (False, s1)"
    "stands s1 (xs @ [(Content ?t, offset + length t - length ?t)])"
    by (rule sent [OF assms, of "Content ?t"]) simp
  then show ?thesis using False by (simp add: emit_text_def agrees_def collect_def Let_def)
qed (use assms in \<open>simp add: emit_text_def agrees_def\<close>)

lemma stream_pieces_agrees:
  "stands s xs \<Longrightarrow>
   agrees (stream_pieces cb consumed final index pieces sm s)
          (stream_pieces collect consumed final index pieces sm xs)"
proof (induction pieces arbitrary: index sm s xs)
  case (Cons piece pieces)
  let ?d = "\<lparr>dl_id = sm_id sm, dl_name = sm_name sm,
    dl_arguments = str_get_from (pc_json piece) (sm_json sm),
    dl_text = map_option (\<lambda>(key, raw). (key, str_get_from raw (sm_text sm))) (pc_text piece)\<rparr>"
  obtain s1 where "cb (ToolCallDelta ?d) consumed s = (False, s1)"
    "stands s1 (xs @ [(ToolCallDelta ?d, consumed)])"
    by (rule sent [OF Cons(2), of "ToolCallDelta ?d"]) simp
  then show ?case using Cons by (simp add: Let_def collect_def)
qed (simp add: agrees_def)

lemma agreesE:
  assumes "agrees r (flow, p, xs)"
  obtains s where "r = (flow, p, s)" "stands s xs"
  using assms by (cases r) (auto simp: agrees_def)

lemma agreesI [intro]: "stands s xs \<Longrightarrow> agrees (flow, p, s) (flow, p, xs)"
  by (simp add: agrees_def)

lemma stream_agrees:
  assumes "stands s xs"
  shows "agrees (stream env cb p s) (stream env collect p xs)"
proof (cases "call_pieces env (tp_tools p) (tp_pending p)")
  case (Some np)
  obtain name pieces where np: "np = (name, pieces)" by (cases np)
  obtain sm following where sm: "(case tp_streamed p of Some sm \<Rightarrow> (sm, tp_next p)
      | None \<Rightarrow> (\<lparr>sm_id = te_call_id env (tp_next p), sm_name = name, sm_piece = 0, sm_json = 0,
                  sm_text = 0\<rparr>, Suc (tp_next p))) = (sm, following)" by fastforce
  obtain flow sm1 xs1 where c: "stream_pieces collect (tp_consumed p) (length pieces - 1) (sm_piece sm)
      (drop (sm_piece sm) pieces) sm xs = (flow, sm1, xs1)" by (metis prod_cases3)
  obtain s1 where r: "stream_pieces cb (tp_consumed p) (length pieces - 1) (sm_piece sm)
      (drop (sm_piece sm) pieces) sm s = (flow, sm1, s1)" "stands s1 xs1"
    using stream_pieces_agrees [OF assms, of "tp_consumed p"] c by (metis agreesE)
  show ?thesis unfolding stream_def Some np using sm c r by (auto simp: Let_def)
qed (use assms in \<open>simp add: stream_def agrees_def\<close>)

text \<open>The loop after an event goes on from a parser with less pending text.\<close>

lemma loop_call_agrees:
  assumes "stands s xs" "tp_in_call p"
    and "call_end (tp_pending p) (tp_tools p) = Some (e, m, st)"
    and less: "\<And>p1 s xs. length (tp_pending p1) < length (tp_pending p) \<Longrightarrow> stands s xs \<Longrightarrow>
        agrees (feed_loop env cb p1 s) (feed_loop env collect p1 xs)"
  shows "agrees (feed_loop env cb p s) (feed_loop env collect p xs)"
proof -
  define p2 where "p2 = p\<lparr>tp_pending := drop (e + length m) (tp_pending p),
    tp_consumed := tp_consumed p + e + length m, tp_in_call := False, tp_after_call := True,
    tp_streamed := None, tp_next := Suc (tp_next p)\<rparr>"
  note unfold = feed_loop.simps [of env cb p] feed_loop.simps [of env collect p]
    Let_def parse_block_def [symmetric] assms(2,3)
  have short: "length (tp_pending p2) < length (tp_pending p)"
    using call_end_shrinks [OF assms(3)] by (simp add: p2_def)
  show ?thesis
  proof (cases "parse_block env (tp_tools p) (te_call_id env (tp_next p)) st (take e (tp_pending p))")
    case (Inr c)
    define call where "call = (case tp_streamed p of Some sm \<Rightarrow> c\<lparr>tc_id := sm_id sm\<rparr> | None \<Rightarrow> c)"
    obtain s1 where s1: "cb (ToolCall call) (tp_consumed p2) s = (False, s1)"
      "stands s1 (xs @ [(ToolCall call, tp_consumed p2)])"
      by (rule sent [OF assms(1), of "ToolCall call"]) simp
    have "feed_loop env cb p s = feed_loop env cb p2 s1"
      using s1(1) by (simp add: unfold Inr call_def [symmetric] p2_def)
    moreover have "feed_loop env collect p xs = feed_loop env collect p2 (xs @ [(ToolCall call, tp_consumed p2)])"
      by (simp add: unfold Inr call_def [symmetric] p2_def collect_def)
    ultimately show ?thesis using less [OF short s1(2)] by simp
  qed (use assms(1) in \<open>auto simp: unfold\<close>)
qed

lemma loop_text_agrees:
  assumes "stands s xs" "\<not> tp_in_call p" "str_find CALL_START (tp_pending p) = Some i"
    and less: "\<And>p1 s xs. length (tp_pending p1) < length (tp_pending p) \<Longrightarrow> stands s xs \<Longrightarrow>
        agrees (feed_loop env cb p1 s) (feed_loop env collect p1 xs)"
  shows "agrees (feed_loop env cb p s) (feed_loop env collect p xs)"
proof -
  define p1 where "p1 = p\<lparr>tp_pending := drop (i + length CALL_START) (tp_pending p),
    tp_consumed := tp_consumed p + i + length CALL_START, tp_in_call := True\<rparr>"
  let ?t = "trim_end (take i (tp_pending p))"
  have run: "feed_loop env f p a =
      (case emit_text f p1 ?t (tp_consumed p) a of
         (True, p2, s1) \<Rightarrow> (True, p2, s1) | (False, p2, s1) \<Rightarrow> feed_loop env f p2 s1)" for f and a :: 'z
    unfolding feed_loop.simps [of env f p] p1_def using assms(2,3) by (simp add: Let_def)
  obtain flow p2 xs2 where c: "emit_text collect p1 ?t (tp_consumed p) xs = (flow, p2, xs2)"
    by (metis prod_cases3)
  obtain s2 where r: "emit_text cb p1 ?t (tp_consumed p) s = (flow, p2, s2)" "stands s2 xs2"
    using emit_text_agrees [OF assms(1), of p1] c by (metis agreesE)
  have "length (tp_pending p2) < length (tp_pending p)"
    using emit_text_keeps [OF c] str_find_length [OF assms(3)] by (simp add: p1_def CALL_START_def)
  then show ?thesis unfolding run c r(1) using less r(2) by (cases flow) auto
qed

lemma feed_loop_agrees:
  "stands s xs \<Longrightarrow> agrees (feed_loop env cb p s) (feed_loop env collect p xs)"
proof (induction "length (tp_pending p)" arbitrary: p s xs rule: less_induct)
  case less
  show ?case
  proof (cases "tp_in_call p")
    case True
    show ?thesis
    proof (cases "call_end (tp_pending p) (tp_tools p)")
      case None
      then show ?thesis using stream_agrees [OF less(2)] True
        by (simp add: feed_loop.simps [of env cb p] feed_loop.simps [of env collect p])
    next
      case (Some x)
      then show ?thesis using loop_call_agrees [OF less(2) True _ less(1)] by (cases x) auto
    qed
  next
    case False
    show ?thesis
    proof (cases "str_find CALL_START (tp_pending p)")
      case None
      then show ?thesis using emit_text_agrees [OF less(2)] less(2) False
        by (auto simp: feed_loop.simps [of env cb p] feed_loop.simps [of env collect p] Let_def)
    next
      case (Some i)
      then show ?thesis using loop_text_agrees [OF less(2) False _ less(1)] by blast
    qed
  qed
qed

lemma feed_agrees: "stands s xs \<Longrightarrow> agrees (feed env cb p t s) (feed env collect p t xs)"
  using feed_loop_agrees by (auto simp: feed_def)

lemma finish_agrees:
  "stands s xs \<Longrightarrow> agrees (parser_finish cb p reason s) (parser_finish collect p reason xs)"
  using emit_text_agrees by (auto simp: parser_finish_def)

end

section \<open>The consumer of a generation listens to the parser\<close>

text \<open>Without stop sequences, what was sent on is what the parser sent.\<close>

definition hears :: "string \<Rightarrow> stop_sequences \<times> 'l sink \<Rightarrow> ('l event \<times> nat) list \<Rightarrow> bool" where
  "hears R s xs \<longleftrightarrow>
     sq_sequences (fst s) = [] \<and> sq_held (fst s) = [] \<and> \<not> sq_matched (fst s) \<and>
     heard (snd (snd s)) = reads xs \<and> reasonings (snd (snd s)) = R"

lemma hearsI:
  assumes "sq_sequences st = []" "sq_held st = []" "\<not> sq_matched st" "heard out = reads xs" "reasonings out = R"
  shows "hears R (st, lp, out) xs"
  using assms by (simp add: hears_def)

lemma deliver_heard:
  obtains lp' out' where "deliver listening e offset lp out = (False, lp', out')"
    and "heard out' = heard out @ event_reads e"
    and "reasonings out' = reasonings out @ event_reasoning e"
  using that by (cases e; cases "pop_spans offset (offset + length (event_content e)) lp []")
    (fastforce simp: deliver_def send_def split: if_splits)+

lemma stop_callback_listens:
  assumes "hears R s xs" "parser_event e"
  shows "\<not> fst (stop_callback listening base e at s) \<and>
         hears R (snd (stop_callback listening base e at s)) (xs @ [(e, at)])"
proof -
  obtain st lp out where s: "s = (st, lp, out)" by (metis prod_cases3)
  have st: "sq_sequences st = []" "sq_held st = []" "\<not> sq_matched st" and out: "heard out = reads xs" "reasonings out = R"
    using assms(1) by (simp_all add: hears_def s)
  obtain lp1 out1 where d: "deliver listening e (base + at) lp out = (False, lp1, out1)"
    "heard out1 = heard out @ event_reads e" "reasonings out1 = reasonings out @ event_reasoning e"
    by (rule deliver_heard)
  have "stop_callback listening base e at s = (False, st, lp1, out1)"
    using d(1) st by (cases e) (simp_all add: stop_callback_def s stop_event_def stop_content_def stop_flush_def)
  moreover have "event_reasoning e = []" using assms(2) by (cases e) simp_all
  ultimately show ?thesis using d(2,3) st out by (simp add: hears_def)
qed

interpretation answer: parser_listener "stop_callback listening base" "hears R" for base R
  by unfold_locales (rule stop_callback_listens)

section \<open>Feeding the answer\<close>

lemma fed_on_start: "fed_on env [] (with_text (parser_new tools counter) []) False (parser_new tools counter) []"
  by (simp add: fed_on_def fed_state_def settled_def passes_def parser_new_def str_find.simps CALL_START_def)

lemma fed_on_read:
  assumes "fed_on env A (with_text (parser_new tools counter) A) True p xs" "starts_char r"
  obtains error where "tp_failure p = Some (Invalid_Call error)"
    "read_answer env tools False False (A @ r) = (reads xs, Call_Broken error)"
  using assms by (auto simp: fed_on_def parser_new_def)

lemma fed_on_failed_nonempty:
  assumes "fed_on env A (with_text (parser_new tools counter) A) True p xs"
  shows "A \<noteq> []"
proof
  assume "A = []"
  then obtain error where "read_answer env tools False False [] = (reads xs, Call_Broken error)"
    using fed_on_read [OF assms, of "[]"] by auto
  then show False by (simp add: read_answer.simps str_find.simps CALL_START_def)
qed

lemma feed_fed_on:
  assumes "fed_on env A (with_text q A) False p xs" "utf8 w" "feed env collect p w xs = (flow, p1, xs1)"
  shows "fed_on env (A @ w) (with_text q (A @ w)) flow p1 xs1"
proof -
  have p: "fed_state A p" "passes env (with_text q A) xs p" "located A xs"
    using assms(1) by (simp_all add: fed_on_def)
  have f: "fed_state (A @ w) (with_text p w)" using fed_state_extend [OF p(1) assms(2)] .
  have lp: "feed_loop env collect (with_text p w) xs = (flow, p1, xs1)"
    using assms(3) p(1) by (simp add: feed_def with_text_def fed_state_def)
  obtain new where new: "xs1 = xs @ new" "fed_on env (A @ w) (with_text p w) flow p1 new"
    using feed_loop_reads [OF lp f] by blast
  show ?thesis
    unfolding new(1)
    by (rule fed_on_after [OF passes_later [OF p(2) utf8_starts_char [OF assms(2)]] located_append [OF p(3)] new(2)])
qed

text \<open>The splitter in the answer after the text \<open>G\<close>, or past a call that cannot be read.\<close>

definition in_tools ::
  "tool_env \<Rightarrow> bool \<Rightarrow> tool_parser \<Rightarrow> bool \<Rightarrow> string \<Rightarrow> event_splitter \<Rightarrow> 'l event list \<Rightarrow> bool" where
  "in_tools env thinking q failed G es out \<longleftrightarrow>
     \<not> es_reasoning es \<and> es_pending es = [] \<and> (thinking \<longrightarrow> str_find THINK_END G \<noteq> None) \<and> utf8 G \<and>
     (es_answer_started es \<longleftrightarrow> \<not> thinking \<or> answer_text thinking G \<noteq> []) \<and>
     (\<exists>p xs. es_tools es = Some p \<and> hears (reasoning_text thinking G) (es_stop es, [], out) xs \<and>
        fed_on env (answer_text thinking G) (with_text q (answer_text thinking G)) failed p xs)"

lemma tools_content_step:
  fixes out :: "'l event list"
  assumes es: "\<not> es_reasoning es" "es_pending es = []" "es_tools es = Some p"
    and on: "fed_on env T (with_text q T) False p xs"
    and hears: "hears (reasoning_text thinking G) (es_stop es, [], out) xs"
    and found: "thinking \<longrightarrow> str_find THINK_END G \<noteq> None"
    and started: "es_answer_started es \<longleftrightarrow> \<not> thinking \<or> T \<noteq> []"
    and A: "answer_text thinking G =
              T @ (if es_answer_started es then t else dropWhile (\<lambda>c. c = CHR 0x0A) t)"
    and utf8: "utf8 G" "utf8 t"
  obtains flow es' lp' out' where
      "splitter_content env listening es t (lp, out) = (flow, es', (lp', out'))"
      "in_tools env thinking q flow G es' out'"
proof -
  define w where "w = (if es_answer_started es then t else dropWhile (\<lambda>c. c = CHR 0x0A) t)"
  have AT: "answer_text thinking G = T @ w" using A by (simp add: w_def)
  show thesis
  proof (cases "w = []")
    case True
    then have "splitter_content env listening es t (lp, out) = (False, es, (lp, out))"
      by (simp add: splitter_content_def w_def)
    moreover have "in_tools env thinking q False G es out"
      using True AT assms by (auto simp: in_tools_def)
    ultimately show thesis using that by metis
  next
    case False
    define off where "off = es_generated es - length w"
    define es1 where "es1 = es\<lparr>es_answer_started := True,
      es_parsed_from := (case es_parsed_from es of None \<Rightarrow> Some off | b \<Rightarrow> b)\<rparr>"
    define base where "base = (case es_parsed_from es1 of Some b \<Rightarrow> b | None \<Rightarrow> off)"
    obtain flow p1 and xs1 :: "('l event \<times> nat) list" where c: "feed env collect p w xs = (flow, p1, xs1)"
      by (metis prod_cases3)
    have "hears (reasoning_text thinking G) (es_stop es, lp, out) xs" using hears by (simp add: hears_def)
    from answer.feed_agrees [OF this, of env base p w]
    obtain st1 lp1 out1 where r: "feed env (stop_callback listening base) p w (es_stop es, lp, out) = (flow, p1, st1, lp1, out1)"
      "hears (reasoning_text thinking G) (st1, lp1, out1) xs1"
      unfolding c by (elim answer.agreesE) (metis prod_cases3)
    have "splitter_content env listening es t (lp, out) = (flow, es1\<lparr>es_stop := st1, es_tools := Some p1\<rparr>, (lp1, out1))"
      using False es(3) r(1) unfolding base_def es1_def off_def
      by (simp add: splitter_content_def w_def [symmetric] Let_def)
    moreover have "utf8 w" using utf8 by (simp add: w_def utf8_dropWhile_newline)
    then have "in_tools env thinking q flow G (es1\<lparr>es_stop := st1, es_tools := Some p1\<rparr>) out1"
      using es found utf8 False r(2) feed_fed_on [OF on _ c] by (auto simp: in_tools_def AT es1_def hears_def)
    ultimately show thesis using that by metis
  qed
qed

lemma in_tools_emit:
  fixes out :: "'l event list"
  assumes inv: "in_tools env thinking q False G es out" and t: "utf8 t"
  obtains flow es' lp' out' where "splitter_emit env listening es t l (lp, out) = (flow, es', (lp', out'))"
      "in_tools env thinking q flow (G @ t) es' out'"
proof -
  define T where "T = answer_text thinking G"
  obtain p and xs :: "('l event \<times> nat) list" where p: "es_tools es = Some p"
    "hears (reasoning_text thinking G) (es_stop es, [], out) xs" "fed_on env T (with_text q T) False p xs"
    using inv by (auto simp: in_tools_def T_def)
  obtain lp0 where sink: "emit_sink es t l (lp, out) = (lp0, out)"
    by (metis prod.collapse snd_conv snd_emit_sink)
  have emit: "splitter_emit env listening es t l (lp, out) = splitter_content env listening (emit_start es t) t (lp0, out)"
    using inv by (simp add: splitter_emit_start Let_def sink in_tools_def)
  have A: "answer_text thinking (G @ t) =
      T @ (if es_answer_started (emit_start es t) then t else dropWhile (\<lambda>c. c = CHR 0x0A) t)"
    using inv answer_text_append [of thinking G t] answer_text_append_blank [of thinking G t]
    by (auto simp: in_tools_def T_def)
  have found: "thinking \<longrightarrow> str_find THINK_END (G @ t) \<noteq> None"
    using inv by (auto simp: in_tools_def dest: str_find_append)
  have "reasoning_text thinking (G @ t) = reasoning_text thinking G"
    using inv by (simp add: in_tools_def reasoning_text_append)
  then show thesis
    by (rule_tac tools_content_step [of "emit_start es t" p env T q xs thinking "G @ t" out t lp0])
      (use inv p t A found that emit in \<open>auto simp: in_tools_def T_def utf8_append\<close>)
qed

lemma in_reasoning_emit_tools:
  fixes out :: "'l event list"
  assumes inv: "in_reasoning thinking (Some (parser_new tools counter)) [] G es out" and t: "utf8 t"
  obtains es' lp' out' where "splitter_emit env listening es t l (lp, out) = (False, es', (lp', out'))"
      "in_reasoning thinking (Some (parser_new tools counter)) [] (G @ t) es' out'"
  | flow es' lp' out' where "splitter_emit env listening es t l (lp, out) = (flow, es', (lp', out'))"
      "in_tools env thinking (parser_new tools counter) flow (G @ t) es' out'"
proof (cases "str_find THINK_END (es_pending es @ t)")
  case None
  show thesis by (rule in_reasoning_stays [OF inv t None, of env l lp]) (use that in blast)
next
  case (Some k)
  obtain es1 w lp1 and out1 :: "'l event list" where
    run: "splitter_emit env listening es t l (lp, out) = splitter_content env listening es1 w (lp1, out1)"
    and begins: "answer_begins thinking (Some (parser_new tools counter)) [] (G @ t) es1 w out1"
    by (rule in_reasoning_ends [OF inv t Some, of env l lp])
  have "hears (reasoning_text thinking (G @ t)) (es_stop es1, [], out1) []"
    using begins by (simp add: answer_begins_def hears_def stop_new_def)
  then show thesis
    by (rule_tac tools_content_step [of es1 "parser_new tools counter" env "[]" "parser_new tools counter"
          "[]" thinking "G @ t" out1 w lp1])
      (use begins run that fed_on_start in \<open>auto simp: answer_begins_def\<close>)
qed

lemma in_tools_later:
  assumes "in_tools env thinking (parser_new tools counter) True G es out" "utf8 t"
  shows "in_tools env thinking (parser_new tools counter) True (G @ t) es out"
proof -
  obtain p xs where p: "es_tools es = Some p" "hears (reasoning_text thinking G) (es_stop es, [], out) xs"
    and on: "fed_on env (answer_text thinking G) (with_text (parser_new tools counter) (answer_text thinking G)) True p xs"
    using assms(1) by (auto simp: in_tools_def)
  have "answer_text thinking (G @ t) = answer_text thinking G @ t"
    using fed_on_failed_nonempty [OF on] answer_text_append [of thinking G t] by simp
  moreover have "reasoning_text thinking (G @ t) = reasoning_text thinking G"
    "thinking \<longrightarrow> str_find THINK_END (G @ t) \<noteq> None"
    using assms(1) by (auto simp: in_tools_def reasoning_text_append dest: str_find_append)
  moreover have "es_answer_started es" "\<not> es_reasoning es" "es_pending es = []" "utf8 (G @ t)"
    using assms fed_on_failed_nonempty [OF on] by (auto simp: in_tools_def utf8_append)
  ultimately show ?thesis
    using p fed_on_later [OF on utf8_starts_char [OF assms(2)]] fed_on_failed_nonempty [OF on]
    by (auto simp: in_tools_def)
qed

lemma split_pieces_tools:
  fixes out :: "'l event list"
  assumes "in_reasoning thinking (Some (parser_new tools counter)) [] G es out \<or>
           in_tools env thinking (parser_new tools counter) False G es out"
    and "list_all (\<lambda>a. utf8 (fst a)) pieces"
  obtains es' lp' out' where "split_pieces env listening es pieces (lp, out) = (False, es', (lp', out'))"
      "in_reasoning thinking (Some (parser_new tools counter)) [] (G @ concat (map fst pieces)) es' out'"
  | flow es' lp' out' where "split_pieces env listening es pieces (lp, out) = (flow, es', (lp', out'))"
      "in_tools env thinking (parser_new tools counter) flow (G @ concat (map fst pieces)) es' out'"
  using assms
proof (induction pieces arbitrary: thesis G es lp out)
  case Nil
  then show ?case by auto
next
  case (Cons tl pieces)
  obtain t l where tl: "tl = (t, l)" by (cases tl)
  have t: "utf8 t" "list_all (\<lambda>a. utf8 (fst a)) pieces" using Cons.prems tl by auto
  have rest: "utf8 (concat (map fst pieces))" using t(2) by (induction pieces) (auto intro: utf8_append)
  consider (go) es1 lp1 out1 where "splitter_emit env listening es t l (lp, out) = (False, es1, (lp1, out1))"
      "in_reasoning thinking (Some (parser_new tools counter)) [] (G @ t) es1 out1 \<or>
       in_tools env thinking (parser_new tools counter) False (G @ t) es1 out1"
    | (halt) es1 lp1 out1 where "splitter_emit env listening es t l (lp, out) = (True, es1, (lp1, out1))"
      "in_tools env thinking (parser_new tools counter) True (G @ t) es1 out1"
    using Cons.prems(3)
  proof (elim disjE)
    assume "in_reasoning thinking (Some (parser_new tools counter)) [] G es out"
    from in_reasoning_emit_tools [OF this t(1), of env l lp] show thesis
      using go halt by (metis (full_types))
  next
    assume "in_tools env thinking (parser_new tools counter) False G es out"
    from in_tools_emit [OF this t(1), of l lp] show thesis using go halt by (metis (full_types))
  qed
  then show ?case
  proof cases
    case go
    show ?thesis
      by (rule Cons.IH [OF _ _ go(2) t(2), of lp1]) (use Cons.prems(1,2) go(1) tl in auto)
  next
    case halt
    then show ?thesis using Cons.prems(2) tl in_tools_later [OF halt(2) rest] by simp
  qed
qed

section \<open>The end of the generation\<close>

lemma parser_finish_flow:
  assumes "tp_failure p = None" "parser_finish collect p reason xs = (flow, p1, xs1)"
  shows "flow \<longleftrightarrow> tp_failure p1 \<noteq> None"
  using assms emit_text_collect(1) emit_text_keeps by (fastforce simp: parser_finish_def split: if_splits)

text \<open>How the parser closes on the answer \<open>A\<close>, and with it the splitter.\<close>

definition closed_on ::
  "tool_env \<Rightarrow> tool_set \<Rightarrow> string \<Rightarrow> string \<Rightarrow> stop_reason \<Rightarrow> bool \<Rightarrow> event_splitter \<Rightarrow> 'l event list \<Rightarrow> bool" where
  "closed_on env tools R A reason flow es out \<longleftrightarrow>
     reasonings out = R \<and> heard out = fst (read_answer env tools False False A) \<and>
     \<not> sq_matched (es_stop es) \<and>
     (\<exists>p. es_tools es = Some p \<and> tp_failure p = closes reason (snd (read_answer env tools False False A)) \<and>
        (flow \<longleftrightarrow> tp_failure p \<noteq> None))"

lemma finish_fed_on:
  assumes on: "fed_on env A (with_text (parser_new tools counter) A) False p xs"
    and "parser_finish collect p reason xs = (flow, p1, xs1)"
  shows "reads xs1 = fst (read_answer env tools False False A) \<and>
         tp_failure p1 = closes reason (snd (read_answer env tools False False A)) \<and>
         (flow \<longleftrightarrow> tp_failure p1 \<noteq> None)"
proof -
  have p: "fed_state A p" "settled p" "passes env (with_text (parser_new tools counter) A) xs p"
    using on by (simp_all add: fed_on_def)
  have "read_answer env tools False False A = apfst (append (reads xs)) (remaining env p [])"
    using p(3) unfolding passes_def by (elim conjE allE [of _ "[]"]) (simp add: parser_new_def)
  moreover obtain new where "xs1 = xs @ new" "reads new = fst (remaining env p [])"
    "tp_failure p1 = closes reason (snd (remaining env p []))"
    using finish_reads [OF p(1,2) assms(2), of env] by blast
  moreover have "flow \<longleftrightarrow> tp_failure p1 \<noteq> None"
    using parser_finish_flow [OF _ assms(2)] p(1) by (simp add: fed_state_def)
  ultimately show ?thesis by simp
qed

lemma splitter_finish_tools:
  fixes out :: "'l event list"
  assumes es: "es_pending es = []" "es_tools es = Some p"
    and hears: "hears R (es_stop es, [], out) xs"
    and on: "fed_on env A (with_text (parser_new tools counter) A) False p xs"
  obtains flow es' lp' out' where
    "splitter_finish listening es reason (lp, out) = (flow, es', (lp', out'))"
    "closed_on env tools R A reason flow es' out'"
proof -
  define base where "base = (case es_parsed_from es of Some b \<Rightarrow> b | None \<Rightarrow> es_generated es)"
  obtain flow p1 and xs1 :: "('l event \<times> nat) list" where c: "parser_finish collect p reason xs = (flow, p1, xs1)"
    by (metis prod_cases3)
  have "hears R (es_stop es, lp, out) xs" using hears by (simp add: hears_def)
  from answer.finish_agrees [OF this, of base p reason]
  obtain st1 lp1 out1 where r: "parser_finish (stop_callback listening base) p reason (es_stop es, lp, out) = (flow, p1, st1, lp1, out1)"
    "hears R (st1, lp1, out1) xs1"
    unfolding c by (elim answer.agreesE) (metis prod_cases3)
  define es1 where "es1 = es\<lparr>es_stop := st1, es_tools := Some p1\<rparr>"
  have "splitter_finish listening es reason (lp, out) = (flow, es1, (lp1, out1))"
    using es r unfolding base_def es1_def by (auto simp: splitter_finish_def stop_flush_def hears_def)
  moreover have "closed_on env tools R A reason flow es1 out1"
    using r(2) finish_fed_on [OF on c] by (simp add: closed_on_def es1_def hears_def)
  ultimately show thesis using that by metis
qed

lemma splitter_finish_reasoning:
  assumes "in_reasoning thinking tools [] G es out"
  obtains es1 lp1 out1 where
    "splitter_finish listening es reason (lp, out) = splitter_finish listening es1 reason (lp1, out1)"
    "es_pending es1 = []" "es_tools es1 = tools" "hears (reasoning_text thinking G) (es_stop es1, [], out1) []"
    "\<not> sq_matched (es_stop es)" "es_tools es = tools"
proof (cases "es_pending es = []")
  case True
  then show thesis using that [of es lp out] assms
    by (auto simp: in_reasoning_def hears_def stop_new_def reasoning_text_def)
next
  case False
  obtain lp1 out1 where d: "deliver listening (Reasoning (es_pending es)) (es_generated es - length (es_pending es)) lp out = (False, lp1, out1)"
    "heard out1 = heard out @ event_reads (Reasoning (es_pending es) :: 'a event)"
    "reasonings out1 = reasonings out @ event_reasoning (Reasoning (es_pending es) :: 'a event)"
    by (rule deliver_heard)
  show thesis
    by (rule that [of "es\<lparr>es_pending := []\<rparr>" lp1 out1])
      (use assms False d in \<open>auto simp: splitter_finish_def Let_def in_reasoning_def hears_def stop_new_def reasoning_text_def\<close>)
qed

text \<open>What a consumer read of a generation whose answer is \<open>a\<close>, and how the generation ended.\<close>

definition generation_reads ::
  "(char + string \<times> json) list \<times> ending \<Rightarrow> string \<Rightarrow> stop_reason \<Rightarrow> call_failure + stats \<Rightarrow> 'l event list \<Rightarrow> bool" where
  "generation_reads a R reason result out \<longleftrightarrow>
     reasonings out = R \<and> heard out = fst a \<and>
     map_sum id stats_stop_reason result =
       (case closes (natural_reason reason) (snd a) of Some f \<Rightarrow> Inl f | None \<Rightarrow> Inr (natural_reason reason))"

lemma generation_closes:
  assumes "splitter_finish listening es (natural_reason reason) sink = (flow, es', (lp, out))"
    and "closed_on env tools R A (natural_reason reason) flow es' out"
    and "\<not> sq_matched (es_stop es)" "es_tools es = Some p" "tp_failure p = None"
    and "close_generation listening es ids reason sink = (result, out')"
  shows "generation_reads (read_answer env tools False False A) R reason result out'"
proof -
  obtain p' where p': "es_tools es' = Some p'" "flow \<longleftrightarrow> tp_failure p' \<noteq> None"
    "tp_failure p' = closes (natural_reason reason) (snd (read_answer env tools False False A))"
    "reasonings out = R" "heard out = fst (read_answer env tools False False A)" "\<not> sq_matched (es_stop es')"
    using assms(2) by (auto simp: closed_on_def)
  have "splitter_close listening es reason sink = ((flow, natural_reason reason), es', (lp, out))"
    using assms(1,3-5) p'(6) by (simp add: splitter_close_def splitter_failed_def natural_reason_def Let_def split: if_splits)
  then show ?thesis
    using assms(6) p'
    by (auto simp: generation_reads_def close_generation_def splitter_take_failure_def take_failure_def send_def Let_def
        split: option.splits)
qed

lemma close_in_reasoning:
  fixes out :: "'l event list"
  assumes inv: "in_reasoning thinking (Some (parser_new tools counter)) [] G es out"
    and close: "close_generation listening es ids reason (lp, out) = (result, out')"
  shows "generation_reads (read_answer env tools False False (answer_text thinking G))
           (reasoning_text thinking G) reason result out'"
proof -
  obtain es1 lp1 and out1 :: "'l event list" where first:
    "splitter_finish listening es (natural_reason reason) (lp, out) =
       splitter_finish listening es1 (natural_reason reason) (lp1, out1)"
    "es_pending es1 = []" "es_tools es1 = Some (parser_new tools counter)"
    "hears (reasoning_text thinking G) (es_stop es1, [], out1) []"
    "\<not> sq_matched (es_stop es)" "es_tools es = Some (parser_new tools counter)"
    by (rule splitter_finish_reasoning [OF inv])
  obtain flow es' lp' and out2 :: "'l event list" where fin:
    "splitter_finish listening es1 (natural_reason reason) (lp1, out1) = (flow, es', (lp', out2))"
    "closed_on env tools (reasoning_text thinking G) [] (natural_reason reason) flow es' out2"
    by (rule splitter_finish_tools [OF first(2-4) fed_on_start])
  have "answer_text thinking G = []" using inv by (auto simp: in_reasoning_def answer_text_def)
  moreover have "tp_failure (parser_new tools counter) = None" by (simp add: parser_new_def)
  ultimately show ?thesis
    using generation_closes [OF fin(1) [folded first(1)] fin(2) first(5,6) _ close] by simp
qed

lemma close_in_answer:
  fixes out :: "'l event list"
  assumes inv: "in_tools env thinking (parser_new tools counter) False G es out"
    and close: "close_generation listening es ids reason (lp, out) = (result, out')"
  shows "generation_reads (read_answer env tools False False (answer_text thinking G))
           (reasoning_text thinking G) reason result out'"
proof -
  obtain p and xs :: "('l event \<times> nat) list" where p: "es_pending es = []" "es_tools es = Some p"
    "hears (reasoning_text thinking G) (es_stop es, [], out) xs"
    "fed_on env (answer_text thinking G) (with_text (parser_new tools counter) (answer_text thinking G)) False p xs"
    using inv by (auto simp: in_tools_def)
  obtain fl es' lp' and out2 :: "'l event list" where fin:
    "splitter_finish listening es (natural_reason reason) (lp, out) = (fl, es', (lp', out2))"
    "closed_on env tools (reasoning_text thinking G) (answer_text thinking G) (natural_reason reason) fl es' out2"
    by (rule splitter_finish_tools [OF p])
  have "\<not> sq_matched (es_stop es)" "tp_failure p = None"
    using p(3,4) by (simp_all add: hears_def fed_on_def fed_state_def)
  then show ?thesis using generation_closes [OF fin _ p(2) _ close] by simp
qed

lemma splitter_new_tools:
  "in_reasoning thinking (Some (parser_new tools counter)) [] [] (splitter_new thinking (Some (tools, counter)) [])
     ([] :: 'l event list) \<or>
   in_tools env thinking (parser_new tools counter) False [] (splitter_new thinking (Some (tools, counter)) [])
     ([] :: 'l event list)"
proof (cases thinking)
  case True
  then have "in_reasoning thinking (Some (parser_new tools counter)) [] []
      (splitter_new thinking (Some (tools, counter)) []) ([] :: 'l event list)"
    by (simp add: in_reasoning_def splitter_new_def str_find_None)
  then show ?thesis by simp
next
  case False
  have "hears [] (stop_new [], [], [] :: 'l event list) []" by (simp add: hears_def stop_new_def)
  then have "in_tools env thinking (parser_new tools counter) False []
      (splitter_new thinking (Some (tools, counter)) []) ([] :: 'l event list)"
    using False fed_on_start by (auto simp: in_tools_def splitter_new_def reasoning_text_def answer_text_def)
  then show ?thesis by simp
qed

lemma close_after_failure:
  fixes out :: "'l event list"
  assumes "in_tools env thinking (parser_new tools counter) True G es out"
    and "close_generation listening es ids reason (lp, out) = (result, out')"
  shows "generation_reads (read_answer env tools False False (answer_text thinking G))
           (reasoning_text thinking G) reason' result out'"
proof -
  obtain p xs where p: "es_tools es = Some p" "hears (reasoning_text thinking G) (es_stop es, [], out) xs"
    and on: "fed_on env (answer_text thinking G) (with_text (parser_new tools counter) (answer_text thinking G)) True p xs"
    using assms(1) by (auto simp: in_tools_def)
  obtain error where e: "tp_failure p = Some (Invalid_Call error)"
    "read_answer env tools False False (answer_text thinking G) = (reads xs, Call_Broken error)"
    using fed_on_read [OF on, of "[]"] by auto
  have "result = Inl (Invalid_Call error)" "out' = out"
    using assms(2) p(1) e(1)
    by (simp_all add: close_generation_def splitter_close_def splitter_failed_def splitter_take_failure_def
        take_failure_def)
  then show ?thesis using e(2) p(2) by (simp add: hears_def generation_reads_def closes_def)
qed

section \<open>Property\<close>

text \<open>
  C6. A whole generation with tools, for a consumer that listens to the end and asks for no stop
  sequences: however the text was cut into pieces, the consumer reads the reasoning before
  \<open></think>\<close>, and then exactly the visible text and the calls that the rest of the text holds, in
  order; the generation ends with the failure of the text (a call that cannot be read, or one left
  open by a model that ended by itself), and otherwise with its own stop reason.
\<close>

theorem tool_generation:
  fixes out :: "'l event list"
  assumes utf8: "list_all (\<lambda>a. utf8 (fst a)) pieces" and G: "G = concat (map fst pieces)"
    and answer: "read_answer env tools False False (answer_text thinking G) = (answer, e)"
    and run: "generate env listening thinking (Some (tools, counter)) [] pieces ids reason = (result, out)"
  shows "reasonings out = reasoning_text thinking G \<and> heard out = answer \<and>
    map_sum id stats_stop_reason result =
      (case closes (natural_reason reason) e of Some f \<Rightarrow> Inl f | None \<Rightarrow> Inr (natural_reason reason))"
proof -
  have "generation_reads (read_answer env tools False False (answer_text thinking G))
      (reasoning_text thinking G) reason result out"
  proof (rule split_pieces_tools [OF splitter_new_tools [of thinking tools counter env] utf8, of "[]", folded G, simplified])
    fix es lp and out0 :: "'l event list"
    assume "split_pieces env listening (splitter_new thinking (Some (tools, counter)) []) pieces ([], []) = (False, es, lp, out0)"
      and inv: "in_reasoning thinking (Some (parser_new tools counter)) [] G es out0"
    then show ?thesis using close_in_reasoning [OF inv] run by (simp add: generate_def)
  next
    fix failed es lp and out0 :: "'l event list"
    assume "split_pieces env listening (splitter_new thinking (Some (tools, counter)) []) pieces ([], []) = (failed, es, lp, out0)"
      and inv: "in_tools env thinking (parser_new tools counter) failed G es out0"
    then show ?thesis
      using close_after_failure [of env thinking tools counter G es out0]
        close_in_answer [of env thinking tools counter G es out0] run
      by (cases failed) (simp_all add: generate_def)
  qed
  then show ?thesis by (simp add: generation_reads_def answer)
qed

definition sample_generation :: "(string \<times> nat list) list" where
  "sample_generation =
     (''why</thi'', [1]) # (''nk>'' @ [CHR 0x0A], [2]) # map (\<lambda>t. (t, [3])) sample_pieces"

theorem tool_generation_witness:
  "\<exists>result out. generate sample_env listening True (Some ([], 0)) [] sample_generation [] Eos = (result, out) \<and>
     reasonings out = ''why'' \<and>
     heard out = map Inl ''Hi.'' @ [Inr (''ls'', JObj [(''n'', JNum ''5'')])] @ map Inl ''Bye <'' \<and>
     map_sum id stats_stop_reason result = Inr Eos"
proof -
  have u: "list_all (\<lambda>a. utf8 (fst a)) sample_generation" by code_simp
  have r: "read_answer sample_env [] False False (answer_text True (concat (map fst sample_generation))) =
     (map Inl ''Hi.'' @ [Inr (''ls'', JObj [(''n'', JNum ''5'')])] @ map Inl ''Bye <'', Text_Ended)"
    by code_simp
  have t: "reasoning_text True (concat (map fst sample_generation)) = ''why''" by code_simp
  obtain result and out :: "nat event list"
    where g: "generate sample_env listening True (Some ([], 0)) [] sample_generation [] Eos = (result, out)"
    by fastforce
  show ?thesis using tool_generation [OF u refl r g] t g by (simp add: closes_def natural_reason_def)
qed

end
