(* ===== verification/Tool_Replay.thy ===== *)
theory Tool_Replay
  imports Tool_Stream
begin

text \<open>
  Calls replayed in the prompt (\<open>render_call\<close> of \<open>local-engine/src/tools.rs\<close>) against the parser that
  reads generated ones: a call that is rendered as history and generated again is the same call.
\<close>

section \<open>Finding markers in rendered text\<close>







section \<open>Names\<close>




section \<open>A rendered call is read back\<close>







lemma continuation_ascii [simp]:
  "\<not> continuation_byte (CHR ''p'')" "\<not> continuation_byte (CHR ''f'')" "\<not> continuation_byte (CHR ''<'')"
  "\<not> continuation_byte (CHR 0x0A)" "\<not> continuation_byte (CHR ''/'')"
  by (simp_all add: continuation_byte_def)














section \<open>A longer conversation extends the prompt\<close>

lemma validate_turns_append:
  "validate_turns tools (a @ b) st = sbind (validate_turns tools a st) (validate_turns tools b)"
proof (induction a arbitrary: st)
  case (Cons t a)
  then show ?case by (cases "validate_turn tools t st") simp_all
qed simp

lemma run_append:
  assumes "b = [] \<or> \<not> P (hd b)"
  shows "takeWhile P (a @ b) = takeWhile P a" "dropWhile P (a @ b) = dropWhile P a @ b"
  using assms by (induction a; cases b; simp)+

lemma order_from_append:
  assumes "b = [] \<or> \<not> is_tool (hd b)"
  shows "order_from calls (a @ b) = sbind (order_from calls a) (\<lambda>x. sbind (order_from [] b) (\<lambda>y. Inr (x @ y)))"
proof (induction a arbitrary: calls rule: measure_induct_rule [of length])
  case (less a)
  show ?case
  proof (cases a)
    case Nil
    have "order_from calls b = order_from [] b" by (rule order_from_calls [OF assms])
    then show ?thesis using Nil by (cases "order_from [] b") simp_all
  next
    case (Cons t ts)
    show ?thesis
    proof (cases "is_tool t")
      case False
      have "order_from (tn_calls t) (ts @ b) =
          sbind (order_from (tn_calls t) ts) (\<lambda>x. sbind (order_from [] b) (\<lambda>y. Inr (x @ y)))"
        using less Cons by simp
      then show ?thesis using Cons False
        by (cases "order_from (tn_calls t) ts"; cases "order_from [] b") simp_all
    next
      case True
      have tw: "takeWhile is_tool (a @ b) = takeWhile is_tool a" "dropWhile is_tool (a @ b) = dropWhile is_tool a @ b"
        using run_append [of b is_tool a] assms by simp_all
      let ?c = "tn_calls (last (takeWhile is_tool a))"
      have IH: "order_from ?c (dropWhile is_tool a @ b) =
          sbind (order_from ?c (dropWhile is_tool a)) (\<lambda>x. sbind (order_from [] b) (\<lambda>y. Inr (x @ y)))"
        using less [of "dropWhile is_tool a" ?c] Cons True by (simp add: less_Suc_eq_le length_dropWhile_le)
      have eq: "order_from calls (a @ b) =
          (if length calls \<noteq> length (takeWhile is_tool a) then Inl Results_Do_Not_Match
           else sbind (pick_results (takeWhile is_tool a) calls)
             (\<lambda>picked. sbind (order_from ?c (dropWhile is_tool a @ b)) (\<lambda>rest. Inr (picked @ rest))))"
        using Cons True tw by (simp add: Let_def)
      show ?thesis
        unfolding eq IH using Cons True
        by (cases "pick_results (takeWhile is_tool a) calls"; cases "order_from ?c (dropWhile is_tool a)";
            cases "order_from [] b") (simp_all add: Let_def)
    qed
  qed
qed

lemma render_turns_prefix:
  assumes "b = [] \<or> \<not> is_tool (hd b)"
  shows "render_turns f leading True lq i prev a = Inr x \<Longrightarrow>
     render_turns f leading True lq' i prev (a @ b) = Inr z \<Longrightarrow> prefix x z"
proof (induction a arbitrary: i prev x z)
  case (Cons t a)
  let ?after = "\<lambda>ts. case ts of [] \<Rightarrow> None | n # _ \<Rightarrow> Some n"
  obtain y x1 where x: "render_turn f leading True lq i prev t (?after a) = Inr y"
    "render_turns f leading True lq (Suc i) (Some t) a = Inr x1" "x = y @ x1"
    using Cons(2) by auto
  obtain y' z1 where z: "render_turn f leading True lq' i prev t (?after (a @ b)) = Inr y'"
    "render_turns f leading True lq' (Suc i) (Some t) (a @ b) = Inr z1" "z = y' @ z1"
    using Cons(3) by auto
  have "y = y'"
    using x(1) z(1) assms by (cases a; cases b) (auto simp: render_turn_def Let_def split: if_splits)
  then show ?case using Cons(1) [OF x(2) z(2)] x(3) z(3) by simp
qed simp

lemma render_parts:
  assumes "render f turns thinking preserve tools = Inr text"
  obtains seen ordered rendered where "validate_turns tools turns ([], []) = Inr (seen, [])"
    "list_ex is_query turns" "order_results turns = Inr ordered"
    "render_turns f (length (takeWhile (\<lambda>t. instruction_role (tn_role t)) ordered)) preserve
       (case rposition is_query ordered of Some i \<Rightarrow> i | None \<Rightarrow> 0) 0 None ordered = Inr rendered"
    "text = render_system f (leading_instructions (takeWhile (\<lambda>t. instruction_role (tn_role t)) ordered))
       (Option.bind thinking effort_instruction) tools @ rendered @ generation_prompt thinking"
  using assms
  by (auto simp: render_def validate_history_def Let_def takeWhile_eq_take [symmetric] split: if_splits prod.splits)

text \<open>
  C26. With the thinking of earlier turns kept, the prompt of a conversation is, up to its generation
  prompt, a prefix of the prompt of every longer conversation, whatever turns follow and in whatever
  order results are replayed: what was computed for the shorter prompt can be used for the longer.
\<close>

theorem prompt_extends:
  assumes "render to_string turns thinking True tools = Inr text"
    and "render to_string (turns @ later) thinking True tools = Inr text'"
  shows "\<exists>shared. text = shared @ generation_prompt thinking \<and> prefix shared text'"
proof -
  let ?inst = "\<lambda>t. instruction_role (tn_role t)"
  obtain seen a x where a: "validate_turns tools turns ([], []) = Inr (seen, [])" "list_ex is_query turns"
    "order_results turns = Inr a"
    "render_turns to_string (length (takeWhile ?inst a)) True
       (case rposition is_query a of Some i \<Rightarrow> i | None \<Rightarrow> 0) 0 None a = Inr x"
    "text = render_system to_string (leading_instructions (takeWhile ?inst a))
       (Option.bind thinking effort_instruction) tools @ x @ generation_prompt thinking"
    by (rule render_parts [OF assms(1)])
  obtain seen' c z where c: "validate_turns tools (turns @ later) ([], []) = Inr (seen', [])"
    "order_results (turns @ later) = Inr c"
    "render_turns to_string (length (takeWhile ?inst c)) True
       (case rposition is_query c of Some i \<Rightarrow> i | None \<Rightarrow> 0) 0 None c = Inr z"
    "text' = render_system to_string (leading_instructions (takeWhile ?inst c))
       (Option.bind thinking effort_instruction) tools @ z @ generation_prompt thinking"
    by (rule render_parts [OF assms(2)])
  have later: "validate_turns tools later (seen, []) = Inr (seen', [])"
    using c(1) a(1) by (simp add: validate_turns_append)
  have hd: "later = [] \<or> \<not> is_tool (hd later)"
    using later validate_turn_calls(1) by (cases later) auto
  then obtain b where b: "order_from [] later = Inr b" "c = a @ b"
    using c(2) a(3) order_from_append [of later "[]" turns] by (auto simp: order_results_def)
  obtain b' where b': "order_from [] later = Inr b'" "paired b'"
    using order_validated [OF later, of "[]"] by auto
  then have hb: "b = [] \<or> \<not> is_tool (hd b)" using b(1) by (cases b) auto
  have "mset a = mset turns" using order_validated [OF a(1), of "[]"] a(3) by (auto simp: order_results_def)
  then have "list_ex is_query a" using a(2) by (auto simp: list_ex_iff dest: mset_eq_setD)
  then obtain q where "q \<in> set a" "\<not> ?inst q"
    by (auto simp: list_ex_iff is_query_def instruction_role_def Let_def)
  then have tw: "takeWhile ?inst c = takeWhile ?inst a" unfolding b(2) by (metis takeWhile_append1)
  have "prefix x z"
    by (rule render_turns_prefix [OF hb a(4)]) (use c(3) tw b(2) in simp)
  then show ?thesis using a(5) c(4) tw by (auto simp: prefix_def)
qed

theorem prompt_extends_witness:
  "\<not> isl (render sample_to_string sample_history None True []) \<and>
   (\<exists>shared.
      projr (render sample_to_string sample_history None True []) = shared @ generation_prompt None \<and>
      prefix shared (projr (render sample_to_string
        (sample_history @ [sample_turn ''user'' ''and now?'' [] None]) None True [])))"
proof -
  let ?a = "render sample_to_string sample_history None True []"
  let ?b = "render sample_to_string (sample_history @ [sample_turn ''user'' ''and now?'' [] None]) None True []"
  have a: "\<not> isl ?a" by code_simp
  have b: "\<not> isl ?b" by code_simp
  have "?a = Inr (projr ?a)" "?b = Inr (projr ?b)" using a b by (simp_all add: sum.exhaust_sel)
  then show ?thesis using a prompt_extends [of sample_to_string sample_history None "[]" "projr ?a" _ "projr ?b"] by blast
qed

end
