(* ===== verification/Tool_Deltas.thy ===== *)
theory Tool_Deltas
  imports Tool_Stream
begin

text \<open>
  The deltas of an open call (\<open>pieces\<close> and \<open>stream\<close> of \<open>local-engine/src/tools.rs\<close>): in order they
  spell a prefix of the arguments the call ends with, as compact JSON, provided that no parameter is
  both streamed as text and converted as unconstrained; and what happens to one that is.
\<close>

section \<open>What the deltas rely on\<close>

text \<open>\<open>serde_json\<close> prints an object compactly in the order of its members and a string character by
  character between quotes.\<close>

definition prints_json :: "(json \<Rightarrow> string) \<Rightarrow> (string \<Rightarrow> string) \<Rightarrow> bool" where
  "prints_json to_string esc \<longleftrightarrow>
     (\<forall>s. to_string (JStr s) = [CHR 0x22] @ concat (map esc (chars s)) @ [CHR 0x22]) \<and>
     (\<forall>c. starts_char c \<longrightarrow> starts_char (esc c)) \<and> (\<forall>v. starts_char (to_string v)) \<and>
     (\<forall>members. to_string (JObj members) =
        ''{'' @ join_with '','' (map (\<lambda>(k, v). to_string (JStr k) @ '':'' @ to_string v) members) @ ''}'')"

text \<open>A parameter whose text streams takes every text as text.\<close>

definition text_stays_text :: "tool_set \<Rightarrow> bool" where
  "text_stays_text tools \<longleftrightarrow>
     (\<forall>t\<in>set tools. \<forall>key p. schema_parameter (tl_schema t) key = Some p \<and> pm_any_string p \<longrightarrow>
        \<not> pm_unconstrained p \<and> (\<forall>s. is_valid (pm_validator p) (JStr s)))"

abbreviation jsons :: "piece list \<Rightarrow> string list" where
  "jsons \<equiv> map pc_json"

text \<open>Later pieces \<open>ys\<close> agree with earlier ones \<open>xs\<close> but for more of the last and more pieces.\<close>

definition spelled_on :: "string list \<Rightarrow> string list \<Rightarrow> bool" where
  "spelled_on xs ys \<longleftrightarrow> xs \<noteq> [] \<and> (\<exists>z rest. ys = butlast xs @ (last xs @ z) # rest \<and> starts_char z)"

lemma spelled_on_append: "xs \<noteq> [] \<Longrightarrow> spelled_on xs (xs @ ys)"
  unfolding spelled_on_def
  by (rule conjI, assumption, rule exI [of _ "[]"], rule exI [of _ ys])
    (metis append_Cons append_Nil append_Nil2 append_assoc append_butlast_last_id starts_char_simps(1))

lemma spelled_on_last: "starts_char z \<Longrightarrow> spelled_on (xs @ [x]) (xs @ (x @ z) # rest)"
  by (auto simp: spelled_on_def)

lemma spelled_on_concat: "spelled_on xs ys \<Longrightarrow> prefix (concat xs) (concat ys)"
proof -
  assume "spelled_on xs ys"
  then obtain z rest where "xs \<noteq> []" "ys = butlast xs @ (last xs @ z) # rest" by (auto simp: spelled_on_def)
  moreover have "concat xs = concat (butlast xs) @ last xs"
    using \<open>xs \<noteq> []\<close> by (metis append_butlast_last_id concat.simps concat_append append_Nil2)
  ultimately show ?thesis by simp
qed

section \<open>Held-back closing tags\<close>

lemma held_close_max:
  assumes "tag \<in> {PARAMETER_CLOSE, ''</parameter>''}" "0 < n" "n < length tag" "suffix (take n tag) t"
  shows "n \<le> held_close t"
proof -
  obtain m where "partial_tag tag t = Some m" "n \<le> m"
    using partial_tag_longest [OF refl assms(2-4)] by blast
  then show ?thesis using assms(1) by (auto simp: held_close_def List.map_filter_def)
qed

lemma held_closeE:
  assumes "held_close t \<noteq> 0"
  obtains tag where "tag \<in> {PARAMETER_CLOSE, ''</parameter>''}" "suffix (take (held_close t) tag) t"
    "held_close t < length tag"
proof -
  have "partial_tag PARAMETER_CLOSE t = Some (held_close t) \<or>
      partial_tag ''</parameter>'' t = Some (held_close t)"
    using assms by (cases "partial_tag PARAMETER_CLOSE t"; cases "partial_tag ''</parameter>'' t")
      (auto simp: held_close_def List.map_filter_def max_def)
  then show ?thesis
    using that [of PARAMETER_CLOSE] that [of "''</parameter>''"] partial_tag_Some by blast
qed

lemma held_close_boundary:
  "held_close t \<le> length t" "starts_char x \<Longrightarrow> starts_char (drop (length t - held_close t) t @ x)"
proof -
  have "held_close t \<le> length t \<and> (starts_char x \<longrightarrow> starts_char (drop (length t - held_close t) t @ x))" for x
  proof (cases "held_close t = 0")
    case False
    then obtain tag where tag: "tag \<in> {PARAMETER_CLOSE, ''</parameter>''}"
      "suffix (take (held_close t) tag) t" "held_close t < length tag"
      by (rule held_closeE)
    obtain a where a: "t = a @ take (held_close t) tag" using tag(2) by (auto simp: suffix_def)
    have l: "length t = length a + held_close t" using arg_cong [OF a, of length] tag(3) by simp
    have "starts_char tag" using tag(1) by (auto simp: PARAMETER_CLOSE_def continuation_byte_def)
    then have "starts_char (take (held_close t) tag)" by (rule starts_char_take)
    moreover have "drop (length t - held_close t) t = take (held_close t) tag"
      using l a by (metis add_diff_cancel_right' append_eq_conv_conj)
    ultimately show ?thesis using l starts_char_append by simp
  qed simp
  then show "held_close t \<le> length t" "starts_char x \<Longrightarrow> starts_char (drop (length t - held_close t) t @ x)"
    by blast+
qed

definition certain :: "string \<Rightarrow> string" where
  "certain v = take (length v - held_close v) v"

lemma str_get_to_certain: "str_get_to v (length v - held_close v) = certain v"
proof -
  have "starts_char (drop (length v - held_close v) v)" using held_close_boundary(2) [of "[]" v] by simp
  then have "is_char_boundary v (length v - held_close v)"
    by (auto simp: is_char_boundary_def starts_char_def hd_drop_conv_nth)
  then show ?thesis by (simp add: str_get_to_def certain_def)
qed

lemma certain_split:
  assumes "starts_char x" "prefix w (v @ x)" "length v - held_close v \<le> length w"
  obtains d where "w = certain v @ d" "starts_char d"
proof -
  let ?n = "length v - held_close v"
  have n: "take ?n (v @ x) = certain v" "drop ?n (v @ x) = drop ?n v @ x"
    by (simp_all add: certain_def)
  obtain u where u: "v @ x = w @ u" using assms(2) by (auto simp: prefix_def)
  have w: "w = take ?n w @ drop ?n w" by simp
  have "take ?n w = certain v" using n(1) u assms(3) by simp
  moreover have "drop ?n v @ x = drop ?n w @ u" using n(2) u assms(3) by simp
  then have "starts_char (drop ?n w)"
    using held_close_boundary(2) [OF assms(1), of v] starts_char_appendD by metis
  ultimately show ?thesis using that [of "drop ?n w"] w by metis
qed

text \<open>What is certain of an open value stays when more of it is written, and is part of the value.\<close>

lemma suffix_take_tag:
  assumes "suffix (take n tag) (v @ x)" "length x < n" "n \<le> length tag"
  shows "suffix (take (n - length x) tag) v"
proof -
  obtain a where a: "v @ x = a @ take n tag" using assms(1) by (auto simp: suffix_def)
  have l: "length v + length x = length a + n" using arg_cong [OF a, of length] assms(3) by simp
  have "v = take (length v) (a @ take n tag)" using a by (metis append_eq_conv_conj)
  also have "\<dots> = a @ take (min (length v - length a) n) tag" using l assms(2) by simp
  also have "min (length v - length a) n = n - length x" using l assms(2) by simp
  finally show ?thesis by (auto simp: suffix_def)
qed

lemma held_close_append: "length v - held_close v \<le> length (v @ x) - held_close (v @ x)"
proof (cases "held_close (v @ x) \<le> length x")
  case False
  then have "held_close (v @ x) \<noteq> 0" by simp
  then obtain tag where tag: "tag \<in> {PARAMETER_CLOSE, ''</parameter>''}"
    "suffix (take (held_close (v @ x)) tag) (v @ x)" "held_close (v @ x) < length tag"
    by (rule held_closeE)
  let ?n = "held_close (v @ x) - length x"
  have "suffix (take ?n tag) v" using suffix_take_tag [OF tag(2)] tag(3) False by simp
  then have "?n \<le> held_close v" using held_close_max [OF tag(1), of ?n v] False tag(3) by simp
  then show ?thesis by simp
qed simp

lemma certain_grows:
  assumes "starts_char x"
  obtains d where "certain (v @ x) = certain v @ d" "starts_char d"
proof (rule certain_split [OF assms])
  show "prefix (certain (v @ x)) (v @ x)" unfolding certain_def by (rule take_is_prefix)
  show "length v - held_close v \<le> length (certain (v @ x))"
    using held_close_append [of v x] by (simp add: certain_def)
qed (rule that)

lemma chomp_newline_cases: "chomp_newline s = s \<and> \<not> suffix newline s \<or> s = chomp_newline s @ newline"
  by (auto simp: chomp_newline_def strip_suffix_def suffix_def split: option.splits)

lemma certain_in_value:
  assumes "str_find ''</parameter>'' v = None" "split_once (v @ x) ''</parameter>'' = Some (raw, after)"
    and "starts_char x"
  obtains d where "chomp_newline raw = certain v @ d" "starts_char d"
proof (rule certain_split [OF assms(3)])
  let ?c = "''</parameter>''"
  obtain i where i: "str_find ?c (v @ x) = Some i" "raw = take i (v @ x)"
    using assms(2) by (auto simp: split_once_def)
  have il: "i + 12 \<le> length (v @ x)" using str_find_length [OF i(1)] by simp
  have pre: "prefix ?c (drop i (v @ x))" using i(1) by (simp add: str_find_Some)
  have raw: "prefix raw (v @ x)" "length raw = i" using i(2) il take_is_prefix [of i "v @ x"] by simp_all
  have "prefix (chomp_newline raw) raw" using chomp_newline_cases [of raw] by (metis prefixI prefix_order.refl)
  then show "prefix (chomp_newline raw) (v @ x)" using raw(1) by (metis prefix_order.trans)
  have vi: "length v < i + 12"
  proof (rule ccontr)
    assume "\<not> length v < i + 12"
    then have "prefix ?c (drop i v)" using prefix_drop_append [OF pre] by simp
    then show False using assms(1) \<open>\<not> length v < i + 12\<close> by (simp add: str_find_None)
  qed
  show "length v - held_close v \<le> length (chomp_newline raw)"
  proof (cases "length v < i")
    case True
    then show ?thesis using raw(2) chomp_newline_cases [of raw] by (metis diff_le_self le_trans length_append_singleton less_Suc_eq_le not_less_eq order.strict_implies_order)
  next
    case False
    let ?n = "length v - i"
    have v: "v = raw @ drop i v" using i(2) False by simp
    have "drop i v = take ?n (drop i (v @ x))" using False by simp
    moreover obtain z where "drop i (v @ x) = ?c @ z" using pre by (auto simp: prefix_def)
    moreover have "take ?n (?c @ z) = take ?n ?c" using vi take_append [of ?n ?c z] by simp
    ultimately have d: "drop i v = take ?n ?c" by (simp only:)
    show ?thesis
    proof (cases "suffix newline raw")
      case True
      have "take (Suc ?n) PARAMETER_CLOSE = newline @ drop i v" using d by (simp add: PARAMETER_CLOSE_def)
      then have "suffix (take (Suc ?n) PARAMETER_CLOSE) v"
        using True v by (metis append_assoc suffix_def)
      then have "Suc ?n \<le> held_close v"
        using held_close_max [of PARAMETER_CLOSE "Suc ?n" v] vi False by (simp add: PARAMETER_CLOSE_def)
      moreover have "i = length (chomp_newline raw) + 1"
        using True raw(2) chomp_newline_cases [of raw] by (metis length_append_singleton Suc_eq_plus1)
      ultimately show ?thesis using False by simp
    next
      case nl: False
      have "suffix (take ?n ?c) v" using v d by (metis suffixI)
      moreover have "?n < length ?c" using vi False by simp
      ultimately have "?n \<le> held_close v"
        using held_close_max [of ?c ?n v] by (cases "?n = 0") (linarith, metis gr0I insertCI)
      then show ?thesis using False nl raw(2) chomp_newline_cases [of raw] by (auto simp: suffix_def)
    qed
  qed
qed (rule that)

section \<open>Pieces only grow\<close>

abbreviation parameter_header :: "string \<Rightarrow> (string \<times> string) option" where
  "parameter_header rest \<equiv>
     Option.bind (strip_prefix (trim_start rest) ''<parameter='') (\<lambda>after. split_once after ''>'')"

lemma trim_start_tagged:
  assumes "strip_prefix (trim_start s) (c # p) = Some r" "starts_char x"
  shows "trim_start (s @ x) = trim_start s @ x"
proof -
  have "trim_start s \<noteq> []" using assms(1) by (auto simp: strip_prefix_def)
  then show ?thesis using trim_start_append [OF assms(2), of s] trim_start_Nil_iff [of s] by simp
qed

lemma parameter_header_append:
  assumes "parameter_header rest = Some (key, after)" "starts_char x"
  shows "parameter_header (rest @ x) = Some (key, after @ x)"
proof -
  obtain q where q: "strip_prefix (trim_start rest) ''<parameter='' = Some q" "split_once q ''>'' = Some (key, after)"
    using assms(1) by (auto simp: bind_eq_Some_conv)
  show ?thesis
    using trim_start_tagged [OF q(1) assms(2)] strip_prefix_append [OF q(1), of x] split_once_append [OF q(2), of x]
    by simp
qed

lemma strip_newline_append: "s \<noteq> [] \<Longrightarrow> strip_newline (s @ x) = strip_newline s @ x"
  by (cases s) (auto simp: strip_newline_def strip_prefix_def)

lemma open_quoted_text:
  assumes "prints_json to_string esc"
  shows "open_quoted to_string s = [CHR 0x22] @ concat (map esc (chars s))"
    "to_string (JStr s) = open_quoted to_string s @ [CHR 0x22]"
proof -
  have t: "to_string (JStr s) = ([CHR 0x22] @ concat (map esc (chars s))) @ [CHR 0x22]"
    using assms unfolding prints_json_def by (metis append_assoc)
  then show "open_quoted to_string s = [CHR 0x22] @ concat (map esc (chars s))"
    unfolding open_quoted_def t strip_suffix_def by (simp add: suffixI)
  then show "to_string (JStr s) = open_quoted to_string s @ [CHR 0x22]" using t by simp
qed

lemma open_quoted_grows:
  assumes "prints_json to_string esc" "starts_char d"
  obtains z where "open_quoted to_string (s @ d) = open_quoted to_string s @ z" "starts_char z"
proof -
  have "starts_char (esc c)" if "c \<in> set (chars d)" for c
    using that assms starts_char_chars [OF assms(2)] by (auto simp: prints_json_def)
  then have "starts_char (concat (map esc (chars d)))" by (intro starts_char_concat) auto
  then show ?thesis
    using that [of "concat (map esc (chars d))"] open_quoted_text(1) [OF assms(1)] chars_append [OF assms(2), of s]
    by simp
qed

lemma starts_char_quoted:
  assumes "prints_json to_string esc"
  shows "starts_char (open_quoted to_string s)" "starts_char (to_string v)"
  using open_quoted_text(1) [OF assms, of s] assms
  by (simp_all add: continuation_byte_def prints_json_def)

lemma finished_text:
  assumes "text_stays_text tools" "t \<in> set tools" "tl_strict t = None" "streams_text t key = Some True"
  shows "finished_value f t key raw = Some (JStr raw)"
  using assms
  by (auto simp: text_stays_text_def streams_text_def finished_value_def convert_def Let_def split: option.splits)

lemma pieces_from_acc: "\<exists>Q. pieces_from env t rest seen acc = acc @ Q"
proof (induction env t rest seen acc rule: pieces_from.induct)
  case (1 env t rest seen acc)
  show ?case
    by (subst pieces_from.simps)
      (auto simp: Let_def split: option.splits prod.splits dest!: 1 [rotated -1])
qed

text \<open>One turn of the loop of \<open>pieces_from\<close> for a tool that is not strict.\<close>

datatype piece_step = Stop | Last_Piece piece | More_Pieces piece string string

definition piece_step :: "tool_env \<Rightarrow> tool \<Rightarrow> string \<Rightarrow> string list \<Rightarrow> bool \<Rightarrow> piece_step" where
  "piece_step env t rest seen first =
     (case parameter_header rest of
        None \<Rightarrow> Stop
      | Some (key, after) \<Rightarrow>
          let text_mode = (streams_text t key = Some True);
              json = (if first then [] else '','') @ te_to_string env (JStr key) @ '':'';
              value = strip_newline after
          in if \<not> check_parameter_name key \<or> key \<in> set seen then Stop
             else if after = [] then Last_Piece \<lparr>pc_json = json, pc_text = None\<rparr>
             else case split_once value ''</parameter>'' of
               Some (raw, following) \<Rightarrow>
                 More_Pieces
                   \<lparr>pc_json = json @ te_to_string env
                        (convert (te_from_str env) (chomp_newline raw) (schema_parameter (tl_schema t) key)),
                    pc_text = (if text_mode then Some (key, chomp_newline raw) else None)\<rparr>
                   key following
             | None \<Rightarrow>
                 Last_Piece
                   (if text_mode
                    then \<lparr>pc_json = json @ open_quoted (te_to_string env) (certain value),
                          pc_text = Some (key, certain value)\<rparr>
                    else \<lparr>pc_json = json, pc_text = None\<rparr>))"

lemma pieces_from_step:
  assumes "tl_strict t = None" "acc \<noteq> []"
  shows "pieces_from env t rest seen acc =
     (case piece_step env t rest seen (length acc \<le> 1) of
        Stop \<Rightarrow> acc
      | Last_Piece q \<Rightarrow> acc @ [q]
      | More_Pieces q key following \<Rightarrow> pieces_from env t following (key # seen) (acc @ [q]))"
  by (subst pieces_from.simps)
    (use assms in \<open>auto simp: piece_step_def streams_text_def finished_value_def Let_def str_get_to_certain
        not_less split: option.splits prod.splits\<close>)

text \<open>The text of a piece that more text has added to.\<close>

definition piece_grown :: "piece \<Rightarrow> piece \<Rightarrow> bool" where
  "piece_grown q q' \<longleftrightarrow> (\<exists>z. pc_json q' = pc_json q @ z \<and> starts_char z)"

lemma piece_grownI: "pc_json q' = pc_json q @ z \<Longrightarrow> starts_char z \<Longrightarrow> piece_grown q q'"
  by (auto simp: piece_grown_def)

lemma open_value_grows:
  assumes "prints_json to_string esc" "split_once v ''</parameter>'' = None" "starts_char x"
  shows "split_once (v @ x) ''</parameter>'' = Some (raw, after) \<Longrightarrow>
      \<exists>z. to_string (JStr (chomp_newline raw)) = open_quoted to_string (certain v) @ z \<and> starts_char z"
    and "\<exists>z. open_quoted to_string (certain (v @ x)) = open_quoted to_string (certain v) @ z \<and> starts_char z"
proof -
  assume s: "split_once (v @ x) ''</parameter>'' = Some (raw, after)"
  have n: "str_find ''</parameter>'' v = None" using assms(2) by (simp add: split_once_def)
  obtain d where d: "chomp_newline raw = certain v @ d" "starts_char d"
    by (rule certain_in_value [OF n s assms(3)])
  obtain z where z: "open_quoted to_string (certain v @ d) = open_quoted to_string (certain v) @ z" "starts_char z"
    by (rule open_quoted_grows [OF assms(1) d(2)])
  have "starts_char (z @ [CHR 0x22])" using z(2) by (intro starts_char_append) (simp_all add: continuation_byte_def)
  then show "\<exists>z. to_string (JStr (chomp_newline raw)) = open_quoted to_string (certain v) @ z \<and> starts_char z"
    using open_quoted_text(2) [OF assms(1), of "chomp_newline raw"] d(1) z(1) by auto
next
  obtain d where d: "certain (v @ x) = certain v @ d" "starts_char d" by (rule certain_grows [OF assms(3)])
  obtain z where "open_quoted to_string (certain v @ d) = open_quoted to_string (certain v) @ z" "starts_char z"
    by (rule open_quoted_grows [OF assms(1) d(2)])
  then show "\<exists>z. open_quoted to_string (certain (v @ x)) = open_quoted to_string (certain v) @ z \<and> starts_char z"
    using d(1) by auto
qed

lemma piece_step_append:
  assumes "prints_json (te_to_string env) esc" "text_stays_text tools" "t \<in> set tools" "tl_strict t = None"
    and "starts_char x"
  shows "case piece_step env t rest seen first of
      Stop \<Rightarrow> True
    | Last_Piece q \<Rightarrow>
        (case piece_step env t (rest @ x) seen first of
           Stop \<Rightarrow> False | Last_Piece q' \<Rightarrow> piece_grown q q' | More_Pieces q' _ _ \<Rightarrow> piece_grown q q')
    | More_Pieces q key following \<Rightarrow>
        piece_step env t (rest @ x) seen first = More_Pieces q key (following @ x)"
proof (cases "parameter_header rest")
  case None
  then show ?thesis by (simp add: piece_step_def)
next
  case (Some h)
  obtain key after where h: "parameter_header rest = Some (key, after)" using Some by (cases h) auto
  note h' = parameter_header_append [OF h assms(5)]
  have law: "convert (te_from_str env) raw (schema_parameter (tl_schema t) key) = JStr raw"
    if "streams_text t key = Some True" for raw
    using finished_text [OF assms(2-4) that, of "te_from_str env" raw] assms(4) by (simp add: finished_value_def)
  have sc: "starts_char (te_to_string env v)" "starts_char (open_quoted (te_to_string env) s)" for v s
    using starts_char_quoted [OF assms(1)] by auto
  consider (bad) "\<not> check_parameter_name key \<or> key \<in> set seen" | (empty) "check_parameter_name key" "key \<notin> set seen" "after = []"
    | (valued) "check_parameter_name key" "key \<notin> set seen" "after \<noteq> []" by blast
  then show ?thesis
  proof cases
    case bad
    then show ?thesis using h by (simp add: piece_step_def)
  next
    case empty
    then show ?thesis using h h' sc
      by (auto simp: piece_step_def Let_def piece_grown_def split: option.splits prod.splits)
  next
    case valued
    have v: "strip_newline (after @ x) = strip_newline after @ x" by (rule strip_newline_append [OF valued(3)])
    show ?thesis
    proof (cases "split_once (strip_newline after) ''</parameter>''")
      case (Some y)
      then show ?thesis using h h' v valued split_once_append [of "strip_newline after" "''</parameter>''" _ _ x]
        by (cases y) (simp add: piece_step_def Let_def)
    next
      case None
      show ?thesis
      proof (cases "streams_text t key = Some True")
        case True
        note grow = open_value_grows [OF assms(1) None assms(5)]
        show ?thesis using h h' v valued None True law grow
          by (auto simp: piece_step_def Let_def piece_grown_def split: option.splits prod.splits)
      next
        case False
        then show ?thesis using h h' v valued None sc
          by (auto simp: piece_step_def Let_def piece_grown_def split: option.splits prod.splits)
      qed
    qed
  qed
qed

lemma parameter_header_length: "parameter_header rest = Some (key, after) \<Longrightarrow> length after < length rest"
  using trim_start_length [of rest]
  by (auto simp: bind_eq_Some_conv dest!: split_once_length strip_prefix_length)

lemma piece_step_shorter:
  assumes "piece_step env t rest seen first = More_Pieces q key following"
  shows "length following < length rest"
proof -
  obtain after raw where h: "parameter_header rest = Some (key, after)"
    "split_once (strip_newline after) ''</parameter>'' = Some (raw, following)"
    using assms by (auto simp: piece_step_def Let_def split: option.splits prod.splits if_splits)
  have "length following \<le> length (strip_newline after)" using split_once_length [OF h(2)] by simp
  then show ?thesis using strip_newline_length [of after] parameter_header_length [OF h(1)] by simp
qed

lemma jsons_acc:
  assumes "pieces_from env t rest seen (acc @ [q]) = Q"
  obtains Q' where "jsons Q = jsons acc @ pc_json q # Q'"
  using pieces_from_acc [of env t rest seen "acc @ [q]"] assms by auto

lemma pieces_grow:
  assumes "prints_json (te_to_string env) esc" "text_stays_text tools" "t \<in> set tools" "tl_strict t = None"
    and "starts_char x"
  shows "acc \<noteq> [] \<Longrightarrow>
     spelled_on (jsons (pieces_from env t rest seen acc)) (jsons (pieces_from env t (rest @ x) seen acc))"
proof (induction "length rest" arbitrary: rest seen acc rule: less_induct)
  case less
  let ?first = "length acc \<le> 1"
  note step = pieces_from_step [OF assms(4) less(2)]
  note app = piece_step_append [OF assms, of rest seen ?first]
  show ?case
  proof (cases "piece_step env t rest seen ?first")
    case Stop
    then show ?thesis
      using step [of env rest seen] pieces_from_acc [of env t "rest @ x" seen acc] less(2) spelled_on_append by auto
  next
    case (Last_Piece q)
    have "\<exists>Q z. jsons (pieces_from env t (rest @ x) seen acc) = jsons acc @ (pc_json q @ z) # Q \<and> starts_char z"
    proof (cases "piece_step env t (rest @ x) seen ?first")
      case (More_Pieces q' key following)
      moreover obtain Q where "jsons (pieces_from env t following (key # seen) (acc @ [q'])) = jsons acc @ pc_json q' # Q"
        by (rule jsons_acc [OF refl])
      ultimately show ?thesis using app Last_Piece step [of env "rest @ x" seen] by (auto simp: piece_grown_def)
    qed (use app Last_Piece step [of env "rest @ x" seen] in \<open>auto simp: piece_grown_def\<close>)
    then show ?thesis using Last_Piece step [of env rest seen] spelled_on_last by auto
  next
    case (More_Pieces q key following)
    have sh: "length following < length rest" by (rule piece_step_shorter [OF More_Pieces])
    then show ?thesis
      using More_Pieces app step less(1) [OF sh, of "acc @ [q]" "key # seen"] by simp
  qed
qed

lemma get_tool_set: "get_tool tools name = Some t \<Longrightarrow> t \<in> set tools"
  by (auto simp: get_tool_def find_Some_iff)

lemma get_tool_not_strict: "get_tool tools name = Some t \<Longrightarrow> \<not> any_strict tools \<Longrightarrow> tl_strict t = None"
  using get_tool_set by (fastforce simp: any_strict_def list_ex_iff)

lemma call_pieces_grow:
  assumes "prints_json (te_to_string env) esc" "text_stays_text tools" "\<not> any_strict tools" "starts_char x"
    and "call_pieces env tools b = Some (name, P)"
  obtains Q where "call_pieces env tools (b @ x) = Some (name, Q)" "spelled_on (jsons P) (jsons Q)"
proof -
  obtain q rest t where q: "strip_prefix (trim_start b) ''<function='' = Some q" "split_once q ''>'' = Some (name, rest)"
    "get_tool tools name = Some t" "P = pieces_from env t rest [] [\<lparr>pc_json = ''{'', pc_text = None\<rparr>]"
    using assms(5) by (auto simp: call_pieces_def bind_eq_Some_conv split: option.splits)
  let ?Q = "pieces_from env t (rest @ x) [] [\<lparr>pc_json = ''{'', pc_text = None\<rparr>]"
  have "call_pieces env tools (b @ x) = Some (name, ?Q)"
    using q(3) trim_start_tagged [OF q(1) assms(4)] strip_prefix_append [OF q(1), of x] split_once_append [OF q(2), of x]
    by (simp add: call_pieces_def)
  moreover have "spelled_on (jsons P) (jsons ?Q)"
    unfolding q(4) using pieces_grow [OF assms(1,2) get_tool_set [OF q(3)] get_tool_not_strict [OF q(3) assms(3)] assms(4)]
    by simp
  ultimately show ?thesis by (rule that)
qed

section \<open>The pieces of a complete call\<close>

definition member_text :: "(json \<Rightarrow> string) \<Rightarrow> string \<times> json \<Rightarrow> string" where
  "member_text to_string m = to_string (JStr (fst m)) @ '':'' @ to_string (snd m)"

abbreviation object_start :: "(json \<Rightarrow> string) \<Rightarrow> (string \<times> json) list \<Rightarrow> string" where
  "object_start to_string members \<equiv> ''{'' @ join_with '','' (map (member_text to_string) members)"

lemma object_text:
  assumes "prints_json to_string esc"
  shows "to_string (JObj members) = object_start to_string members @ ''}''"
proof -
  have "map (\<lambda>(k, v). to_string (JStr k) @ '':'' @ to_string v) members = map (member_text to_string) members"
    by (auto simp: member_text_def)
  then show ?thesis using assms unfolding prints_json_def by (metis append_assoc)
qed

lemma join_with_snoc:
  "join_with sep (xs @ [x]) = (if xs = [] then x else join_with sep xs @ sep @ x)"
proof (induction xs)
  case (Cons a xs)
  then show ?case by (cases xs) auto
qed simp

text \<open>A call that ends here: nothing but the end of the function follows its parameters.\<close>

lemma function_end:
  assumes "all_white rest"
  shows "parameter_header (rest @ ''</function>'' @ y) = None"
proof -
  have w: "starts_char (''</function>'' @ y)" by (simp add: continuation_byte_def)
  have "trim_start (rest @ ''</function>'' @ y) = trim_start (''</function>'' @ y)"
    using trim_start_append [OF w, of rest] assms by simp
  also have "\<dots> = ''</function>'' @ y"
    by (simp add: trim_start_def is_whitespace_def continuation_byte_def)
  finally show ?thesis by (simp add: strip_prefix_def)
qed

lemma pieces_spell:
  assumes "tl_strict t = None"
  shows "parse_parameters (te_from_str env) (Some t) rest args = Inr final \<Longrightarrow>
     length acc = Suc (length args) \<Longrightarrow> set seen = fst ` set args \<Longrightarrow>
     concat (jsons acc) = object_start (te_to_string env) args \<Longrightarrow>
     concat (jsons (pieces_from env t (rest @ ''</function>'' @ y) seen acc)) =
     object_start (te_to_string env) final"
proof (induction "length rest" arbitrary: rest args acc seen rule: less_induct)
  case less
  let ?w = "''</function>'' @ y"
  have w: "starts_char ?w" by (simp add: continuation_byte_def)
  have acc: "acc \<noteq> []" using less(3) by auto
  note step = pieces_from_step [OF assms acc, of env "rest @ ?w" seen]
  show ?case
  proof (cases "trim_start rest = []")
    case True
    then have "final = args" using less(2) by (simp add: parse_parameters.simps [of _ _ rest])
    moreover have "parameter_header (rest @ ?w) = None" using True function_end by (simp only: trim_start_Nil_iff)
    ultimately show ?thesis using step less(5) by (simp add: piece_step_def)
  next
    case False
    then obtain key p1 raw after where h: "parameter_header rest = Some (key, p1)" "check_parameter_name key"
      "split_once (strip_newline p1) ''</parameter>'' = Some (raw, after)" "map_of args key = None"
      and rec: "parse_parameters (te_from_str env) (Some t) after
        (args @ [(key, convert (te_from_str env) (chomp_newline raw) (schema_parameter (tl_schema t) key))]) = Inr final"
      using less(2)
      by (auto simp: parse_parameters.simps [of _ _ rest] tool_parameter_def Let_def split: option.splits prod.splits if_splits)
    let ?v = "convert (te_from_str env) (chomp_newline raw) (schema_parameter (tl_schema t) key)"
    have p1: "p1 \<noteq> []" using split_once_length [OF h(3)] by (auto simp: strip_newline_def strip_prefix_def)
    have "length after \<le> length (strip_newline p1)" using split_once_length [OF h(3)] by simp
    then have sh: "length after < length rest"
      using strip_newline_length [of p1] parameter_header_length [OF h(1)] by simp
    have key: "key \<notin> set seen" using h(4) less(4) by (auto simp: map_of_eq_None_iff)
    obtain q where ps: "piece_step env t (rest @ ?w) seen (length acc \<le> 1) = More_Pieces q key (after @ ?w)"
      and q: "pc_json q = (if args = [] then [] else '','') @ member_text (te_to_string env) (key, ?v)"
      using parameter_header_append [OF h(1) w] h(2) key p1 strip_newline_append [OF p1, of ?w] split_once_append [OF h(3), of ?w] less(3)
      by (auto simp: piece_step_def Let_def member_text_def)
    have "concat (jsons (acc @ [q])) = object_start (te_to_string env) (args @ [(key, ?v)])"
      using less(5) q by (auto simp: join_with_snoc)
    then have "concat (jsons (pieces_from env t (after @ ?w) (key # seen) (acc @ [q]))) = object_start (te_to_string env) final"
      using less(1) [OF sh rec, of "acc @ [q]" "key # seen"] less(3,4) by simp
    then show ?thesis using step ps by simp
  qed
qed

lemma trim_end_prefix: "\<exists>w. s = trim_end s @ w"
proof -
  have "chars s = rev (dropWhile is_whitespace (rev (chars s))) @ rev (takeWhile is_whitespace (rev (chars s)))"
    by (metis rev_append rev_rev_ident takeWhile_dropWhile_id)
  then show ?thesis unfolding trim_end_def by (metis concat_append concat_chars)
qed

lemma strip_prefix_Some: "strip_prefix s p = Some r \<longleftrightarrow> s = p @ r"
  by (auto simp: strip_prefix_def prefix_def)

lemma strip_suffix_Some: "strip_suffix s p = Some r \<longleftrightarrow> s = r @ p"
  by (auto simp: strip_suffix_def suffix_def)

lemma call_spells:
  assumes "parse_call (te_from_str env) tools i block = Inr c" "\<not> any_strict tools" "starts_char y"
    and "call_pieces env tools (block @ y) = Some (name, P)"
  obtains members where "tc_arguments c = JObj members"
    "concat (jsons P) = object_start (te_to_string env) members"
proof -
  obtain body0 body rest members where b: "trim block = ''<function='' @ body0"
    "split_once body0 ''>'' = Some (tc_name c, body)" "trim_end body = rest @ ''</function>''"
    "parse_parameters (te_from_str env) (get_tool tools (tc_name c)) rest [] = Inr members"
    "tc_arguments c = JObj members"
    using assms(1)
    by (auto simp: parse_call_def strip_prefix_Some strip_suffix_Some split: option.splits prod.splits if_splits)
  obtain w1 w2 where w: "trim_start block = trim block @ w1" "body = trim_end body @ w2"
    using trim_end_prefix [of "trim_start block"] trim_end_prefix [of body] by (auto simp: trim_def)
  have s: "strip_prefix (trim_start block) ''<function='' = Some (body0 @ w1)"
    unfolding strip_prefix_Some using w(1) b(1) by simp
  let ?rest = "rest @ ''</function>'' @ w2 @ w1 @ y"
  have body: "body @ w1 @ y = ?rest" using w(2) b(3) by simp
  have "Option.bind (strip_prefix (trim_start (block @ y)) ''<function='') (\<lambda>b. split_once b ''>'') =
      Some (tc_name c, ?rest)"
    using trim_start_tagged [OF s assms(3)] strip_prefix_append [OF s, of y]
      split_once_append [OF b(2), of "w1 @ y"] body by simp
  then obtain t where t: "get_tool tools (tc_name c) = Some t"
    "P = pieces_from env t ?rest [] [\<lparr>pc_json = ''{'', pc_text = None\<rparr>]"
    using assms(4) by (auto simp: call_pieces_def split: option.splits)
  have "concat (jsons P) = object_start (te_to_string env) members"
    using pieces_spell [OF get_tool_not_strict [OF t(1) assms(2)], of env rest "[]" members
        "[\<lparr>pc_json = ''{'', pc_text = None\<rparr>]" "[]"] b(4) t by simp
  then show ?thesis using b(5) that by blast
qed

section \<open>What the deltas of a call spell\<close>

definition delta_text :: "string \<Rightarrow> ('l event \<times> nat) list \<Rightarrow> string" where
  "delta_text i out =
     concat (map (\<lambda>(e, _). case e of
        ToolCallDelta d \<Rightarrow> if dl_id d = i then dl_arguments d else [] | _ \<Rightarrow> []) out)"

lemma delta_text_append: "delta_text i (a @ b) = delta_text i a @ delta_text i b"
  by (simp add: delta_text_def)

abbreviation deltas :: "nat \<Rightarrow> tool_call_delta list \<Rightarrow> ('l event \<times> nat) list" where
  "deltas n ds \<equiv> map (\<lambda>d. (ToolCallDelta d, n)) ds"

lemma delta_text_deltas:
  "\<forall>d\<in>set ds. dl_id d = j \<Longrightarrow> delta_text i (deltas n ds) = (if i = j then concat (map dl_arguments ds) else [])"
  by (induction ds) (auto simp: delta_text_def)

lemma stream_pieces_spells:
  fixes out out1 :: "('l event \<times> nat) list"
  shows "stream_pieces collect consumed final index ps sm out = (flow, sm1, out1) \<Longrightarrow> ps \<noteq> [] \<Longrightarrow>
     final = index + length ps - 1 \<Longrightarrow> sm_piece sm = index \<Longrightarrow> sm_json sm \<le> length (pc_json (hd ps)) \<Longrightarrow>
     is_char_boundary (pc_json (hd ps)) (sm_json sm) \<Longrightarrow>
     \<exists>ds. out1 = out @ deltas consumed ds \<and> (\<forall>d\<in>set ds. dl_id d = sm_id sm) \<and>
       concat (map dl_arguments ds) = drop (sm_json sm) (concat (jsons ps)) \<and>
       sm_id sm1 = sm_id sm \<and> sm_piece sm1 = final \<and> sm_json sm1 = length (pc_json (last ps))"
proof (induction ps arbitrary: index sm out)
  case (Cons q ps)
  let ?a = "drop (sm_json sm) (pc_json q)"
  have a: "str_get_from (pc_json q) (sm_json sm) = ?a" using Cons(6,7) by (simp add: str_get_from_def)
  obtain sm2 ds where sm2: "stream_pieces collect consumed final (Suc index) ps sm2 (out @ deltas consumed ds) = (flow, sm1, out1)"
    "\<forall>d\<in>set ds. dl_id d = sm_id sm" "concat (map dl_arguments ds) = ?a"
    "sm_id sm2 = sm_id sm"
    "index < final \<longrightarrow> sm_piece sm2 = Suc index \<and> sm_json sm2 = 0"
    "\<not> index < final \<longrightarrow> sm_piece sm2 = index \<and> sm_json sm2 = length (pc_json q)"
  proof -
    define d where "d = \<lparr>dl_id = sm_id sm, dl_name = sm_name sm, dl_arguments = ?a,
      dl_text = map_option (\<lambda>(key, raw). (key, str_get_from raw (sm_text sm))) (pc_text q)\<rparr>"
    define ds where "ds = (if ?a = [] then [] else [d])"
    define sm2 where "sm2 = (if index < final then sm\<lparr>sm_piece := Suc index, sm_json := 0, sm_text := 0\<rparr>
      else sm\<lparr>sm_json := length (pc_json q), sm_text := (case pc_text q of Some (_, raw) \<Rightarrow> length raw | None \<Rightarrow> 0)\<rparr>)"
    have "stream_pieces collect consumed final (Suc index) ps sm2 (out @ deltas consumed ds) = (flow, sm1, out1)"
      using Cons(2) collect_def [of "ToolCallDelta d" consumed out]
      by (auto simp: a Let_def d_def [symmetric] sm2_def [symmetric] ds_def split: if_splits)
    then show ?thesis
      by (rule that) (use Cons(5) in \<open>auto simp: ds_def d_def sm2_def\<close>)
  qed
  have q: "drop (sm_json sm) (concat (jsons (q # ps))) = ?a @ concat (jsons ps)" using Cons(6) by simp
  show ?case
  proof (cases "ps = []")
    case True
    then show ?thesis using sm2 Cons(4) by (intro exI [of _ ds]) auto
  next
    case False
    then have "index < final" using Cons(4) by (cases ps) auto
    then obtain ds' where "out1 = (out @ deltas consumed ds) @ deltas consumed ds'" "\<forall>d\<in>set ds'. dl_id d = sm_id sm2"
      "concat (map dl_arguments ds') = concat (jsons ps)" "sm_id sm1 = sm_id sm2" "sm_piece sm1 = final"
      "sm_json sm1 = length (pc_json (last ps))"
      using Cons(1) [OF sm2(1) False, of ] Cons(4) sm2(5) False by (auto simp: is_char_boundary_def)
    then show ?thesis using sm2(2-4) False q by (intro exI [of _ "ds @ ds'"]) auto
  qed
qed simp

section \<open>The invariant of the stream\<close>

definition issued :: "tool_env \<Rightarrow> tool_parser \<Rightarrow> string \<Rightarrow> bool" where
  "issued env p i \<longleftrightarrow> (\<exists>k<tp_next p. i = te_call_id env k)"

text \<open>Ids come from the counter, and the deltas of every call sent so far spell the start of its
  arguments.\<close>

fun event_ok :: "tool_env \<Rightarrow> tool_parser \<Rightarrow> ('l event \<times> nat) list \<Rightarrow> 'l event \<Rightarrow> bool" where
  "event_ok env p out (ToolCallDelta d) \<longleftrightarrow> issued env p (dl_id d)"
| "event_ok env p out (ToolCall c) \<longleftrightarrow>
     issued env p (tc_id c) \<and> prefix (delta_text (tc_id c) out) (te_to_string env (tc_arguments c))"
| "event_ok env p out _ \<longleftrightarrow> True"

abbreviation deltas_ok :: "tool_env \<Rightarrow> tool_parser \<Rightarrow> ('l event \<times> nat) list \<Rightarrow> bool" where
  "deltas_ok env p out \<equiv> \<forall>e\<in>set out. event_ok env p out (fst e)"

text \<open>The deltas of the open call spell the pieces of the text they were read from.\<close>

definition spells :: "tool_env \<Rightarrow> tool_parser \<Rightarrow> ('l event \<times> nat) list \<Rightarrow> streamed \<Rightarrow> string \<Rightarrow> bool" where
  "spells env p out sm b \<longleftrightarrow>
     issued env p (sm_id sm) \<and> (\<forall>c n. (ToolCall c, n) \<in> set out \<longrightarrow> tc_id c \<noteq> sm_id sm) \<and>
     (\<exists>name P. call_pieces env (tp_tools p) b = Some (name, P) \<and>
        delta_text (sm_id sm) out = concat (jsons P) \<and>
        sm_piece sm = length P - 1 \<and> sm_json sm = length (pc_json (last P)))"

definition open_ok :: "tool_env \<Rightarrow> tool_parser \<Rightarrow> ('l event \<times> nat) list \<Rightarrow> bool" where
  "open_ok env p out \<longleftrightarrow>
     (\<forall>sm. tp_streamed p = Some sm \<longrightarrow>
        tp_in_call p \<and> (\<exists>b x. tp_pending p = b @ x \<and> starts_char x \<and> spells env p out sm b))"

lemma issued_mono: "tp_next p \<le> tp_next p1 \<Longrightarrow> issued env p i \<Longrightarrow> issued env p1 i"
  unfolding issued_def using less_le_trans by blast

lemma fresh_id:
  assumes "inj (te_call_id env)" "deltas_ok env p out"
  shows "delta_text (te_call_id env (tp_next p)) out = []"
    "(ToolCall c, n) \<in> set out \<Longrightarrow> tc_id c \<noteq> te_call_id env (tp_next p)"
proof -
  have new: "\<not> issued env p (te_call_id env (tp_next p))"
    using assms(1) by (auto simp: issued_def dest: injD)
  show "(ToolCall c, n) \<in> set out \<Longrightarrow> tc_id c \<noteq> te_call_id env (tp_next p)"
    using assms(2) new by fastforce
  have "(case fst e of ToolCallDelta d \<Rightarrow> if dl_id d = te_call_id env (tp_next p) then dl_arguments d else [] | _ \<Rightarrow> []) = []"
    if "e \<in> set out" for e
    using assms(2) that new by (cases "fst e") force+
  then show "delta_text (te_call_id env (tp_next p)) out = []"
    by (auto simp: delta_text_def case_prod_beta)
qed

text \<open>Deltas of one call leave every other call as it was.\<close>

lemma deltas_ok_deltas:
  assumes "deltas_ok env p out" "tp_next p \<le> tp_next p1" "issued env p1 i"
    and "\<forall>d\<in>set ds. dl_id d = i" "\<And>c n. (ToolCall c, n) \<in> set out \<Longrightarrow> tc_id c \<noteq> i"
  shows "deltas_ok env p1 (out @ deltas m ds)"
proof
  fix e assume e: "e \<in> set (out @ deltas m ds)"
  show "event_ok env p1 (out @ deltas m ds) (fst e)"
  proof (cases "e \<in> set out")
    case True
    then have "event_ok env p out (fst e)" using assms(1) by blast
    then show ?thesis
    proof (cases "fst e")
      case (ToolCall c)
      then have "tc_id c \<noteq> i" using assms(5) [of c "snd e"] True by (cases e) auto
      then show ?thesis
        using ToolCall \<open>event_ok env p out (fst e)\<close> issued_mono [OF assms(2)]
        by (simp add: delta_text_append delta_text_deltas [OF assms(4)])
    qed (use issued_mono [OF assms(2)] in auto)
  next
    case False
    then show ?thesis using e assms(3,4) by auto
  qed
qed

lemma deltas_ok_content:
  assumes "deltas_ok env p out" "tp_next p1 = tp_next p" "\<forall>e\<in>set new. \<exists>t. fst e = Content t"
  shows "deltas_ok env p1 (out @ new)" "delta_text i (out @ new) = delta_text i out"
    "(ToolCall c, n) \<in> set (out @ new) \<longleftrightarrow> (ToolCall c, n) \<in> set out"
proof -
  have "delta_text i new = []" for i using assms(3) by (induction new) (auto simp: delta_text_def)
  then show d: "delta_text i (out @ new) = delta_text i out" for i by (simp add: delta_text_append)
  show "deltas_ok env p1 (out @ new)"
  proof
    fix e assume "e \<in> set (out @ new)"
    then show "event_ok env p1 (out @ new) (fst e)"
      using assms by (cases "fst e") (auto simp: d issued_def)
  qed
  have "(ToolCall c, n) \<notin> set new" using bspec [OF assms(3), of "(ToolCall c, n)"] by auto
  then show "(ToolCall c, n) \<in> set (out @ new) \<longleftrightarrow> (ToolCall c, n) \<in> set out" by simp
qed

lemma emit_text_content:
  assumes "emit_text collect p t offset out = (flow, p1, out1)"
  obtains new where "out1 = out @ new" "\<forall>e\<in>set new. \<exists>t. fst e = Content t"
proof (cases "(if tp_after_call p then trim_start t else t) = []")
  case True
  then show ?thesis using assms that [of "[]"] by (simp add: emit_text_def)
next
  case False
  then show ?thesis using assms that by (auto simp: emit_text_def collect_def Let_def)
qed

lemma boundary_append: "starts_char z \<Longrightarrow> is_char_boundary (a @ z) (length a)"
  by (cases z) (auto simp: is_char_boundary_def nth_append)

text \<open>Streaming goes on where the pieces sent before end.\<close>

lemma spelled_on_resume:
  assumes "spelled_on (jsons P0) (jsons P)" "n = length P0 - 1" "k = length (pc_json (last P0))"
  shows "drop n P \<noteq> []" "k \<le> length (pc_json (hd (drop n P)))"
    "is_char_boundary (pc_json (hd (drop n P))) k" "n < length P"
    "concat (jsons P0) @ drop k (concat (jsons (drop n P))) = concat (jsons P)"
proof -
  have ne: "P0 \<noteq> []" using assms(1) by (auto simp: spelled_on_def)
  obtain z rest where P: "jsons P = butlast (jsons P0) @ (last (jsons P0) @ z) # rest" and z: "starts_char z"
    using assms(1) by (auto simp: spelled_on_def)
  have l: "last (jsons P0) = pc_json (last P0)" using ne by (simp add: last_map)
  have n: "n = length (butlast (jsons P0))" using assms(2) by simp
  have J: "jsons (drop n P) = (pc_json (last P0) @ z) # rest" using P l n by (simp flip: drop_map)
  then have h: "drop n P \<noteq> []" "pc_json (hd (drop n P)) = pc_json (last P0) @ z" by (auto simp flip: hd_map)
  then show "drop n P \<noteq> []" "k \<le> length (pc_json (hd (drop n P)))" "n < length P" using assms(3) by auto
  show "is_char_boundary (pc_json (hd (drop n P))) k" using h(2) assms(3) boundary_append [OF z] by simp
  have "concat (jsons P0) = concat (butlast (jsons P0)) @ pc_json (last P0)"
    using ne l by (metis Nil_is_map_conv append_butlast_last_id append_Nil2 concat.simps concat_append)
  then show "concat (jsons P0) @ drop k (concat (jsons (drop n P))) = concat (jsons P)"
    unfolding J using P l assms(3) by simp
qed

lemma pieces_from_start: "call_pieces env tools b = Some (name, P) \<Longrightarrow> P \<noteq> []"
  using pieces_from_acc [of env _ _ "[]" "[\<lparr>pc_json = ''{'', pc_text = None\<rparr>]"]
  by (auto simp: call_pieces_def split: option.splits) (metis append_is_Nil_conv list.discI)

definition delta_laws :: "tool_env \<Rightarrow> (string \<Rightarrow> string) \<Rightarrow> tool_set \<Rightarrow> bool" where
  "delta_laws env esc tools \<longleftrightarrow>
     prints_json (te_to_string env) esc \<and> inj (te_call_id env) \<and> text_stays_text tools \<and> \<not> any_strict tools"

lemma stream_first:
  fixes out :: "('l event \<times> nat) list"
  assumes "inj (te_call_id env)" "deltas_ok env p out" "call_pieces env (tp_tools p) (tp_pending p) = Some (name, P)"
    and "stream_pieces collect (tp_consumed p) (length P - 1) 0 P
      \<lparr>sm_id = te_call_id env (tp_next p), sm_name = name, sm_piece = 0, sm_json = 0, sm_text = 0\<rparr> out = (flow, sm1, out1)"
    and "p1 = p\<lparr>tp_streamed := Some sm1, tp_next := Suc (tp_next p)\<rparr>"
  shows "deltas_ok env p1 out1 \<and> spells env p1 out1 sm1 (tp_pending p)"
proof -
  let ?i = "te_call_id env (tp_next p)"
  obtain ds where ds: "out1 = out @ deltas (tp_consumed p) ds" "\<forall>d\<in>set ds. dl_id d = ?i"
    "concat (map dl_arguments ds) = concat (jsons P)" "sm_id sm1 = ?i" "sm_piece sm1 = length P - 1"
    "sm_json sm1 = length (pc_json (last P))"
    using stream_pieces_spells [OF assms(4) pieces_from_start [OF assms(3)]] by (auto simp: is_char_boundary_def)
  have i: "issued env p1 ?i" by (auto simp: assms(5) issued_def)
  have "deltas_ok env p1 out1"
    unfolding ds(1) using fresh_id(2) [OF assms(1,2)] ds(2) i
    by (intro deltas_ok_deltas [OF assms(2)]) (auto simp: assms(5))
  moreover have "delta_text ?i out1 = concat (jsons P)"
    unfolding ds(1) delta_text_append using fresh_id(1) [OF assms(1,2)] ds(3)
    by (simp add: delta_text_deltas [OF ds(2)])
  moreover have "tc_id c \<noteq> ?i" if "(ToolCall c, n) \<in> set out1" for c n
    using that fresh_id(2) [OF assms(1,2)] ds(1) by auto
  ultimately show ?thesis using ds(4-6) i assms(3) by (auto simp: spells_def assms(5))
qed

lemma stream_more:
  fixes out :: "('l event \<times> nat) list"
  assumes "delta_laws env esc (tp_tools p)" "deltas_ok env p out" "spells env p out sm b" "starts_char x"
    and "tp_pending p = b @ x" "call_pieces env (tp_tools p) (tp_pending p) = Some (name, P)"
    and "stream_pieces collect (tp_consumed p) (length P - 1) (sm_piece sm) (drop (sm_piece sm) P) sm out = (flow, sm1, out1)"
    and "p1 = p\<lparr>tp_streamed := Some sm1, tp_next := tp_next p\<rparr>"
  shows "deltas_ok env p1 out1 \<and> spells env p1 out1 sm1 (tp_pending p)"
proof -
  obtain name0 P0 where P0: "call_pieces env (tp_tools p) b = Some (name0, P0)"
    "delta_text (sm_id sm) out = concat (jsons P0)" "sm_piece sm = length P0 - 1"
    "sm_json sm = length (pc_json (last P0))" "issued env p (sm_id sm)"
    "\<And>c n. (ToolCall c, n) \<in> set out \<Longrightarrow> tc_id c \<noteq> sm_id sm"
    using assms(3) by (auto simp: spells_def)
  have "spelled_on (jsons P0) (jsons P)"
    using call_pieces_grow [OF _ _ _ assms(4) P0(1)] assms(1,5,6) by (auto simp: delta_laws_def)
  note r = spelled_on_resume [OF this P0(3,4)]
  have "length P - 1 = sm_piece sm + length (drop (sm_piece sm) P) - 1" using r(4) by simp
  then obtain ds where ds: "out1 = out @ deltas (tp_consumed p) ds" "\<forall>d\<in>set ds. dl_id d = sm_id sm"
    "concat (map dl_arguments ds) = drop (sm_json sm) (concat (jsons (drop (sm_piece sm) P)))"
    "sm_id sm1 = sm_id sm" "sm_piece sm1 = length P - 1"
    "sm_json sm1 = length (pc_json (last (drop (sm_piece sm) P)))"
    using stream_pieces_spells [OF assms(7) r(1) _ refl r(2,3)] by blast
  have i: "issued env p1 (sm_id sm)" using P0(5) by (simp add: assms(8) issued_def)
  have "deltas_ok env p1 out1"
    unfolding ds(1) using P0(6) ds(2) i by (intro deltas_ok_deltas [OF assms(2)]) (auto simp: assms(8))
  moreover have "delta_text (sm_id sm) out1 = concat (jsons P)"
    unfolding ds(1) delta_text_append using P0(2) ds(3) r(5) by (simp add: delta_text_deltas [OF ds(2)])
  moreover have "tc_id c \<noteq> sm_id sm" if "(ToolCall c, n) \<in> set out1" for c n
    using that P0(6) ds(1) by auto
  moreover have "last (drop (sm_piece sm) P) = last P" using r(1) by (simp add: last_drop)
  ultimately show ?thesis using ds(4-6) i assms(6) by (auto simp: spells_def assms(8))
qed

lemma stream_deltas:
  assumes "delta_laws env esc (tp_tools p)" "deltas_ok env p out" "open_ok env p out" "tp_in_call p"
    and "stream env collect p out = (flow, p1, out1)"
  shows "deltas_ok env p1 out1" "open_ok env p1 out1"
proof -
  have "deltas_ok env p1 out1 \<and> open_ok env p1 out1"
  proof (cases "call_pieces env (tp_tools p) (tp_pending p)")
    case None
    then show ?thesis using assms by (simp add: stream_def)
  next
    case (Some y)
    obtain name P where P: "call_pieces env (tp_tools p) (tp_pending p) = Some (name, P)" using Some by (cases y) auto
    have "\<exists>sm1. deltas_ok env p1 out1 \<and> spells env p1 out1 sm1 (tp_pending p) \<and> tp_streamed p1 = Some sm1 \<and>
        tp_pending p1 = tp_pending p \<and> tp_in_call p1"
    proof (cases "tp_streamed p")
      case None
      then show ?thesis
        using assms(1,2,4,5) P stream_first [OF _ assms(2) P]
        by (auto simp: stream_def delta_laws_def split: prod.splits)
    next
      case (Some sm)
      then obtain b x where b: "tp_pending p = b @ x" "starts_char x" "spells env p out sm b"
        using assms(3) by (auto simp: open_ok_def)
      show ?thesis
        using assms(4,5) P Some stream_more [OF assms(1,2) b(3,2,1) P]
        by (auto simp: stream_def split: prod.splits)
    qed
    then show ?thesis unfolding open_ok_def by (metis append_Nil2 option.inject starts_char_simps(1))
  qed
  then show "deltas_ok env p1 out1" "open_ok env p1 out1" by blast+
qed

lemma open_call_prefix:
  assumes "delta_laws env esc (tp_tools p)" "spells env p out sm b" "tp_pending p = b @ x" "starts_char x"
    and "call_end (tp_pending p) (tp_tools p) = Some (e, m, st)"
    and "parse_call (te_from_str env) (tp_tools p) i (take e (tp_pending p)) = Inr c"
  shows "prefix (delta_text (sm_id sm) out) (te_to_string env (tc_arguments c))"
proof -
  have laws: "prints_json (te_to_string env) esc" "text_stays_text (tp_tools p)" "\<not> any_strict (tp_tools p)"
    using assms(1) by (simp_all add: delta_laws_def)
  obtain name0 P0 where P0: "call_pieces env (tp_tools p) b = Some (name0, P0)"
    "delta_text (sm_id sm) out = concat (jsons P0)"
    using assms(2) by (auto simp: spells_def)
  obtain Q where Q: "call_pieces env (tp_tools p) (tp_pending p) = Some (name0, Q)" "spelled_on (jsons P0) (jsons Q)"
    unfolding assms(3) by (rule call_pieces_grow [OF laws assms(4) P0(1)])
  have "m = CALL_END" "prefix m (drop e (tp_pending p))"
    using laws(3) call_end_found [OF assms(5)] assms(5) by (auto simp: call_end_def str_find_Some)
  then have "starts_char (drop e (tp_pending p))" by (auto simp: prefix_def CALL_END_def continuation_byte_def)
  then obtain members where "tc_arguments c = JObj members" "concat (jsons Q) = object_start (te_to_string env) members"
    using call_spells [OF assms(6) laws(3), of "drop e (tp_pending p)" name0 Q] Q(1) by auto
  moreover have "te_to_string env (JObj members) = object_start (te_to_string env) members @ ''}''"
    by (rule object_text [OF laws(1)])
  ultimately show ?thesis using spelled_on_concat [OF Q(2)] P0(2) by (metis prefix_prefix)
qed

lemma end_call_deltas:
  assumes "delta_laws env esc (tp_tools p)" "deltas_ok env p out" "open_ok env p out"
    and "call_end (tp_pending p) (tp_tools p) = Some (e, m, st)"
    and "parse_call (te_from_str env) (tp_tools p) (te_call_id env (tp_next p)) (take e (tp_pending p)) = Inr c"
    and "c' = (case tp_streamed p of Some sm \<Rightarrow> c\<lparr>tc_id := sm_id sm\<rparr> | None \<Rightarrow> c)" "tp_next p1 = Suc (tp_next p)"
  shows "deltas_ok env p1 (out @ [(ToolCall c', n)])"
proof -
  have id: "tc_id c = te_call_id env (tp_next p)"
    using assms(5) by (auto simp: parse_call_def split: option.splits prod.splits if_splits)
  have inj: "inj (te_call_id env)" using assms(1) by (simp add: delta_laws_def)
  have "issued env p1 (tc_id c') \<and> prefix (delta_text (tc_id c') out) (te_to_string env (tc_arguments c'))"
  proof (cases "tp_streamed p")
    case None
    then show ?thesis using fresh_id(1) [OF inj assms(2)] id assms(6,7) by (auto simp: issued_def)
  next
    case (Some sm)
    then obtain b x where b: "tp_pending p = b @ x" "starts_char x" "spells env p out sm b"
      using assms(3) by (auto simp: open_ok_def)
    have "issued env p1 (sm_id sm)" using b(3) issued_mono [of p p1] assms(7) by (auto simp: spells_def)
    then show ?thesis using open_call_prefix [OF assms(1) b(3,1,2) assms(4,5)] Some assms(6) by simp
  qed
  moreover have "delta_text i (out @ [(ToolCall c', n)]) = delta_text i out" for i
    by (simp add: delta_text_def)
  moreover have "event_ok env p1 (out @ [(ToolCall c', n)]) (fst x)" if "x \<in> set out" for x
    using assms(2) that issued_mono [of p p1] assms(7)
    by (cases "fst x") (use calculation(2) in force)+
  ultimately show ?thesis by auto
qed

section \<open>Over a whole stream\<close>

definition delta_state :: "tool_env \<Rightarrow> (string \<Rightarrow> string) \<Rightarrow> tool_parser \<Rightarrow> ('l event \<times> nat) list \<Rightarrow> bool" where
  "delta_state env esc p out \<longleftrightarrow>
     delta_laws env esc (tp_tools p) \<and> deltas_ok env p out \<and> open_ok env p out"

lemma emit_text_deltas:
  assumes "emit_text collect p t offset out = (flow, p1, out1)" "deltas_ok env p out"
  shows "deltas_ok env p1 out1"
proof -
  obtain new where "out1 = out @ new" "\<forall>e\<in>set new. \<exists>t. fst e = Content t"
    by (rule emit_text_content [OF assms(1)])
  then show ?thesis
    using deltas_ok_content(1) [OF assms(2), of p1 new] emit_text_keeps [OF assms(1)] by simp
qed

lemma event_ok_next: "tp_next p1 = tp_next p \<Longrightarrow> event_ok env p1 out e = event_ok env p out e"
  by (cases e) (simp_all add: issued_def)

lemma deltas_ok_next: "deltas_ok env p out \<Longrightarrow> tp_next p1 = tp_next p \<Longrightarrow> deltas_ok env p1 out"
  using event_ok_next by blast

lemma delta_stateD:
  assumes "delta_state env esc p out"
  shows "delta_laws env esc (tp_tools p)" "deltas_ok env p out" "open_ok env p out"
  using assms by (simp_all add: delta_state_def)

text \<open>The text before, between and after calls streams nothing of a call.\<close>

lemma text_deltas:
  assumes "delta_state env esc p out" "\<not> tp_in_call p"
    and "emit_text collect p0 t offset out = (flow, p1, out1)"
    and "tp_tools p0 = tp_tools p" "tp_streamed p0 = tp_streamed p" "tp_next p0 = tp_next p"
  shows "delta_state env esc p1 out1"
proof -
  note d = delta_stateD [OF assms(1)]
  have sn: "tp_streamed p = None" using d(3) assms(2) by (auto simp: open_ok_def)
  have "deltas_ok env p0 out" using d(2) event_ok_next [OF assms(6)] by blast
  then show ?thesis
    using emit_text_deltas [OF assms(3)] emit_text_keeps [OF assms(3)] d(1) sn assms(4-6)
    by (simp add: delta_state_def open_ok_def)
qed

lemma stream_delta_state:
  assumes "delta_state env esc p out" "tp_in_call p" "stream env collect p out = (flow, p1, out1)"
  shows "delta_state env esc p1 out1"
proof -
  note d = delta_stateD [OF assms(1)]
  obtain sm n where "p1 = p\<lparr>tp_streamed := sm, tp_next := n\<rparr>" using stream_reads(3) [OF assms(3)] by blast
  then have "tp_tools p1 = tp_tools p" by simp
  then show ?thesis using stream_deltas [OF d assms(2,3)] d(1) by (simp add: delta_state_def)
qed

text \<open>One turn of the loop that goes on is a loop from a parser with less pending text; \<open>fed_deltas\<close> is
  what a loop that ends in \<open>flow\<close> promises.\<close>

definition fed_deltas :: "tool_env \<Rightarrow> (string \<Rightarrow> string) \<Rightarrow> bool \<Rightarrow> tool_parser \<Rightarrow> ('l event \<times> nat) list \<Rightarrow> bool" where
  "fed_deltas env esc flow p out \<longleftrightarrow> (\<not> flow \<longrightarrow> delta_state env esc p out) \<and> deltas_ok env p out"

lemma delta_state_fed: "delta_state env esc p out \<Longrightarrow> fed_deltas env esc flow p out"
  unfolding fed_deltas_def using delta_stateD(2) by blast

lemma loop_end_deltas:
  fixes out :: "('l event \<times> nat) list"
  assumes run: "feed_loop env collect p out = (flow, p', out')" and ds: "delta_state env esc p out"
    and call: "tp_in_call p" "call_end (tp_pending p) (tp_tools p) = Some (e, m, st)"
    and less: "\<And>p1 out1. length (tp_pending p1) < length (tp_pending p) \<Longrightarrow>
      feed_loop env collect p1 out1 = (flow, p', out') \<Longrightarrow> delta_state env esc p1 out1 \<Longrightarrow> fed_deltas env esc flow p' out'"
  shows "fed_deltas env esc flow p' out'"
proof -
  note d = delta_stateD [OF ds]
  have st: "st = None" using d(1) call(2) by (auto simp: call_end_def delta_laws_def)
  show ?thesis
  proof (cases "parse_call (te_from_str env) (tp_tools p) (te_call_id env (tp_next p)) (take e (tp_pending p))")
    case (Inl error)
    then have "flow" "out' = out" "tp_next p' = tp_next p"
      using run call st by (auto simp: feed_loop.simps [of env collect p] Let_def)
    then show ?thesis using d(2) event_ok_next unfolding fed_deltas_def by blast
  next
    case (Inr c)
    define c' where "c' = (case tp_streamed p of Some sm \<Rightarrow> c\<lparr>tc_id := sm_id sm\<rparr> | None \<Rightarrow> c)"
    let ?p = "p\<lparr>tp_pending := drop (e + length m) (tp_pending p), tp_consumed := tp_consumed p + e + length m,
          tp_in_call := False, tp_after_call := True, tp_streamed := None, tp_next := Suc (tp_next p)\<rparr>"
    have rec: "feed_loop env collect ?p (out @ [(ToolCall c', tp_consumed ?p)]) = (flow, p', out')"
      using run call st Inr
      by (simp add: feed_loop.simps [of env collect p] Let_def collect_def c'_def)
    have "deltas_ok env ?p (out @ [(ToolCall c', tp_consumed ?p)])"
      by (rule end_call_deltas [OF d call(2) Inr c'_def]) simp
    then have "delta_state env esc ?p (out @ [(ToolCall c', tp_consumed ?p)])"
      using d(1) unfolding delta_state_def open_ok_def by simp
    then show ?thesis using less [OF _ rec] call_end_shrinks [OF call(2)] by simp
  qed
qed

lemma loop_start_deltas:
  fixes out :: "('l event \<times> nat) list"
  assumes run: "feed_loop env collect p out = (flow, p', out')" and ds: "delta_state env esc p out"
    and no_call: "\<not> tp_in_call p" "str_find CALL_START (tp_pending p) = Some i"
    and less: "\<And>p1 out1. length (tp_pending p1) < length (tp_pending p) \<Longrightarrow>
      feed_loop env collect p1 out1 = (flow, p', out') \<Longrightarrow> delta_state env esc p1 out1 \<Longrightarrow> fed_deltas env esc flow p' out'"
  shows "fed_deltas env esc flow p' out'"
proof -
  let ?s = "tp_pending p"
  let ?p = "p\<lparr>tp_pending := drop (i + length CALL_START) ?s,
          tp_consumed := tp_consumed p + i + length CALL_START, tp_in_call := True\<rparr>"
  obtain fl p2 out2 where em: "emit_text collect ?p (trim_end (take i ?s)) (tp_consumed p) out = (fl, p2, out2)"
    by (metis prod_cases3)
  have ds2: "delta_state env esc p2 out2" by (rule text_deltas [OF ds no_call(1) em]) simp_all
  have rec: "feed_loop env collect p2 out2 = (flow, p', out')"
    using run no_call em emit_text_collect(1) [OF em] by (auto simp: feed_loop.simps [of env collect p] Let_def)
  have "length (tp_pending p2) < length ?s"
    using str_find_length [OF no_call(2)] emit_text_keeps [OF em] by (simp add: CALL_START_def)
  then show ?thesis using less [OF _ rec ds2] by simp
qed

lemma loop_text_deltas:
  fixes out :: "('l event \<times> nat) list"
  assumes run: "feed_loop env collect p out = (flow, p', out')" and ds: "delta_state env esc p out"
    and no_call: "\<not> tp_in_call p" "str_find CALL_START (tp_pending p) = None"
  shows "delta_state env esc p' out'"
proof -
  let ?s = "tp_pending p"
  let ?n = "length ?s - held_suffix ?s"
  let ?p = "p\<lparr>tp_pending := drop ?n ?s, tp_consumed := tp_consumed p + ?n\<rparr>"
  show ?thesis
  proof (cases "?n = 0")
    case True
    then have "p' = p" "out' = out" using run no_call by (simp_all add: feed_loop.simps [of env collect p] Let_def)
    then show ?thesis using ds by simp
  next
    case False
    then have em: "emit_text collect ?p (take ?n ?s) (tp_consumed p) out = (flow, p', out')"
      using run no_call by (simp add: feed_loop.simps [of env collect p] Let_def)
    show ?thesis by (rule text_deltas [OF ds no_call(1) em]) simp_all
  qed
qed

lemma feed_loop_fed_deltas:
  fixes out :: "('l event \<times> nat) list"
  shows "feed_loop env collect p out = (flow, p', out') \<Longrightarrow> delta_state env esc p out \<Longrightarrow> fed_deltas env esc flow p' out'"
proof (induction "length (tp_pending p)" arbitrary: p out rule: less_induct)
  case less
  let ?s = "tp_pending p"
  consider (open_call) "tp_in_call p" "call_end ?s (tp_tools p) = None"
    | (end_call) e m st where "tp_in_call p" "call_end ?s (tp_tools p) = Some (e, m, st)"
    | (start_call) i where "\<not> tp_in_call p" "str_find CALL_START ?s = Some i"
    | (plain) "\<not> tp_in_call p" "str_find CALL_START ?s = None"
    by (metis option.exhaust prod_cases3)
  then show ?case
  proof cases
    case open_call
    then have "stream env collect p out = (flow, p', out')"
      using less(2) by (simp add: feed_loop.simps [of env collect p])
    then show ?thesis by (rule delta_state_fed [OF stream_delta_state [OF less(3) open_call(1)]])
  next
    case end_call
    then show ?thesis by (rule loop_end_deltas [OF less(2,3) _ _ less(1)])
  next
    case start_call
    then show ?thesis by (rule loop_start_deltas [OF less(2,3) _ _ less(1)])
  next
    case plain
    then show ?thesis by (rule delta_state_fed [OF loop_text_deltas [OF less(2,3)]])
  qed
qed

lemma feed_loop_deltas:
  fixes out :: "('l event \<times> nat) list"
  shows "feed_loop env collect p out = (flow, p', out') \<Longrightarrow> delta_state env esc p out \<Longrightarrow>
     (\<not> flow \<longrightarrow> delta_state env esc p' out') \<and> deltas_ok env p' out'"
  using feed_loop_fed_deltas unfolding fed_deltas_def by blast

lemma delta_state_extend:
  assumes "delta_state env esc p out" "starts_char t"
  shows "delta_state env esc (with_text p t) out"
proof -
  note d = delta_stateD [OF assms(1)]
  have "\<exists>b x. tp_pending (with_text p t) = b @ x \<and> starts_char x \<and> spells env (with_text p t) out sm b"
    if sm: "tp_streamed (with_text p t) = Some sm" for sm
  proof -
    have "tp_streamed p = Some sm" using sm by (simp add: with_text_def)
    then obtain b x where b: "tp_pending p = b @ x" "starts_char x" "spells env p out sm b"
      using d(3) by (auto simp: open_ok_def)
    have "starts_char (x @ t)" by (rule starts_char_append [OF b(2) assms(2)])
    moreover have "spells env (with_text p t) out sm b" using b(3) by (simp add: spells_def with_text_def issued_def)
    ultimately show ?thesis using b(1) by (metis append_assoc with_text_simps(2))
  qed
  moreover have "tp_in_call (with_text p t)" if "tp_streamed (with_text p t) = Some sm" for sm
    using that d(3) by (auto simp: open_ok_def with_text_def)
  moreover have "deltas_ok env (with_text p t) out"
    by (rule deltas_ok_next [OF d(2)]) (simp add: with_text_def)
  ultimately show ?thesis using d(1) by (simp add: delta_state_def open_ok_def)
qed

lemma feed_all_deltas:
  "feed_all env collect p ts out = (flow, p', out') \<Longrightarrow> delta_state env esc p out \<Longrightarrow> list_all utf8 ts \<Longrightarrow>
     deltas_ok env p' out'"
proof (induction ts arbitrary: p out)
  case Nil
  then show ?case using delta_stateD(2) [OF Nil(2)] by simp
next
  case (Cons t ts)
  have t: "starts_char t" using Cons(4) utf8_starts_char by simp
  obtain fl p1 out1 where feed: "feed env collect p t out = (fl, p1, out1)" by (metis prod_cases3)
  show ?case
  proof (cases "tp_failure p")
    case None
    then have lp: "feed_loop env collect (with_text p t) out = (fl, p1, out1)"
      using feed by (simp add: feed_def with_text_def)
    note step = feed_loop_deltas [OF lp delta_state_extend [OF Cons(3) t]]
    show ?thesis using Cons(1,2,4) feed step by (cases fl) auto
  next
    case (Some f)
    then show ?thesis using Cons(2) delta_stateD(2) [OF Cons(3)] by (simp add: feed_def)
  qed
qed

lemma finish_deltas:
  assumes "parser_finish collect p reason out = (flow, p', out')" "deltas_ok env p out"
  shows "deltas_ok env p' out'"
proof (cases "tp_failure p = None \<and> \<not> tp_in_call p")
  case True
  let ?p = "p\<lparr>tp_pending := [], tp_consumed := tp_consumed p + length (tp_pending p)\<rparr>"
  have em: "emit_text collect ?p (tp_pending p) (tp_consumed p) out = (flow, p', out')"
    using assms(1) True by (simp add: parser_finish_def)
  have "deltas_ok env ?p out" by (rule deltas_ok_next [OF assms(2)]) simp
  then show ?thesis by (rule emit_text_deltas [OF em])
next
  case False
  then have "out' = out" "tp_next p' = tp_next p"
    using assms(1) by (auto simp: parser_finish_def split: if_splits)
  then show ?thesis using deltas_ok_next [OF assms(2)] by simp
qed

text \<open>
  C9. In order, the deltas of a call spell a prefix of the arguments that its closing event carries,
  printed as compact JSON in the order the model wrote them, however the text was cut into pieces.
  The tools are not strict, and every parameter that streams as text takes every text as text.
\<close>

theorem deltas_spell_arguments:
  fixes out :: "('l event \<times> nat) list"
  assumes "delta_laws env esc tools" "list_all utf8 pieces"
    and "parse_pieces env tools counter pieces reason = (p, out)" "(ToolCall c, n) \<in> set out"
  shows "prefix (delta_text (tc_id c) out) (te_to_string env (tc_arguments c))"
proof -
  let ?p = "parser_new tools counter"
  obtain flow p1 and out1 :: "('l event \<times> nat) list"
    where fa: "feed_all env collect ?p pieces [] = (flow, p1, out1)" by (metis prod_cases3)
  have "delta_state env esc ?p []"
    using assms(1) by (simp add: delta_state_def open_ok_def parser_new_def)
  then have d: "deltas_ok env p1 out1" by (rule feed_all_deltas [OF fa _ assms(2)])
  have fin: "snd (parser_finish collect p1 reason out1) = (p, out)"
    using assms(3) fa by (simp add: parse_pieces_def)
  have "parser_finish collect p1 reason out1 = (fst (parser_finish collect p1 reason out1), p, out)"
    unfolding fin [symmetric] by simp
  then have "deltas_ok env p out" using d by (rule finish_deltas)
  then have "event_ok env p out (fst (ToolCall c, n))" by (rule bspec) (rule assms(4))
  then show ?thesis by simp
qed

section \<open>A parameter of any type\<close>

text \<open>The \<open>type\<close> keyword of JSON Schema, and a schema library that knows nothing else; a reference
  into the registered document is followed to a declared property.\<close>

definition type_name :: "json \<Rightarrow> string list" where
  "type_name v =
     (case v of
        JNull \<Rightarrow> [''null''] | JBool _ \<Rightarrow> [''boolean''] | JNum _ \<Rightarrow> [''number'', ''integer'']
      | JStr _ \<Rightarrow> [''string''] | JArr _ \<Rightarrow> [''array''] | JObj _ \<Rightarrow> [''object''])"

definition type_validator :: "json \<Rightarrow> validator" where
  "type_validator schema v =
     (let ok = (\<lambda>kind. list_ex (\<lambda>n. kind = JStr n) (type_name v)) in
      case json_get schema ''type'' of
        Some (JArr kinds) \<Rightarrow> if list_ex ok kinds then None else Some ''type''
      | Some kind \<Rightarrow> if ok kind then None else Some ''type''
      | None \<Rightarrow> None)"

definition resolve_property :: "json \<Rightarrow> string \<Rightarrow> json" where
  "resolve_property schema pointer =
     (case strip_prefix pointer (SCHEMA_URI @ ''#/properties/'') of
        Some name \<Rightarrow>
          (case Option.bind (json_get schema ''properties'') (\<lambda>ps. json_get ps name) of
             Some declared \<Rightarrow> declared | None \<Rightarrow> JNull)
      | None \<Rightarrow> JNull)"

definition type_lib :: schema_lib where
  "type_lib =
     \<lparr>sl_build = (\<lambda>schema. Inr (type_validator schema)), sl_registry = (\<lambda>_. Inr ()),
      sl_build_in = (\<lambda>schema reference. Inr (case get_str reference ''$ref'' of
         Some pointer \<Rightarrow> type_validator (resolve_property schema pointer) | None \<Rightarrow> type_validator reference))\<rparr>"

text \<open>A tool \<open>set\<close> with one parameter \<open>x\<close> of the given types.\<close>

definition set_tool :: "string list \<Rightarrow> tool_definition" where
  "set_tool types =
     \<lparr>td_name = ''set'', td_description = None,
      td_parameters = JObj [(''type'', JStr ''object''),
        (''properties'', JObj [(''x'', JObj [(''type'', JArr (map JStr types))])])],
      td_strict = False\<rparr>"

definition set_tools :: "string list \<Rightarrow> tool_set" where
  "set_tools types =
     (case toolset_new type_lib (\<lambda>_. Inl []) [set_tool types] of Inr tools \<Rightarrow> tools | Inl _ \<Rightarrow> [])"


text \<open>A call whose value ends after its first digit was streamed.\<close>

definition set_pieces :: "string list" where
  "set_pieces =
     [''<tool_call>'' @ newline @ ''<function=set>'' @ newline @ ''<parameter=x>'' @ newline @ ''5'',
      newline @ ''</parameter>'' @ newline @ ''</function>'' @ newline @ ''</tool_call>'']"

definition calls_of :: "('l event \<times> nat) list \<Rightarrow> tool_call list" where
  "calls_of out = List.map_filter (\<lambda>(e, _). case e of ToolCall c \<Rightarrow> Some c | _ \<Rightarrow> None) out"


section \<open>A parameter of type string\<close>

definition sample_esc :: "string \<Rightarrow> string" where
  "sample_esc c = concat (map escape_byte c)"

lemma concat_map_chars: "concat (map sample_esc (chars s)) = concat (map escape_byte s)"
proof -
  have "concat (map sample_esc cs) = concat (map escape_byte (concat cs))" for cs
    by (induction cs) (simp_all add: sample_esc_def)
  then show ?thesis by simp
qed

lemma sample_prints_json: "prints_json sample_to_string sample_esc"
  unfolding prints_json_def
proof (intro conjI allI impI)
  fix c assume "starts_char c"
  then show "starts_char (sample_esc c)"
    by (cases c) (auto simp: sample_esc_def escape_byte_def continuation_byte_def)
next
  fix v show "starts_char (sample_to_string v)"
  proof (cases v)
    case (JNum n)
    then show ?thesis using hd_in_set [of "filter (\<lambda>c. \<not> continuation_byte c) n"] by (auto simp: starts_char_def)
  qed (auto simp: continuation_byte_def)
qed (simp_all add: concat_map_chars)

definition string_schema :: json where
  "string_schema = JObj [(''type'', JArr [JStr ''string''])]"

definition string_parameter :: parameter where
  "string_parameter =
     \<lparr>pm_validator = type_validator string_schema, pm_unconstrained = False, pm_any_string = True\<rparr>"

lemma compile_string_parameter:
  assumes "json_get schema ''properties'' = Some (JObj [(''x'', string_schema)])" "map_of members ''$schema'' = None"
  shows "compile_parameter type_lib schema members (''/properties/'' @ fragment_segment ''x'') string_schema = Inr string_parameter"
proof -
  let ?pointer = "SCHEMA_URI @ ''#'' @ ''/properties/'' @ fragment_segment ''x''"
  have "fragment_segment ''x'' = ''x''" by code_simp
  moreover have "strip_prefix ?pointer (SCHEMA_URI @ ''#/properties/'') = Some (fragment_segment ''x'')"
    by (simp add: strip_prefix_Some)
  ultimately have r: "resolve_property schema ?pointer = string_schema"
    using assms(1) by (simp add: resolve_property_def)
  have u: "\<not> list_all (is_valid (type_validator string_schema)) PROBES" "accepts_every_string string_schema"
    by code_simp+
  show ?thesis
    using assms(2) r u by (simp add: compile_parameter_def type_lib_def string_parameter_def get_str_def Let_def)
qed

lemma string_tool_parameters:
  "schema_parameter (tl_schema t) key = Some q \<Longrightarrow> t \<in> set (set_tools [''string'']) \<Longrightarrow> q = string_parameter"
proof -
  let ?members = "[(''type'', JStr ''object''), (''properties'', JObj [(''x'', string_schema)])]"
  have n: "check_parameter_name ''x''" "check_tool_name ''set''" by code_simp+
  have c: "compile_parameter type_lib (JObj ?members) ?members (''/properties/'' @ fragment_segment ''x'') string_schema
      = Inr string_parameter"
    by (rule compile_string_parameter) simp_all
  have "compile_parameters type_lib (JObj ?members) =
      Inr (Some \<lparr>ag_arguments = type_validator (JObj ?members), ag_properties = [''x'' \<mapsto> string_parameter],
                ag_additional = None\<rparr>)"
    using c n(1) by (simp add: compile_parameters_def type_lib_def [symmetric]) (simp add: type_lib_def)
  moreover have "td_parameters (set_tool [''string'']) = JObj ?members"
    by (simp add: set_tool_def string_schema_def)
  moreover have "td_name (set_tool [''string'']) = ''set''" by (simp add: set_tool_def)
  ultimately have "map tl_schema (set_tools [''string'']) =
      [Some \<lparr>ag_arguments = type_validator (JObj ?members), ag_properties = [''x'' \<mapsto> string_parameter],
             ag_additional = None\<rparr>]"
    using n(2) by (simp add: set_tools_def toolset_new_def)
  moreover assume "schema_parameter (tl_schema t) key = Some q" "t \<in> set (set_tools [''string''])"
  ultimately show "q = string_parameter"
    by (cases "set_tools [''string'']") (auto simp: schema_parameter_def split: if_splits option.splits)
qed

lemma sample_delta_laws: "delta_laws sample_env sample_esc (set_tools [''string''])"
proof -
  have "type_validator string_schema (JStr s) = None" for s
    by (simp add: type_validator_def string_schema_def type_name_def)
  then have "text_stays_text (set_tools [''string''])"
    using string_tool_parameters by (fastforce simp: text_stays_text_def string_parameter_def is_valid_def)
  moreover have "inj (te_call_id sample_env)" using next_call_id_inj by (simp add: sample_env_def)
  moreover have "\<not> any_strict (set_tools [''string''])" by code_simp
  moreover have "te_to_string sample_env = sample_to_string" by (simp add: sample_env_def)
  ultimately show ?thesis using sample_prints_json by (simp add: delta_laws_def)
qed

theorem deltas_spell_arguments_witness:
  "\<exists>p (out :: (nat event \<times> nat) list) c n.
     parse_pieces sample_env (set_tools [''string'']) 0 set_pieces Eos = (p, out) \<and>
     (ToolCall c, n) \<in> set out \<and> tc_arguments c = JObj [(''x'', JStr ''5'')] \<and>
     prefix (delta_text (tc_id c) out) (te_to_string sample_env (tc_arguments c))"
proof -
  obtain p and out :: "(nat event \<times> nat) list"
    where p: "parse_pieces sample_env (set_tools [''string'']) 0 set_pieces Eos = (p, out)" by fastforce
  have "map tc_arguments (calls_of (snd (parse_pieces sample_env (set_tools [''string'']) 0 set_pieces Eos
      :: tool_parser \<times> (nat event \<times> nat) list))) = [JObj [(''x'', JStr ''5'')]]"
    by code_simp
  then have "map tc_arguments (calls_of out) = [JObj [(''x'', JStr ''5'')]]" using p by simp
  then obtain c where c: "c \<in> set (calls_of out)" "tc_arguments c = JObj [(''x'', JStr ''5'')]"
    by (cases "calls_of out") auto
  obtain n where n: "(ToolCall c, n) \<in> set out"
    using c(1) by (auto simp: calls_of_def List.map_filter_def split: event.splits)
  have u: "list_all utf8 set_pieces" by code_simp
  show ?thesis using deltas_spell_arguments [OF sample_delta_laws u p n] p c(2) n by blast
qed

end
