(* ===== verification/Device.thy ===== *)
theory Device
  imports Prelude
begin

text \<open>
  The resident sequence of the GPU model (\<^verbatim>\<open>local-engine/src/bonsai_native.rs\<close>), as the prompt
  cache sees it.  The model has positional K/V rows, which attention reads up to the position, and
  a recurrent state valid at one exact position.  What a kernel computes is represented by what it
  was computed from: row \<open>i\<close> by the token sequence up to and with token \<open>i\<close>, the recurrent state by
  the sequence it has folded in.  A set of buffers is \<^emph>\<open>coherent\<close> when its rows are those of the
  sequence its recurrent state stands for: only then do later tokens follow from that sequence.
\<close>

type_synonym rows = "nat \<Rightarrow> u32 list"

record device =
  dv_id :: nat
  dv_rows :: rows
  dv_seq :: "u32 list"

definition dv_position :: "device \<Rightarrow> nat" where
  "dv_position d = length (dv_seq d)"

text \<open>\<open>PromptCheckpoint\<close>: a copy of the recurrent state; its K/V rows stay in the live caches.\<close>

record prompt_checkpoint =
  ck_seq :: "u32 list"

definition ck_position :: "prompt_checkpoint \<Rightarrow> nat" where
  "ck_position c = length (ck_seq c)"

text \<open>\<open>PromptSnapshot\<close>: the recurrent state and the rows up to it, and the bytes of its sections.\<close>

record snapshot =
  sn_seq :: "u32 list"
  sn_rows :: rows
  sn_bytes :: nat

definition sn_position :: "snapshot \<Rightarrow> nat" where
  "sn_position s = length (sn_seq s)"

text \<open>One committed row, and a run of them: \<open>prefill_blocks\<close> over the tokens it got through.\<close>

definition dv_append :: "u32 \<Rightarrow> device \<Rightarrow> device" where
  "dv_append t d =
     (let s = dv_seq d @ [t] in d\<lparr>dv_rows := (dv_rows d)(length (dv_seq d) := s), dv_seq := s\<rparr>)"

definition prefill_blocks :: "u32 list \<Rightarrow> device \<Rightarrow> device" where
  "prefill_blocks ts d = fold dv_append ts d"

definition dv_reset :: "device \<Rightarrow> device" where
  "dv_reset d = d\<lparr>dv_seq := []\<rparr>"

definition copy_checkpoint :: "device \<Rightarrow> prompt_checkpoint" where
  "copy_checkpoint d = \<lparr>ck_seq = dv_seq d\<rparr>"

definition restore_prompt_checkpoint :: "prompt_checkpoint \<Rightarrow> device \<Rightarrow> device" where
  "restore_prompt_checkpoint c d = d\<lparr>dv_seq := ck_seq c\<rparr>"

text \<open>\<open>bytes\<close> is what the sections of a snapshot of that many tokens come to.\<close>

definition prompt_snapshot :: "(nat \<Rightarrow> nat) \<Rightarrow> device \<Rightarrow> snapshot" where
  "prompt_snapshot bytes d =
     \<lparr>sn_seq = dv_seq d, sn_rows = dv_rows d, sn_bytes = bytes (dv_position d)\<rparr>"

text \<open>The earlier boundary a checkpoint holds: its recurrent state, and the live rows.\<close>

definition prompt_snapshot_at :: "(nat \<Rightarrow> nat) \<Rightarrow> prompt_checkpoint \<Rightarrow> device \<Rightarrow> snapshot option" where
  "prompt_snapshot_at bytes c d =
     (if dv_position d < ck_position c then None
      else Some \<lparr>sn_seq = ck_seq c, sn_rows = dv_rows d, sn_bytes = bytes (ck_position c)\<rparr>)"

definition restore_prompt_snapshot :: "snapshot \<Rightarrow> device \<Rightarrow> device" where
  "restore_prompt_snapshot s d =
     d\<lparr>dv_rows := (\<lambda>i. if i < sn_position s then sn_rows s i else dv_rows d i), dv_seq := sn_seq s\<rparr>"

section \<open>Coherence\<close>

definition rows_of :: "rows \<Rightarrow> u32 list \<Rightarrow> bool" where
  "rows_of rs ts \<longleftrightarrow> (\<forall>i<length ts. rs i = take (Suc i) ts)"

definition coherent :: "device \<Rightarrow> bool" where
  "coherent d \<longleftrightarrow> rows_of (dv_rows d) (dv_seq d)"

text \<open>A snapshot that holds the tokens it is filed under.\<close>

definition faithful :: "u32 list \<Rightarrow> snapshot \<Rightarrow> bool" where
  "faithful ts s \<longleftrightarrow> sn_seq s = ts \<and> rows_of (sn_rows s) ts"

lemma rows_of_Nil [simp]: "rows_of rs []"
  by (simp add: rows_of_def)

lemma rows_of_prefix: "rows_of rs ts \<Longrightarrow> prefix us ts \<Longrightarrow> rows_of rs us"
  by (auto simp: rows_of_def prefix_def)

lemma rows_of_update: "length ts \<le> i \<Longrightarrow> rows_of (rs(i := r)) ts = rows_of rs ts"
  by (auto simp: rows_of_def)

lemma rows_of_snoc: "rows_of rs (ts @ [t]) \<longleftrightarrow> rows_of rs ts \<and> rs (length ts) = ts @ [t]"
  by (auto simp: rows_of_def less_Suc_eq)

lemma dv_append_fields [simp]:
  "dv_id (dv_append t d) = dv_id d" "dv_seq (dv_append t d) = dv_seq d @ [t]"
  by (simp_all add: dv_append_def Let_def)

lemma coherent_append: "coherent d \<Longrightarrow> coherent (dv_append t d)"
  by (simp add: coherent_def dv_append_def Let_def rows_of_snoc rows_of_update)

lemma prefill_blocks_Nil [simp]: "prefill_blocks [] d = d"
  by (simp add: prefill_blocks_def)

lemma prefill_blocks_Cons: "prefill_blocks (t # ts) d = prefill_blocks ts (dv_append t d)"
  by (simp add: prefill_blocks_def)

lemma prefill_blocks_fields [simp]:
  "dv_id (prefill_blocks ts d) = dv_id d" "dv_seq (prefill_blocks ts d) = dv_seq d @ ts"
  by (induction ts arbitrary: d) (simp_all add: prefill_blocks_Cons)

lemma coherent_prefill: "coherent d \<Longrightarrow> coherent (prefill_blocks ts d)"
  by (induction ts arbitrary: d) (simp_all add: prefill_blocks_Cons coherent_append)

text \<open>Rows before the position survive a prefill.\<close>

lemma rows_of_prefill:
  "rows_of (dv_rows d) us \<Longrightarrow> length us \<le> dv_position d \<Longrightarrow> rows_of (dv_rows (prefill_blocks ts d)) us"
  by (induction ts arbitrary: d)
    (simp_all add: prefill_blocks_Cons dv_position_def dv_append_def Let_def rows_of_update)

lemma coherent_reset [simp]: "coherent (dv_reset d)"
  by (simp add: coherent_def dv_reset_def)

lemma coherent_restore_checkpoint:
  "rows_of (dv_rows d) (ck_seq c) \<Longrightarrow> coherent (restore_prompt_checkpoint c d)"
  by (simp add: coherent_def restore_prompt_checkpoint_def)

lemma coherent_restore_snapshot:
  "faithful ts s \<Longrightarrow> coherent (restore_prompt_snapshot s d) \<and> dv_seq (restore_prompt_snapshot s d) = ts"
  by (auto simp: coherent_def restore_prompt_snapshot_def faithful_def rows_of_def sn_position_def)

lemma faithful_prompt_snapshot: "coherent d \<Longrightarrow> faithful (dv_seq d) (prompt_snapshot bytes d)"
  by (simp add: coherent_def faithful_def prompt_snapshot_def)

lemma faithful_snapshot_at:
  "rows_of (dv_rows d) (ck_seq c) \<Longrightarrow> prompt_snapshot_at bytes c d = Some s \<Longrightarrow> faithful (ck_seq c) s"
  by (auto simp: faithful_def prompt_snapshot_at_def split: if_splits)

end
