(* ===== verification/Disk_Index.thy ===== *)
theory Disk_Index
  imports Prelude
begin

text \<open>
  The disk tier of the prompt cache: which committed snapshots are kept
  (\<^verbatim>\<open>local-engine/src/prompt_cache.rs\<close>, from \<^verbatim>\<open>barely_extends\<close> to \<^verbatim>\<open>DiskIndex\<close>).
  A snapshot is either the tail of one request or a \<^emph>\<open>reusable boundary\<close>, a prefix that
  other requests share. The locale \<open>victim_policy\<close> states what the trimming loop needs of
  the policy that picks the next victim, \<open>next_victim\<close> is shown to satisfy it, and the
  properties of \<open>eviction_order\<close>, \<open>admits\<close> and \<open>evict_over\<close> rest on that interpretation.
\<close>

section \<open>The eviction policy\<close>

definition barely_extends :: "u32 list \<Rightarrow> u32 list \<Rightarrow> bool" where
  "barely_extends child parent \<longleftrightarrow>
     length parent < length child \<and>
     length child - length parent < length parent \<and>
     prefix parent child"

text \<open>An entry of a tier as the policy sees it: its tokens, and whether it is a boundary.\<close>

type_synonym view = "u32 list \<times> bool"

definition near_duplicate :: "view list \<Rightarrow> view \<Rightarrow> bool" where
  "near_duplicate entries e \<longleftrightarrow>
     snd e \<and> (\<exists>other \<in> set entries. snd other \<and> barely_extends (fst e) (fst other))"

definition next_victim :: "view list \<Rightarrow> nat option" where
  "next_victim entries =
     (case position (\<lambda>e. \<not> snd e) entries of
        Some i \<Rightarrow> Some i
      | None \<Rightarrow>
          (case rposition (near_duplicate entries) entries of
             Some i \<Rightarrow> Some i
           | None \<Rightarrow> if entries \<noteq> [] then Some 0 else None))"

section \<open>The index of one model directory\<close>

record indexed =
  ix_path :: string
  ix_tokens :: "u32 list"
  ix_bytes :: nat
  ix_boundary :: bool

definition ix_view :: "indexed \<Rightarrow> view" where
  "ix_view e = (ix_tokens e, ix_boundary e)"

text \<open>
  The loop of \<^verbatim>\<open>eviction_order\<close>, for any policy \<open>victim\<close>. The last conjunct of the inner
  guard is \<^verbatim>\<open>Vec::remove\<close>'s bound check; \<open>next_victim\<close> never fails it.
\<close>

function eviction_loop ::
    "(view list \<Rightarrow> nat option) \<Rightarrow> indexed list \<Rightarrow> nat \<Rightarrow> nat list \<Rightarrow> nat \<Rightarrow> nat list \<Rightarrow> nat list" where
  "eviction_loop victim entries budget live bytes order =
     (if budget < bytes \<and> 1 < length live then
        case victim (map (\<lambda>i. ix_view (entries ! i)) live) of
          None \<Rightarrow> order
        | Some pos \<Rightarrow>
            if pos < length live then
              let v = live ! pos
              in eviction_loop victim entries budget (vec_remove pos live)
                   (bytes - ix_bytes (entries ! v)) (order @ [v])
            else order
      else order)"
  by pat_completeness auto
termination
  by (relation "measure (\<lambda>(_, _, _, live, _, _). length live)") auto

declare eviction_loop.simps [simp del]

definition total_bytes :: "indexed list \<Rightarrow> nat" where
  "total_bytes entries = sum_list (map ix_bytes entries)"

definition eviction_order :: "indexed list \<Rightarrow> nat \<Rightarrow> nat list" where
  "eviction_order entries budget =
     eviction_loop next_victim entries budget [0..<length entries] (total_bytes entries) []"

record disk_index =
  dx_dir :: string
  dx_entries :: "indexed list"

text \<open>The sizes of the files of the directory, as \<^verbatim>\<open>fs::metadata\<close> reports them.\<close>

type_synonym sizes = "string \<Rightarrow> nat option"

definition disk_insert :: "sizes \<Rightarrow> string \<Rightarrow> u32 list \<Rightarrow> bool \<Rightarrow> disk_index \<Rightarrow> disk_index" where
  "disk_insert fs path tokens boundary index =
     (let kept = filter (\<lambda>e. ix_path e \<noteq> path) (dx_entries index)
      in index\<lparr>dx_entries :=
           (case fs path of
              Some len \<Rightarrow> kept @ [\<lparr>ix_path = path, ix_tokens = tokens, ix_bytes = len,
                                   ix_boundary = boundary\<rparr>]
            | None \<Rightarrow> kept)\<rparr>)"

definition candidate_entry :: "u32 list \<Rightarrow> nat \<Rightarrow> bool \<Rightarrow> indexed" where
  "candidate_entry tokens bytes boundary =
     \<lparr>ix_path = '''', ix_tokens = tokens, ix_bytes = bytes, ix_boundary = boundary\<rparr>"

definition admits :: "u32 list \<Rightarrow> nat \<Rightarrow> bool \<Rightarrow> nat \<Rightarrow> disk_index \<Rightarrow> bool \<times> disk_index" where
  "admits tokens bytes boundary budget index =
     (let entries = dx_entries index;
          same = position (\<lambda>e. ix_tokens e = tokens) entries;
          others = (case same of Some i \<Rightarrow> vec_remove i entries | None \<Rightarrow> entries);
          pushed = others @ [candidate_entry tokens bytes boundary];
          candidate = length pushed - 1;
          admitted = candidate \<notin> set (eviction_order pushed budget);
          popped = butlast pushed
      in (admitted,
          index\<lparr>dx_entries :=
            (case same of Some i \<Rightarrow> vec_insert i (entries ! i) popped | None \<Rightarrow> popped)\<rparr>))"

text \<open>Deleting by descending index, as \<^verbatim>\<open>evict_over\<close> does after sorting the order.\<close>

definition remove_all :: "nat list \<Rightarrow> 'a list \<Rightarrow> 'a list" where
  "remove_all order entries = foldl (\<lambda>es i. vec_remove i es) entries (rev (sort order))"

definition evict_over :: "nat \<Rightarrow> disk_index \<Rightarrow> sizes \<Rightarrow> string list \<times> disk_index \<times> sizes" where
  "evict_over budget index fs =
     (let order = eviction_order (dx_entries index) budget;
          evicted = map (\<lambda>i. ix_path (dx_entries index ! i)) order
      in (evicted,
          index\<lparr>dx_entries := remove_all order (dx_entries index)\<rparr>,
          foldl (\<lambda>f p. f(p := None)) fs evicted))"

record disk_entry =
  de_path :: string
  de_tokens :: "u32 list"
  de_session :: "string option"
  de_boundary :: bool

definition would_admit ::
    "sizes \<Rightarrow> disk_entry list \<Rightarrow> u32 list \<Rightarrow> nat \<Rightarrow> bool \<Rightarrow> nat \<Rightarrow> bool" where
  "would_admit fs entries tokens bytes boundary budget =
     fst (admits tokens bytes boundary budget
       \<lparr>dx_dir = '''',
        dx_entries = List.map_filter
          (\<lambda>e. map_option
             (\<lambda>len. \<lparr>ix_path = de_path e, ix_tokens = de_tokens e, ix_bytes = len,
                    ix_boundary = de_boundary e\<rparr>)
             (fs (de_path e)))
          entries\<rparr>)"

definition index_of_entries :: "sizes \<Rightarrow> string \<Rightarrow> disk_entry list \<Rightarrow> disk_index" where
  "index_of_entries fs dir entries =
     \<lparr>dx_dir = dir,
      dx_entries = List.map_filter
        (\<lambda>e. map_option
           (\<lambda>len. \<lparr>ix_path = de_path e, ix_tokens = de_tokens e, ix_bytes = len,
                  ix_boundary = de_boundary e\<rparr>)
           (fs (de_path e)))
        entries\<rparr>"

section \<open>What the trimming loop needs of a policy\<close>

text \<open>Every boundary deleted comes after all the tails that were live.\<close>

definition tails_first :: "indexed list \<Rightarrow> nat list \<Rightarrow> nat list \<Rightarrow> bool" where
  "tails_first entries live out \<longleftrightarrow>
     (\<forall>k < length out. \<forall>j \<in> set live. ix_boundary (entries ! (out ! k)) \<and>
        \<not> ix_boundary (entries ! j) \<longrightarrow> j \<in> set (take k out))"

locale victim_policy =
  fixes victim :: "view list \<Rightarrow> nat option"
  assumes victim_total: "es \<noteq> [] \<Longrightarrow> \<exists>i. victim es = Some i \<and> i < length es"
    and victim_tail: "victim es = Some i \<Longrightarrow> snd (es ! i) \<Longrightarrow> e \<in> set es \<Longrightarrow> snd e"
begin

lemma eviction_loop_stop:
  "\<not> (budget < bytes \<and> 1 < length live) \<Longrightarrow>
     eviction_loop victim entries budget live bytes order = order"
  by (subst eviction_loop.simps) auto

lemma eviction_loop_step:
  assumes "budget < bytes" "1 < length live"
  obtains pos where "pos < length live"
    "victim (map (\<lambda>i. ix_view (entries ! i)) live) = Some pos"
    "\<And>order. eviction_loop victim entries budget live bytes order =
       eviction_loop victim entries budget (vec_remove pos live)
         (bytes - ix_bytes (entries ! (live ! pos))) (order @ [live ! pos])"
proof -
  have "map (\<lambda>i. ix_view (entries ! i)) live \<noteq> []" using assms(2) by auto
  from victim_total [OF this] obtain pos where
    "victim (map (\<lambda>i. ix_view (entries ! i)) live) = Some pos" "pos < length live" by auto
  then show thesis
    using assms by (intro that [of pos]) (simp_all add: eviction_loop.simps [of victim entries budget live] Let_def)
qed

lemma tails_first_step:
  assumes pos: "pos < length live" and vic: "victim (map (\<lambda>i. ix_view (entries ! i)) live) = Some pos"
    and later: "tails_first entries (vec_remove pos live) out"
  shows "tails_first entries live (live ! pos # out)"
  unfolding tails_first_def
proof (intro allI ballI impI)
  fix k j
  let ?v = "live ! pos"
  assume k: "k < length (?v # out)" and j: "j \<in> set live"
    and b: "ix_boundary (entries ! ((?v # out) ! k)) \<and> \<not> ix_boundary (entries ! j)"
  have "j = ?v \<or> j \<in> set (vec_remove pos live)"
    using j arg_cong [OF mset_vec_remove [OF pos], of set_mset] by auto
  then show "j \<in> set (take k (?v # out))"
  proof (cases k)
    case 0
    with b have "ix_boundary (entries ! ?v)" by simp
    with victim_tail [OF vic, of "ix_view (entries ! j)"] pos j have "ix_boundary (entries ! j)"
      by (auto simp: ix_view_def)
    with b show ?thesis by simp
  next
    case (Suc m)
    with \<open>j = ?v \<or> j \<in> set (vec_remove pos live)\<close> b k later show ?thesis by (auto simp: tails_first_def)
  qed
qed

text \<open>
  One induction gives the three facts of the loop: it emits a part of the live indices and
  leaves the rest fitting the budget or a single entry; it evicts only while over budget;
  and it reaches a boundary only after every tail.
\<close>

lemma eviction_loop_spec:
  assumes "bytes = sum_list (map (\<lambda>i. ix_bytes (entries ! i)) live)"
  shows "\<exists>out rest. eviction_loop victim entries budget live bytes order = order @ out \<and>
    mset live = mset out + mset rest \<and>
    (sum_list (map (\<lambda>i. ix_bytes (entries ! i)) rest) \<le> budget \<or> length rest \<le> 1) \<and>
    (live \<noteq> [] \<longrightarrow> rest \<noteq> []) \<and>
    (\<forall>k < length out. budget + sum_list (map (\<lambda>i. ix_bytes (entries ! i)) (take k out)) < bytes) \<and>
    tails_first entries live out"
  using assms
proof (induction "length live" arbitrary: live bytes order rule: less_induct)
  case less
  let ?size = "\<lambda>i. ix_bytes (entries ! i)"
  show ?case
  proof (cases "budget < bytes \<and> 1 < length live")
    case False
    then show ?thesis
      using less.prems
      by (intro exI [of _ "[]"] exI [of _ live]) (auto simp: eviction_loop_stop tails_first_def)
  next
    case True
    then obtain pos where pos: "pos < length live"
      and vic: "victim (map (\<lambda>i. ix_view (entries ! i)) live) = Some pos"
      and step: "\<And>order. eviction_loop victim entries budget live bytes order =
        eviction_loop victim entries budget (vec_remove pos live)
          (bytes - ?size (live ! pos)) (order @ [live ! pos])"
      using eviction_loop_step [of budget bytes live entries] by blast
    let ?v = "live ! pos" and ?live = "vec_remove pos live"
    have total: "bytes = ?size ?v + sum_list (map ?size ?live)"
      using less.prems sum_list_vec_remove [OF pos, of ?size] by simp
    have "length ?live < length live" using pos by simp
    from less.hyps [OF this, of "bytes - ?size ?v" "order @ [?v]"] total
    obtain out rest where IH:
      "eviction_loop victim entries budget ?live (bytes - ?size ?v) (order @ [?v])
         = (order @ [?v]) @ out"
      "mset ?live = mset out + mset rest"
      "sum_list (map ?size rest) \<le> budget \<or> length rest \<le> 1"
      "?live \<noteq> [] \<longrightarrow> rest \<noteq> []"
      "\<forall>k < length out. budget + sum_list (map ?size (take k out)) < bytes - ?size ?v"
      "tails_first entries ?live out" by auto
    have "0 < length ?live" using True pos by simp
    then have nonempty: "?live \<noteq> []" by auto
    have over: "\<forall>k < length (?v # out). budget + sum_list (map ?size (take k (?v # out))) < bytes"
      using IH(5) True total by (auto simp: less_Suc_eq_0_disj)
    show ?thesis
      using step IH nonempty over mset_vec_remove [OF pos] tails_first_step [OF pos vic IH(6)]
      by (intro exI [of _ "?v # out"] exI [of _ rest]) auto
  qed
qed

end

section \<open>The policy of the code satisfies it\<close>

lemma next_victim_total: "es \<noteq> [] \<Longrightarrow> \<exists>i. next_victim es = Some i \<and> i < length es"
  by (auto simp: next_victim_def split: option.splits dest: position_SomeD rposition_SomeD)

lemma next_victim_tail:
  assumes "next_victim es = Some i" "snd (es ! i)" "e \<in> set es"
  shows "snd e"
proof (cases "position (\<lambda>e. \<not> snd e) es")
  case None
  with assms(3) show ?thesis by (auto simp: position_None)
next
  case (Some j)
  with assms(1,2) show ?thesis by (auto simp: next_victim_def dest: position_SomeD)
qed

interpretation disk: victim_policy next_victim
  by unfold_locales (auto intro: next_victim_total next_victim_tail)

lemma map_nth_upt: "map (\<lambda>i. f (xs ! i)) [0..<length xs] = map f xs"
  by (rule nth_equalityI) auto

lemma eviction_order_spec:
  obtains rest where
    "mset [0..<length es] = mset (eviction_order es budget) + mset rest"
    "sum_list (map (\<lambda>i. ix_bytes (es ! i)) rest) \<le> budget \<or> length rest \<le> 1"
    "es \<noteq> [] \<Longrightarrow> rest \<noteq> []"
    "\<And>k. k < length (eviction_order es budget) \<Longrightarrow>
       budget + sum_list (map (\<lambda>i. ix_bytes (es ! i)) (take k (eviction_order es budget)))
         < total_bytes es"
    "\<And>k j. k < length (eviction_order es budget) \<Longrightarrow> j < length es \<Longrightarrow>
       ix_boundary (es ! (eviction_order es budget ! k)) \<Longrightarrow> \<not> ix_boundary (es ! j) \<Longrightarrow>
       j \<in> set (take k (eviction_order es budget))"
proof -
  have "total_bytes es = sum_list (map (\<lambda>i. ix_bytes (es ! i)) [0..<length es])"
    by (simp add: total_bytes_def map_nth_upt)
  from disk.eviction_loop_spec [OF this, of budget "[]"] show thesis
    by (auto simp: tails_first_def simp flip: eviction_order_def intro: that)
qed

lemma eviction_order_distinct: "distinct (eviction_order es budget)"
  and eviction_order_bound: "i \<in> set (eviction_order es budget) \<Longrightarrow> i < length es"
proof -
  obtain rest where "mset [0..<length es] = mset (eviction_order es budget) + mset rest"
    by (rule eviction_order_spec)
  then have "mset (eviction_order es budget @ rest) = mset [0..<length es]" by simp
  from mset_eq_imp_distinct_iff [OF this] mset_eq_setD [OF this]
  have "distinct (eviction_order es budget @ rest)"
    "set (eviction_order es budget @ rest) = {0..<length es}" by auto
  then show "distinct (eviction_order es budget)"
    "i \<in> set (eviction_order es budget) \<Longrightarrow> i < length es" by auto
qed

section \<open>Removing by index\<close>

lemma nths_Compl_above:
  assumes "\<forall>j \<in> S. i < j" "i < length xs"
  shows "vec_remove i (nths xs (- S)) = nths xs (- insert i S)"
proof -
  let ?a = "take i xs" and ?b = "drop (Suc i) xs" and ?B = "{j. j + Suc i \<in> - S}"
  have xs: "xs = ?a @ (xs ! i) # ?b" using assms(2) by (rule id_take_nth_drop)
  have len: "length ?a = i" using assms(2) by simp
  have below: "nths ?a (- S) = ?a" "nths ?a (- insert i S) = ?a"
    using assms(1) by (auto intro!: nths_all)
  have "nths xs (- S) = ?a @ (xs ! i) # nths ?b ?B"
    using assms len below by (subst xs, subst nths_append) (auto simp: nths_Cons add.commute)
  moreover have "nths xs (- insert i S) = ?a @ nths ?b ?B"
    using assms len below
    by (subst xs, subst nths_append) (auto simp: nths_Cons add.commute intro!: arg_cong [where f = "nths ?b"])
  ultimately show ?thesis using len by (simp add: vec_remove_def)
qed

lemma remove_sorted:
  assumes "sorted ys" "distinct ys" "\<forall>i \<in> set ys. i < length xs"
  shows "foldl (\<lambda>es i. vec_remove i es) xs (rev ys) = nths xs (- set ys)"
  using assms
proof (induction ys)
  case Nil
  then show ?case by (simp add: nths_all)
next
  case (Cons i ys)
  then have "\<forall>j \<in> set ys. i < j" by (auto simp: order_less_le)
  with Cons show ?case by (simp add: nths_Compl_above)
qed

lemma remove_all_nths:
  assumes "distinct order" "\<forall>i \<in> set order. i < length xs"
  shows "remove_all order xs = nths xs (- set order)"
  using assms by (simp add: remove_all_def remove_sorted)

lemma nths_index: "nths xs A = map (\<lambda>i. xs ! i) (filter (\<lambda>i. i \<in> A) [0..<length xs])"
  by (induction xs rule: rev_induct) (auto simp: nths_append nth_append intro!: map_cong)

section \<open>Trimming\<close>

text \<open>What \<open>evict_over\<close> leaves, in terms of the order it follows.\<close>

lemma evict_over_entries:
  "dx_entries (fst (snd (evict_over budget index fs))) =
     nths (dx_entries index) (- set (eviction_order (dx_entries index) budget))"
  using eviction_order_distinct eviction_order_bound
  by (simp add: evict_over_def Let_def remove_all_nths)

lemma total_bytes_mset: "mset xs = mset ys \<Longrightarrow> total_bytes xs = total_bytes ys"
  unfolding total_bytes_def by (metis mset_map sum_mset_sum_list)

lemma kept_indices:
  assumes "mset [0..<length es] = mset order + mset rest"
  shows "mset (nths es (- set order)) = mset (map (\<lambda>i. es ! i) rest)"
proof -
  have "distinct (order @ rest)" "set (order @ rest) = {0..<length es}"
    using mset_eq_imp_distinct_iff [of "order @ rest" "[0..<length es]"]
      mset_eq_setD [of "order @ rest" "[0..<length es]"] assms by auto
  then have "mset (filter (\<lambda>i. i \<notin> set order) [0..<length es]) = mset rest"
    by (intro set_eq_iff_mset_eq_distinct [THEN iffD1]) auto
  then show ?thesis by (simp add: nths_index mset_map)
qed

lemma evict_over_spec:
  assumes "evict_over budget index fs = (evicted, index', fs')"
  shows "(total_bytes (dx_entries index') \<le> budget \<or> length (dx_entries index') = 1 \<or>
      dx_entries index = []) \<and>
    (dx_entries index \<noteq> [] \<longrightarrow> dx_entries index' \<noteq> []) \<and>
    mset (map ix_path (dx_entries index)) = mset evicted + mset (map ix_path (dx_entries index'))"
proof -
  let ?es = "dx_entries index" and ?order = "eviction_order (dx_entries index) budget"
  let ?path = "\<lambda>i. ix_path (?es ! i)"
  obtain rest where rest: "mset [0..<length ?es] = mset ?order + mset rest"
    "sum_list (map (\<lambda>i. ix_bytes (?es ! i)) rest) \<le> budget \<or> length rest \<le> 1"
    "?es \<noteq> [] \<Longrightarrow> rest \<noteq> []"
    by (rule eviction_order_spec [of ?es budget]) blast
  have kept: "mset (dx_entries index') = mset (map (\<lambda>i. ?es ! i) rest)"
    using evict_over_entries [of budget index fs] assms kept_indices [OF rest(1)] by simp
  have evicted: "mset evicted = image_mset ?path (mset ?order)"
    using assms by (auto simp: evict_over_def Let_def)
  have len: "length (dx_entries index') = length rest"
    using arg_cong [OF kept, of size] by simp
  have bytes: "total_bytes (dx_entries index') = sum_list (map (\<lambda>i. ix_bytes (?es ! i)) rest)"
    using total_bytes_mset [OF kept] by (simp add: total_bytes_def comp_def)
  have paths: "mset (map ix_path (dx_entries index')) = image_mset ?path (mset rest)"
    using kept by (simp add: image_mset.compositionality comp_def)
  have "mset (map ix_path ?es) = image_mset ?path (mset [0..<length ?es])"
    using arg_cong [OF map_nth_upt [of ix_path ?es], of mset] by simp
  also have "\<dots> = mset evicted + mset (map ix_path (dx_entries index'))"
    unfolding rest(1) evicted paths by simp
  finally show ?thesis
    using rest(2,3) len bytes by (cases rest) auto
qed

text \<open>
  C21. Trimming the disk tier to a budget ends with the kept snapshots within the budget or
  with a single snapshot left, never empties a non-empty index, and loses nothing: the
  deleted snapshots and the kept ones are together the snapshots indexed before.
\<close>

theorem evict_over_fits:
  assumes "evict_over budget index fs = (evicted, index', fs')"
  shows "(total_bytes (dx_entries index') \<le> budget \<or> length (dx_entries index') = 1 \<or>
      dx_entries index = []) \<and>
    (dx_entries index \<noteq> [] \<longrightarrow> dx_entries index' \<noteq> []) \<and>
    mset (map ix_path (dx_entries index)) = mset evicted + mset (map ix_path (dx_entries index'))"
  using assms by (rule evict_over_spec)

theorem evict_over_fits_witness:
  "let es = [\<lparr>ix_path = ''a'', ix_tokens = [1, 2], ix_bytes = 5, ix_boundary = True\<rparr>,
             \<lparr>ix_path = ''b'', ix_tokens = [7], ix_bytes = 4, ix_boundary = False\<rparr>];
       index = \<lparr>dx_dir = ''d'', dx_entries = es\<rparr>
   in fst (evict_over 6 index (\<lambda>_. Some 1)) = [''b''] \<and>
      mset (map ix_path es) = mset [''b''] + mset (map ix_path
        (dx_entries (fst (snd (evict_over 6 index (\<lambda>_. Some 1))))))"
proof -
  let ?es = "[\<lparr>ix_path = ''a'', ix_tokens = [1, 2], ix_bytes = 5, ix_boundary = True\<rparr>,
             \<lparr>ix_path = ''b'', ix_tokens = [7], ix_bytes = 4, ix_boundary = False\<rparr>] :: indexed list"
  let ?index = "\<lparr>dx_dir = ''d'', dx_entries = ?es\<rparr>"
  have order: "eviction_order ?es 6 = [1]"
    by (simp add: eviction_order_def eviction_loop.simps total_bytes_def next_victim_def
        ix_view_def upt_rec vec_remove_def)
  then have evicted: "fst (evict_over 6 ?index (\<lambda>_. Some 1)) = [''b'']"
    by (simp add: evict_over_def Let_def)
  obtain e i f where ev: "evict_over 6 ?index (\<lambda>_. Some 1) = (e, i, f)" by (metis prod_cases3)
  from evict_over_fits [OF ev] ev evicted show ?thesis by (simp add: Let_def)
qed

text \<open>
  C17. Trimming deletes no more than it must and in the order the policy promises: each
  victim goes only while the snapshots not yet deleted exceed the budget, and a shared
  boundary goes only after every request tail.
\<close>

theorem eviction_order_policy:
  assumes "k < length (eviction_order es budget)"
  shows "budget + sum_list (map (\<lambda>i. ix_bytes (es ! i)) (take k (eviction_order es budget)))
      < total_bytes es \<and>
    (ix_boundary (es ! (eviction_order es budget ! k)) \<longrightarrow>
      (\<forall>j < length es. \<not> ix_boundary (es ! j) \<longrightarrow> j \<in> set (take k (eviction_order es budget))))"
  using assms by (rule_tac eviction_order_spec [of es budget]) blast

theorem eviction_order_policy_witness:
  "let es = [\<lparr>ix_path = ''a'', ix_tokens = [1, 2], ix_bytes = 5, ix_boundary = True\<rparr>,
             \<lparr>ix_path = ''b'', ix_tokens = [7], ix_bytes = 4, ix_boundary = False\<rparr>,
             \<lparr>ix_path = ''c'', ix_tokens = [9], ix_bytes = 3, ix_boundary = True\<rparr>]
   in eviction_order es 3 = [1, 0] \<and> 3 + sum_list (map (\<lambda>i. ix_bytes (es ! i)) [1]) < total_bytes es"
proof -
  let ?es = "[\<lparr>ix_path = ''a'', ix_tokens = [1, 2], ix_bytes = 5, ix_boundary = True\<rparr>,
             \<lparr>ix_path = ''b'', ix_tokens = [7], ix_bytes = 4, ix_boundary = False\<rparr>,
             \<lparr>ix_path = ''c'', ix_tokens = [9], ix_bytes = 3, ix_boundary = True\<rparr>] :: indexed list"
  have order: "eviction_order ?es 3 = [1, 0]"
    by (simp add: eviction_order_def eviction_loop.simps total_bytes_def next_victim_def
        near_duplicate_def barely_extends_def ix_view_def upt_rec vec_remove_def)
  from eviction_order_policy [of 1 ?es 3] show ?thesis
    unfolding Let_def order by simp
qed

section \<open>Admission\<close>

text \<open>The order depends on what the policy and the budget see, not on the paths.\<close>

definition ix_key :: "indexed \<Rightarrow> u32 list \<times> nat \<times> bool" where
  "ix_key e = (ix_tokens e, ix_bytes e, ix_boundary e)"

lemma ix_key_nth:
  assumes "map ix_key es = map ix_key es'" "i < length es"
  shows "ix_view (es ! i) = ix_view (es' ! i)" "ix_bytes (es ! i) = ix_bytes (es' ! i)"
  using arg_cong [OF assms(1), of "\<lambda>xs. xs ! i"] assms(2) map_eq_imp_length_eq [OF assms(1)]
  by (auto simp: ix_key_def ix_view_def)

lemma eviction_loop_cong:
  assumes keys: "map ix_key es = map ix_key es'" and "\<forall>i \<in> set live. i < length es"
  shows "eviction_loop victim es budget live bytes order =
    eviction_loop victim es' budget live bytes order"
  using assms(2)
proof (induction "length live" arbitrary: live bytes order rule: less_induct)
  case less
  have view: "map (\<lambda>i. ix_view (es ! i)) live = map (\<lambda>i. ix_view (es' ! i)) live"
    using less.prems ix_key_nth(1) [OF keys] by auto
  have IH: "eviction_loop victim es budget (vec_remove pos live) b (order @ [live ! pos]) =
      eviction_loop victim es' budget (vec_remove pos live) b (order @ [live ! pos])"
    if "pos < length live" for pos b
    using that less.prems set_vec_remove [of pos live] by (intro less.hyps) auto
  have size: "pos < length live \<Longrightarrow> ix_bytes (es ! (live ! pos)) = ix_bytes (es' ! (live ! pos))" for pos
    using less.prems ix_key_nth(2) [OF keys] by simp
  show ?case
    unfolding eviction_loop.simps [of victim _ budget live] view
    using IH size by (simp add: Let_def split: option.split)
qed

lemma eviction_order_cong:
  assumes "map ix_key es = map ix_key es'"
  shows "eviction_order es budget = eviction_order es' budget"
proof -
  have "map ix_bytes es = map ix_bytes es'"
    using arg_cong [OF assms, of "map (\<lambda>(t, b, r). b)"] by (simp add: ix_key_def comp_def)
  with eviction_loop_cong [OF assms, of "[0..<length es]"] map_eq_imp_length_eq [OF assms]
  show ?thesis by (simp add: eviction_order_def total_bytes_def)
qed

lemma vec_remove_unique:
  assumes "position q xs = Some i" "\<And>j. j < length xs \<Longrightarrow> q (xs ! j) \<Longrightarrow> j = i"
  shows "vec_remove i xs = filter (\<lambda>x. \<not> q x) xs"
  using assms
proof (induction xs arbitrary: i)
  case Nil
  then show ?case by simp
next
  case (Cons x xs)
  show ?case
  proof (cases "q x")
    case True
    then have "i = 0" using Cons.prems(1) by simp
    moreover have "\<forall>y \<in> set xs. \<not> q y"
      using Cons.prems(2) \<open>i = 0\<close> by (fastforce simp: in_set_conv_nth)
    ultimately show ?thesis using True by simp
  next
    case False
    with Cons.prems(1) obtain k where k: "i = Suc k" "position q xs = Some k" by auto
    have "j = k" if "j < length xs" "q (xs ! j)" for j
      using Cons.prems(2) [of "Suc j"] that k(1) by simp
    from Cons.IH [OF k(2) this] False k(1) show ?thesis by simp
  qed
qed

lemma admits_index: "snd (admits tokens bytes boundary budget index) = index"
proof (cases "position (\<lambda>e. ix_tokens e = tokens) (dx_entries index)")
  case None
  then show ?thesis by (simp add: admits_def Let_def)
next
  case (Some i)
  then show ?thesis
    by (simp add: admits_def Let_def vec_insert_remove position_SomeD)
qed

text \<open>
  Asking whether a snapshot would be admitted changes nothing: the index \<open>admits\<close>
  pushes a candidate into is the index it leaves behind.
\<close>

theorem admits_restores_index: "snd (admits tokens bytes boundary budget index) = index"
  by (rule admits_index)

text \<open>
  C28. A snapshot that \<open>admits\<close> accepts survives the trim that follows its own store, when
  the file stored has the size asked about and the only file that can already hold the
  same tokens is the one it replaces.
\<close>

theorem admitted_survives:
  assumes "fst (admits tokens bytes boundary budget index)"
    and "fs path = Some bytes"
    and "distinct (map ix_path (dx_entries index))"
    and "\<forall>e \<in> set (dx_entries index). ix_path e = path \<longleftrightarrow> ix_tokens e = tokens"
  shows "\<lparr>ix_path = path, ix_tokens = tokens, ix_bytes = bytes, ix_boundary = boundary\<rparr>
    \<in> set (dx_entries (fst (snd (evict_over budget (disk_insert fs path tokens boundary index) fs))))"
proof -
  let ?es = "dx_entries index"
  let ?new = "\<lparr>ix_path = path, ix_tokens = tokens, ix_bytes = bytes, ix_boundary = boundary\<rparr>"
  let ?others = "filter (\<lambda>e. ix_tokens e \<noteq> tokens) ?es"
  have same: "filter (\<lambda>e. ix_path e \<noteq> path) ?es = ?others"
    using assms(4) by (intro filter_cong) auto
  have inserted: "dx_entries (disk_insert fs path tokens boundary index) = ?others @ [?new]"
    using assms(2) same by (simp add: disk_insert_def Let_def)
  have removed: "(case position (\<lambda>e. ix_tokens e = tokens) ?es of
      Some i \<Rightarrow> vec_remove i ?es | None \<Rightarrow> ?es) = ?others"
  proof (cases "position (\<lambda>e. ix_tokens e = tokens) ?es")
    case None
    with position_None [THEN iffD1, OF None] show ?thesis by (simp add: filter_id_conv)
  next
    case (Some i)
    have "j = i" if "j < length ?es" "ix_tokens (?es ! j) = tokens" for j
    proof -
      have "ix_path (?es ! j) = ix_path (?es ! i)"
        using that position_SomeD(1,2) [OF Some] assms(4) by (metis nth_mem)
      then show ?thesis
        using assms(3) that(1) position_SomeD(1) [OF Some] by (simp add: distinct_conv_nth) metis
    qed
    from vec_remove_unique [OF Some this] Some show ?thesis by simp
  qed
  have "length ?others \<notin> set (eviction_order (?others @ [candidate_entry tokens bytes boundary]) budget)"
    using assms(1) removed by (simp add: admits_def Let_def)
  moreover have "map ix_key (?others @ [candidate_entry tokens bytes boundary]) =
      map ix_key (?others @ [?new])"
    by (simp add: ix_key_def candidate_entry_def)
  ultimately have "length ?others \<notin> set (eviction_order (?others @ [?new]) budget)"
    using eviction_order_cong by metis
  then show ?thesis
    by (simp only: evict_over_entries inserted) (auto simp: set_nths intro!: exI [of _ "length ?others"])
qed

theorem admitted_survives_witness:
  "let index = \<lparr>dx_dir = ''d'', dx_entries =
         [\<lparr>ix_path = ''a'', ix_tokens = [1, 2], ix_bytes = 5, ix_boundary = True\<rparr>,
          \<lparr>ix_path = ''p'', ix_tokens = [7], ix_bytes = 4, ix_boundary = False\<rparr>]\<rparr>;
       fs = (\<lambda>_. Some 2)
   in fst (admits [7] 2 False 7 index) \<and>
      \<lparr>ix_path = ''p'', ix_tokens = [7], ix_bytes = 2, ix_boundary = False\<rparr>
        \<in> set (dx_entries (fst (snd (evict_over 7 (disk_insert fs ''p'' [7] False index) fs))))"
proof -
  let ?index = "\<lparr>dx_dir = ''d'', dx_entries =
         [\<lparr>ix_path = ''a'', ix_tokens = [1, 2], ix_bytes = 5, ix_boundary = True\<rparr>,
          \<lparr>ix_path = ''p'', ix_tokens = [7], ix_bytes = 4, ix_boundary = False\<rparr>]\<rparr> :: disk_index"
  have admitted: "fst (admits [7] 2 False 7 ?index)"
    by code_simp
  from admitted_survives [OF admitted, of "\<lambda>_. Some 2" "''p''"] admitted show ?thesis
    by (simp add: Let_def)
qed


end
