(* ===== verification/Writer.thy ===== *)
theory Writer
  imports Disk_Index
begin

text \<open>
  The background writer of the disk tier (\<open>local-engine/src/prompt_cache/writer.rs\<close>): the daily
  write budget, the one-slot queue, one job's admission, store and trim, and the thread with its
  callers as a step relation over the shared state.  A job carries the size \<open>stored_bytes\<close> of its
  snapshot instead of the snapshot; what the store gives (a committed file or a failure) is an
  input of the step.  Time is in nanoseconds.
\<close>

section \<open>The daily write budget\<close>

definition DAILY_WRITE_SHARE :: nat where "DAILY_WRITE_SHARE = 4"
definition DAY :: nat where "DAY = 86400 * 10 ^ 9"

definition daily_write_budget :: "nat option \<Rightarrow> nat option" where
  "daily_write_budget capacity = map_option (\<lambda>c. c div DAILY_WRITE_SHARE) capacity"

record write_budget =
  wb_daily :: nat
  wb_balance :: int
  wb_refilled :: nat

definition budget_new :: "nat \<Rightarrow> nat \<Rightarrow> write_budget" where
  "budget_new daily now = \<lparr>wb_daily = daily, wb_balance = int (daily div 4), wb_refilled = now\<rparr>"

definition budget_admits :: "write_budget \<Rightarrow> nat \<Rightarrow> bool \<times> write_budget" where
  "budget_admits b now =
     (let elapsed = now - wb_refilled b;
          earned = int (wb_daily b * elapsed div DAY);
          balance = min (wb_balance b + earned) (int (wb_daily b))
      in (balance > 0, b\<lparr>wb_refilled := now, wb_balance := balance\<rparr>))"

definition budget_charge :: "write_budget \<Rightarrow> nat \<Rightarrow> write_budget" where
  "budget_charge b bytes = b\<lparr>wb_balance := wb_balance b - int bytes\<rparr>"

section \<open>Jobs and the queue\<close>

record store_job =
  sj_root :: string
  sj_model_key :: string
  sj_tokens :: "u32 list"
  sj_session_id :: "string option"
  sj_bytes :: nat
  sj_boundary :: bool
  sj_budget :: nat

datatype store_failure = StoreFailed

record completion =
  co_stored :: "store_failure + disk_entry option"
  co_evicted :: "string list"

datatype submitted = Queued | Replaced | Dropped

record writer_state =
  wr_queued :: "store_job option"
  wr_in_flight :: "u32 list option"
  wr_completed :: "completion list"
  wr_shutdown :: bool
  wr_closed :: bool
  wr_dead :: bool
  wr_budget :: "write_budget option"

definition pending :: "writer_state \<Rightarrow> (u32 list \<Rightarrow> bool) \<Rightarrow> bool" where
  "pending s matches \<longleftrightarrow>
     \<not> wr_dead s \<and>
     ((case wr_in_flight s of Some t \<Rightarrow> matches t | None \<Rightarrow> False) \<or>
      (case wr_queued s of Some j \<Rightarrow> matches (sj_tokens j) | None \<Rightarrow> False))"

definition enqueue :: "store_job option \<Rightarrow> store_job \<Rightarrow> store_job option \<times> submitted" where
  "enqueue queued job =
     (case queued of
        None \<Rightarrow> (Some job, Queued)
      | Some waiting \<Rightarrow>
          if sj_boundary waiting \<and> \<not> sj_boundary job then (queued, Dropped)
          else (Some job, Replaced))"

definition submit :: "writer_state \<Rightarrow> store_job \<Rightarrow> writer_state \<times> submitted" where
  "submit s job =
     (if wr_dead s \<or> wr_closed s then (s, Dropped)
      else case enqueue (wr_queued s) job of (q, r) \<Rightarrow> (s\<lparr>wr_queued := q\<rparr>, r))"

definition take_completed :: "writer_state \<Rightarrow> completion list \<times> writer_state" where
  "take_completed s = (wr_completed s, s\<lparr>wr_completed := []\<rparr>)"

definition longest_pending :: "writer_state \<Rightarrow> (u32 list \<Rightarrow> bool) \<Rightarrow> nat option" where
  "longest_pending s matches =
     (if wr_dead s then None
      else
        let lens = map length (filter matches
              ((case wr_in_flight s of Some t \<Rightarrow> [t] | None \<Rightarrow> []) @
               (case wr_queued s of Some j \<Rightarrow> [sj_tokens j] | None \<Rightarrow> [])))
        in if lens = [] then None else Some (Max (set lens)))"

definition within_budget :: "writer_state \<Rightarrow> nat \<Rightarrow> bool \<times> writer_state" where
  "within_budget s now =
     (case wr_budget s of
        None \<Rightarrow> (True, s)
      | Some b \<Rightarrow> (case budget_admits b now of (ok, b1) \<Rightarrow> (ok, s\<lparr>wr_budget := Some b1\<rparr>)))"

section \<open>One job\<close>

definition skipped :: completion where
  "skipped = \<lparr>co_stored = Inr None, co_evicted = []\<rparr>"

definition job_dir :: "store_job \<Rightarrow> string" where
  "job_dir j = sj_root j @ ''/'' @ sj_model_key j"

definition is_for :: "disk_index \<Rightarrow> store_job \<Rightarrow> bool" where
  "is_for ix j \<longleftrightarrow> dx_dir ix = job_dir j"

text \<open>\<open>persist\<close>; \<open>discover\<close> lists the committed snapshots of a directory, \<open>outcome\<close> is what the
  store gives: the path it committed, or a failure.\<close>

definition persist ::
  "(string \<Rightarrow> disk_entry list) \<Rightarrow> store_failure + string \<Rightarrow> store_job \<Rightarrow> disk_index option \<Rightarrow> sizes
   \<Rightarrow> completion \<times> nat \<times> disk_index \<times> sizes" where
  "persist discover outcome j index0 fs =
     (let index = (case index0 of
                     Some ix \<Rightarrow> if is_for ix j then ix else index_of_entries fs (job_dir j) (discover (job_dir j))
                   | None \<Rightarrow> index_of_entries fs (job_dir j) (discover (job_dir j)));
          (admitted, index1) = admits (sj_tokens j) (sj_bytes j) (sj_boundary j) (sj_budget j) index
      in if \<not> admitted then (skipped, 0, index1, fs)
         else
           let (stored, written, index2, fs1) =
                 (case outcome of
                    Inl e \<Rightarrow> (Inl e, 0, index1, fs)
                  | Inr path \<Rightarrow>
                      let fs1 = fs(path \<mapsto> sj_bytes j) in
                      (Inr (Some \<lparr>de_path = path, de_tokens = sj_tokens j, de_session = sj_session_id j,
                                  de_boundary = sj_boundary j\<rparr>),
                       sj_bytes j,
                       disk_insert fs1 path (sj_tokens j) (sj_boundary j) index1, fs1));
               (evicted, index3, fs2) = evict_over (sj_budget j) index2 fs1
           in (\<lparr>co_stored = stored, co_evicted = evicted\<rparr>, written, index3, fs2))"

section \<open>The thread and its callers\<close>

text \<open>The two critical sections of \<open>run\<close>'s loop, and the state \<open>Exit\<close> leaves.\<close>

definition run_take :: "writer_state \<Rightarrow> nat \<Rightarrow> (store_job \<times> bool \<times> writer_state) option" where
  "run_take s now =
     (case wr_queued s of
        None \<Rightarrow> None
      | Some j \<Rightarrow>
          (case within_budget (s\<lparr>wr_queued := None, wr_in_flight := Some (sj_tokens j)\<rparr>) now of
             (ok, s1) \<Rightarrow> Some (j, ok, s1)))"

definition run_finish :: "writer_state \<Rightarrow> completion \<Rightarrow> nat \<Rightarrow> writer_state" where
  "run_finish s c written =
     s\<lparr>wr_budget := map_option (\<lambda>b. budget_charge b written) (wr_budget s),
       wr_in_flight := None, wr_completed := wr_completed s @ [c]\<rparr>"

definition exit_state :: "writer_state \<Rightarrow> writer_state" where
  "exit_state s = s\<lparr>wr_dead := True, wr_queued := None, wr_in_flight := None\<rparr>"

definition spawn_state :: "nat option \<Rightarrow> nat \<Rightarrow> writer_state" where
  "spawn_state daily now =
     \<lparr>wr_queued = None, wr_in_flight = None, wr_completed = [], wr_shutdown = False,
      wr_closed = False, wr_dead = False, wr_budget = map_option (\<lambda>d. budget_new d now) daily\<rparr>"

text \<open>Beside the shared state stand what the thread holds (the job it is writing) and its index,
  the directory's file sizes, and counts of what became of the accepted jobs.\<close>

record writer_sys =
  sy_state :: writer_state
  sy_worker :: "(store_job \<times> bool) option"
  sy_index :: "disk_index option"
  sy_fs :: sizes
  sy_abort :: bool
  sy_accepted :: nat
  sy_replaced :: nat
  sy_discarded :: nat
  sy_finished :: nat
  sy_lost :: nat

definition spawn_sys :: "nat option \<Rightarrow> nat \<Rightarrow> sizes \<Rightarrow> writer_sys" where
  "spawn_sys daily now fs =
     \<lparr>sy_state = spawn_state daily now, sy_worker = None, sy_index = None, sy_fs = fs, sy_abort = False,
      sy_accepted = 0, sy_replaced = 0, sy_discarded = 0, sy_finished = 0, sy_lost = 0\<rparr>"

definition held :: "'a option \<Rightarrow> nat" where
  "held x = (case x of Some _ \<Rightarrow> 1 | None \<Rightarrow> 0)"

inductive writer_step :: "(string \<Rightarrow> disk_entry list) \<Rightarrow> writer_sys \<Rightarrow> writer_sys \<Rightarrow> bool" for discover where
  step_submit:
    "submit (sy_state s) j = (st, r) \<Longrightarrow>
     writer_step discover s (s\<lparr>sy_state := st,
       sy_accepted := sy_accepted s + (if r = Dropped then 0 else 1),
       sy_replaced := sy_replaced s + (if r = Replaced then 1 else 0)\<rparr>)"
| step_take:
    "\<not> wr_dead (sy_state s) \<Longrightarrow> sy_worker s = None \<Longrightarrow> run_take (sy_state s) now = Some (j, ok, st) \<Longrightarrow>
     writer_step discover s (s\<lparr>sy_state := st, sy_worker := Some (j, ok)\<rparr>)"
| step_write:
    "sy_worker s = Some (j, True) \<Longrightarrow>
     persist discover outcome j (sy_index s) (sy_fs s) = (c, written, ix, fs) \<Longrightarrow>
     writer_step discover s (s\<lparr>sy_state := run_finish (sy_state s) c written, sy_worker := None,
       sy_index := Some ix, sy_fs := fs, sy_finished := sy_finished s + 1\<rparr>)"
| step_skip:
    "sy_worker s = Some (j, False) \<Longrightarrow>
     writer_step discover s (s\<lparr>sy_state := run_finish (sy_state s) skipped 0, sy_worker := None,
       sy_finished := sy_finished s + 1\<rparr>)"
| step_leave:
    "sy_worker s = None \<Longrightarrow> wr_queued (sy_state s) = None \<Longrightarrow> wr_shutdown (sy_state s) \<Longrightarrow>
     writer_step discover s (s\<lparr>sy_state := exit_state (sy_state s)\<rparr>)"
| step_panic:
    "sy_worker s = Some w \<Longrightarrow>
     writer_step discover s (s\<lparr>sy_state := exit_state (sy_state s), sy_worker := None,
       sy_lost := sy_lost s + 1 + held (wr_queued (sy_state s))\<rparr>)"
| step_take_completed:
    "take_completed (sy_state s) = (cs, st) \<Longrightarrow> writer_step discover s (s\<lparr>sy_state := st\<rparr>)"
| step_within_budget:
    "within_budget (sy_state s) now = (ok, st) \<Longrightarrow> writer_step discover s (s\<lparr>sy_state := st\<rparr>)"
| step_close:
    "writer_step discover s (s\<lparr>sy_state := (sy_state s)\<lparr>wr_closed := True\<rparr>\<rparr>)"
| step_abort:
    "writer_step discover s (s\<lparr>sy_state := (sy_state s)\<lparr>wr_queued := None\<rparr>, sy_abort := True,
       sy_discarded := sy_discarded s + held (wr_queued (sy_state s))\<rparr>)"
| step_drop:
    "writer_step discover s (s\<lparr>sy_state := (sy_state s)\<lparr>wr_shutdown := True\<rparr>\<rparr>)"

section \<open>Every accepted job is accounted for\<close>

definition sys_inv :: "writer_sys \<Rightarrow> bool" where
  "sys_inv s \<longleftrightarrow>
     (wr_dead (sy_state s) \<longrightarrow> wr_queued (sy_state s) = None \<and> sy_worker s = None) \<and>
     wr_in_flight (sy_state s) = map_option (sj_tokens \<circ> fst) (sy_worker s) \<and>
     sy_accepted s = sy_finished s + sy_replaced s + sy_discarded s + sy_lost s +
       held (sy_worker s) + held (wr_queued (sy_state s))"

lemma held_simps [simp]: "held None = 0" "held (Some x) = 1"
  by (simp_all add: held_def)

lemma within_budget_state:
  assumes "within_budget s now = (ok, s')"
  shows "wr_dead s' = wr_dead s \<and> wr_queued s' = wr_queued s \<and> wr_in_flight s' = wr_in_flight s"
  using assms by (auto simp: within_budget_def split: option.splits prod.splits)

lemma run_take_state:
  assumes "run_take s now = Some (j, ok, s')"
  shows "wr_queued s = Some j" "wr_queued s' = None" "wr_in_flight s' = Some (sj_tokens j)" "wr_dead s' = wr_dead s"
proof -
  obtain j' where q: "wr_queued s = Some j'" using assms by (auto simp: run_take_def split: option.splits)
  let ?s = "s\<lparr>wr_queued := None, wr_in_flight := Some (sj_tokens j')\<rparr>"
  obtain ok' s1 where w: "within_budget ?s now = (ok', s1)" by (cases "within_budget ?s now")
  then have "j' = j" "s1 = s'" using assms q by (simp_all add: run_take_def)
  then show "wr_queued s = Some j" "wr_queued s' = None" "wr_in_flight s' = Some (sj_tokens j)"
    "wr_dead s' = wr_dead s"
    using q within_budget_state [OF w] by auto
qed

lemma submit_state:
  assumes "submit s j = (s', r)"
  shows "wr_dead s' = wr_dead s" "wr_in_flight s' = wr_in_flight s"
    "wr_dead s \<Longrightarrow> s' = s \<and> r = Dropped"
    "held (wr_queued s') + (if r = Replaced then 1 else 0) = held (wr_queued s) + (if r = Dropped then 0 else 1)"
  using assms
  by (auto simp: submit_def enqueue_def split: if_splits option.splits prod.splits)

lemma sys_inv_step: "writer_step discover s s' \<Longrightarrow> sys_inv s \<Longrightarrow> sys_inv s'"
proof (induction rule: writer_step.induct)
  case (step_submit s j st r)
  then show ?case using submit_state [OF step_submit(1)] by (auto simp: sys_inv_def)
next
  case (step_take s now j ok st)
  then show ?case using run_take_state [OF step_take(3)] by (simp add: sys_inv_def)
next
  case (step_write s j outcome c written ix fs)
  then show ?case by (auto simp: sys_inv_def run_finish_def)
next
  case (step_skip s j)
  then show ?case by (auto simp: sys_inv_def run_finish_def)
next
  case (step_leave s)
  then show ?case by (auto simp: sys_inv_def exit_state_def)
next
  case (step_panic s w)
  then show ?case by (auto simp: sys_inv_def exit_state_def)
next
  case (step_take_completed s cs st)
  then show ?case by (auto simp: sys_inv_def take_completed_def)
next
  case (step_within_budget s now ok st)
  then show ?case using within_budget_state [OF step_within_budget(1)] by (simp add: sys_inv_def)
qed (auto simp: sys_inv_def)

interpretation wrm: state_machine "writer_step discover" sys_inv for discover
  by unfold_locales (rule sys_inv_step)

lemma sys_inv_reach:
  assumes "(writer_step discover)\<^sup>*\<^sup>* (spawn_sys daily now fs) s"
  shows "sys_inv s"
  by (rule wrm.run_inv [OF assms]) (simp add: sys_inv_def spawn_sys_def spawn_state_def)

section \<open>How much the budget lets through\<close>

text \<open>A sequence of jobs, each with the time it is taken and the bytes it writes if it is let
  through: the bytes written, by the admission and the charge of \<open>run\<close>.\<close>

fun budget_run :: "write_budget \<Rightarrow> (nat \<times> nat) list \<Rightarrow> nat" where
  "budget_run b [] = 0"
| "budget_run b ((now, bytes) # rest) =
     (case budget_admits b now of
        (ok, b1) \<Rightarrow> if ok then bytes + budget_run (budget_charge b1 bytes) rest else budget_run b1 rest)"

lemma earned_superadditive:
  "(d :: nat) * x div DAY + d * y div DAY \<le> d * (x + y) div DAY"
  using div_add1_eq [of "d * x" "d * y" DAY] by (simp add: distrib_left)

lemma budget_run_bound:
  assumes "\<forall>(now, bytes) \<in> set offers. now \<le> until \<and> bytes \<le> M"
    and "sorted (map fst offers)" "\<forall>(now, _) \<in> set offers. wb_refilled b \<le> now" "wb_refilled b \<le> until"
  shows "int (budget_run b offers) \<le>
    max 0 (wb_balance b + int (wb_daily b * (until - wb_refilled b) div DAY) + int M)"
  using assms
proof (induction offers arbitrary: b)
  case Nil
  then show ?case by simp
next
  case (Cons offer offers)
  obtain now bytes where o: "offer = (now, bytes)" by (cases offer)
  let ?d = "wb_daily b" and ?r = "wb_refilled b"
  define bal where "bal = min (wb_balance b + int (?d * (now - ?r) div DAY)) (int ?d)"
  define b1 where "b1 = b\<lparr>wb_refilled := now, wb_balance := bal\<rparr>"
  have adm: "budget_admits b now = (bal > 0, b1)"
    by (simp add: budget_admits_def Let_def bal_def b1_def)
  have times: "?r \<le> now" "now \<le> until" "bytes \<le> M" using Cons.prems o by auto
  have rest: "\<forall>(now', bytes') \<in> set offers. now' \<le> until \<and> bytes' \<le> M" "sorted (map fst offers)"
    "\<forall>(now', _) \<in> set offers. now \<le> now'"
    using Cons.prems o by auto
  have e: "?d * (now - ?r) div DAY + ?d * (until - now) div DAY \<le> ?d * (until - ?r) div DAY"
    using earned_superadditive [of ?d "now - ?r" "until - now"] times by simp
  have ih: "int (budget_run (b1\<lparr>wb_balance := x\<rparr>) offers) \<le> max 0 (x + int (?d * (until - now) div DAY) + int M)" for x
    using Cons.IH [of "b1\<lparr>wb_balance := x\<rparr>"] rest times by (simp add: b1_def)
  show ?case
  proof (cases "bal > 0")
    case True
    have "budget_run b (offer # offers) = bytes + budget_run (b1\<lparr>wb_balance := bal - int bytes\<rparr>) offers"
      using True by (simp add: o adm budget_charge_def b1_def)
    then show ?thesis using ih [of "bal - int bytes"] e times(3) True unfolding bal_def by linarith
  next
    case False
    have "budget_run b (offer # offers) = budget_run (b1\<lparr>wb_balance := bal\<rparr>) offers"
      using False by (simp add: o adm b1_def)
    then show ?thesis using ih [of bal] e unfolding bal_def by linarith
  qed
qed

definition example_job :: store_job where
  "example_job = \<lparr>sj_root = ''r'', sj_model_key = ''k'', sj_tokens = [1], sj_session_id = None,
     sj_bytes = 5, sj_boundary = True, sj_budget = 10\<rparr>"

section \<open>Properties\<close>

text \<open>C16. No accepted job is lost silently: in every state the writer can reach, an accepted job is
  finished, replaced in the queue by a newer one, discarded by an abort, lost with a thread that
  panicked, in flight or queued; and once nothing is pending (what \<open>flush\<close> and \<open>close\<close> wait for)
  none is left in flight or queued.\<close>

theorem accepted_jobs_accounted:
  assumes "(writer_step discover)\<^sup>*\<^sup>* (spawn_sys daily now fs) s"
  shows "sy_accepted s = sy_finished s + sy_replaced s + sy_discarded s + sy_lost s +
      held (sy_worker s) + held (wr_queued (sy_state s)) \<and>
    (\<not> pending (sy_state s) (\<lambda>_. True) \<longrightarrow>
      sy_accepted s = sy_finished s + sy_replaced s + sy_discarded s + sy_lost s)"
proof -
  have inv: "sys_inv s" using sys_inv_reach [OF assms] .
  have "sy_worker s = None \<and> wr_queued (sy_state s) = None" if "\<not> pending (sy_state s) (\<lambda>_. True)"
    using that inv by (auto simp: pending_def sys_inv_def split: option.splits)
  then show ?thesis using inv by (auto simp: sys_inv_def)
qed

theorem accepted_jobs_accounted_witness:
  "\<exists>s. (writer_step (\<lambda>_. []))\<^sup>*\<^sup>* (spawn_sys None 0 Map.empty) s \<and> sy_accepted s = 1 \<and>
     sy_finished s + sy_replaced s + sy_discarded s + sy_lost s + held (sy_worker s) +
       held (wr_queued (sy_state s)) = 1"
proof -
  define s0 where "s0 = spawn_sys None 0 Map.empty"
  obtain st r where sub: "submit (sy_state s0) example_job = (st, r)"
    by (cases "submit (sy_state s0) example_job")
  then have r: "r = Queued" by (auto simp: s0_def submit_def enqueue_def spawn_sys_def spawn_state_def)
  define s1 where "s1 = s0\<lparr>sy_state := st, sy_accepted := sy_accepted s0 + (if r = Dropped then 0 else 1),
       sy_replaced := sy_replaced s0 + (if r = Replaced then 1 else 0)\<rparr>"
  have "writer_step (\<lambda>_. []) s0 s1" unfolding s1_def by (rule step_submit [OF sub])
  then have run: "(writer_step (\<lambda>_. []))\<^sup>*\<^sup>* (spawn_sys None 0 Map.empty) s1"
    unfolding s0_def by (rule r_into_rtranclp)
  have acc: "sy_accepted s1 = 1" using r by (simp add: s0_def s1_def spawn_sys_def)
  have "sy_accepted s1 = sy_finished s1 + sy_replaced s1 + sy_discarded s1 + sy_lost s1 +
      held (sy_worker s1) + held (wr_queued (sy_state s1))"
    using accepted_jobs_accounted [OF run] by blast
  then show ?thesis using run acc by (intro exI [of _ s1]) simp
qed

text \<open>C35. A request tail never displaces a queued shared-prefix boundary: whatever jobs are
  submitted while a boundary waits, the job that waits in the end is a boundary, the newest
  submitted or the first.\<close>

theorem boundary_never_displaced:
  assumes "sj_boundary waiting"
  shows "\<exists>k. foldl (\<lambda>q j. fst (enqueue q j)) (Some waiting) jobs = Some k \<and> sj_boundary k \<and>
    k = last (waiting # filter sj_boundary jobs)"
proof (induction jobs rule: rev_induct)
  case Nil
  then show ?case using assms by simp
next
  case (snoc j jobs)
  then show ?case by (auto simp: enqueue_def)
qed

theorem boundary_never_displaced_witness:
  "\<exists>k. foldl (\<lambda>q j. fst (enqueue q j)) (Some example_job) [example_job\<lparr>sj_boundary := False\<rparr>] = Some k \<and>
     sj_boundary k"
  using boundary_never_displaced [of example_job "[example_job\<lparr>sj_boundary := False\<rparr>]"]
  by (auto simp: example_job_def)

text \<open>C36. The write budget bounds the bytes written: over any period, the jobs let through write at
  most the balance at its start, what the period earns, and one snapshot.\<close>

theorem write_budget_bound:
  assumes "\<forall>(now, bytes) \<in> set offers. wb_refilled b \<le> now \<and> now \<le> until \<and> bytes \<le> M"
    and "sorted (map fst offers)" "wb_refilled b \<le> until" "0 \<le> wb_balance b"
  shows "int (budget_run b offers) \<le>
    wb_balance b + int (wb_daily b * (until - wb_refilled b) div DAY) + int M"
proof -
  have "int (budget_run b offers) \<le>
      max 0 (wb_balance b + int (wb_daily b * (until - wb_refilled b) div DAY) + int M)"
    using assms by (intro budget_run_bound) auto
  then show ?thesis using assms(4) by simp
qed

theorem write_budget_bound_witness:
  "int (budget_run (budget_new 100 0) [(DAY, 10), (DAY, 10)]) \<le> 25 + 100 + 10"
  using write_budget_bound [of "[(DAY, 10), (DAY, 10)]" "budget_new 100 0" DAY 10]
  by (simp add: budget_new_def DAY_def)


text \<open>What one job does: a job that is not admitted writes nothing and changes neither the
  index nor the files; otherwise the index ends within the job's budget, or holds one snapshot,
  and the bytes charged are those of a committed file.\<close>

theorem persist_outcome:
  assumes "persist discover outcome j (Some ix) fs = (c, written, ix', fs')" "is_for ix j"
  shows "(c = skipped \<and> written = 0 \<and> ix' = ix \<and> fs' = fs) \<or>
    ((total_bytes (dx_entries ix') \<le> sj_budget j \<or> length (dx_entries ix') \<le> 1) \<and>
     (case outcome of
        Inl e \<Rightarrow> written = 0 \<and> co_stored c = Inl e
      | Inr path \<Rightarrow> written = sj_bytes j \<and>
          co_stored c = Inr (Some \<lparr>de_path = path, de_tokens = sj_tokens j,
            de_session = sj_session_id j, de_boundary = sj_boundary j\<rparr>)))"
proof -
  obtain ok where a: "admits (sj_tokens j) (sj_bytes j) (sj_boundary j) (sj_budget j) ix = (ok, ix)"
    using admits_index by (metis prod.collapse)
  show ?thesis
  proof (cases ok)
    case False
    then show ?thesis using assms a by (simp add: persist_def Let_def)
  next
    case True
    obtain ix2 fs2 where ev: "evict_over (sj_budget j) ix2 fs2 = (co_evicted c, ix', fs')"
      and st: "case outcome of
        Inl e \<Rightarrow> written = 0 \<and> co_stored c = Inl e
      | Inr path \<Rightarrow> written = sj_bytes j \<and>
          co_stored c = Inr (Some \<lparr>de_path = path, de_tokens = sj_tokens j,
            de_session = sj_session_id j, de_boundary = sj_boundary j\<rparr>)"
      using assms a True by (auto simp: persist_def Let_def split: sum.splits prod.splits)
    have "dx_entries ix2 = [] \<Longrightarrow> dx_entries ix' = []"
      using evict_over_spec [OF ev] by auto
    then show ?thesis using evict_over_spec [OF ev] st by auto
  qed
qed

theorem persist_outcome_witness:
  "\<exists>c written ix' fs'.
     persist (\<lambda>_. []) (Inr ''p'') example_job (Some \<lparr>dx_dir = ''r/k'', dx_entries = []\<rparr>) Map.empty = (c, written, ix', fs') \<and>
     (c = skipped \<or> written = 5)"
proof -
  obtain c written ix' fs' where p: "persist (\<lambda>_. []) (Inr ''p'') example_job
      (Some \<lparr>dx_dir = ''r/k'', dx_entries = []\<rparr>) Map.empty = (c, written, ix', fs')"
    by (metis prod_cases4)
  have "is_for \<lparr>dx_dir = ''r/k'', dx_entries = []\<rparr> example_job"
    by (simp add: is_for_def job_dir_def example_job_def)
  from persist_outcome [OF p this] p show ?thesis by (auto simp: example_job_def)
qed

end
