(* ===== verification/Prompt_Tiers.thy ===== *)
theory Prompt_Tiers
  imports Device Writer "HOL-Library.Product_Lexorder"
begin

text \<open>
  The three tiers of the prompt cache (\<^verbatim>\<open>local-engine/src/bonsai_model/checkpoints.rs\<close> and
  \<^verbatim>\<open>checkpoints/reuse.rs\<close>): GPU checkpoints of the resident buffer set, host session snapshots and
  committed disk snapshots.  The engine's state is the part of \<^verbatim>\<open>BonsaiEngine\<close> these functions use.
  What the outside decides during a call (the operating system purging volatile buffers, GPU and
  allocation failures, file sizes, what a snapshot file holds, whether a thread starts) is given by
  an environment \<open>env\<close>.
\<close>

section \<open>The engine's state\<close>

datatype engine_error = EngineError

datatype cache_source = NoSource | Gpu | Host | Disk

record cached_checkpoint =
  cc_tokens :: "u32 list"
  cc_state :: prompt_checkpoint
  cc_boundary :: bool
  cc_owed :: bool
  cc_session :: "string option"

record session_snapshot =
  ss_tokens :: "u32 list"
  ss_session :: "string option"
  ss_state :: snapshot
  ss_boundary :: bool

definition MAX_HOST_PROMPT_SNAPSHOTS :: nat where "MAX_HOST_PROMPT_SNAPSHOTS = 16"
definition SHARED_PREFIX_MIN_TOKENS :: nat where "SHARED_PREFIX_MIN_TOKENS = 128"
definition MAX_PROMPT_CACHE_CHECKPOINTS :: nat where "MAX_PROMPT_CACHE_CHECKPOINTS = 4"

text \<open>\<open>t_handed\<close> is what was handed to the disk writer, for stating that it is what it is filed
  under; the code keeps no such list.\<close>

record tiers =
  t_device :: device
  t_cached_tokens :: "u32 list"
  t_checkpoints :: "cached_checkpoint list"
  t_max_checkpoints :: nat
  t_sessions :: "session_snapshot list"
  t_disk :: "disk_entry list"
  t_writer :: "writer_state option"
  t_cache_bytes :: nat
  t_disk_bytes :: nat
  t_daily_writes :: "nat option"
  t_cache_dir :: "string option"
  t_model_key :: string
  t_cache_state :: nat
  t_handed :: "(u32 list \<times> snapshot) list"

text \<open>
  \<open>ev_gpu_restore\<close> and \<open>ev_host_restore\<close> answer a restore of a volatile copy (an error, or whether
  it was still there); \<open>ev_restore_fails\<close> says that restoring a snapshot fails and what it leaves in
  the rows; \<open>ev_section_bytes\<close> is what the sections of a snapshot of so many tokens come to.
\<close>

record env =
  ev_now :: nat
  ev_sizes :: sizes
  ev_token_bytes :: nat
  ev_state_bytes :: nat
  ev_section_bytes :: "nat \<Rightarrow> nat"
  ev_stored_bytes :: "u32 list \<Rightarrow> nat"
  ev_gpu_restore :: "prompt_checkpoint \<Rightarrow> engine_error + bool"
  ev_host_restore :: "snapshot \<Rightarrow> engine_error + bool"
  ev_restore_fails :: "snapshot \<Rightarrow> rows option"
  ev_load :: "string \<Rightarrow> engine_error + snapshot"
  ev_spawn_load :: bool
  ev_spawn_writer :: bool
  ev_checkpoint_ok :: bool
  ev_snapshot_ok :: bool
  ev_host_copy_ok :: bool
  ev_purged_pinned :: "prompt_checkpoint \<Rightarrow> bool"

abbreviation set_device :: "device \<Rightarrow> tiers \<Rightarrow> tiers" where
  "set_device d t \<equiv> t\<lparr>t_device := d\<rparr>"

section \<open>Which set the GPU tier describes\<close>

definition clear_gpu_cache :: "tiers \<Rightarrow> tiers" where
  "clear_gpu_cache t = t\<lparr>t_cached_tokens := [], t_checkpoints := []\<rparr>"

definition claim_gpu_cache :: "tiers \<Rightarrow> tiers" where
  "claim_gpu_cache t =
     (if t_cache_state t \<noteq> dv_id (t_device t)
      then t\<lparr>t_cached_tokens := [], t_checkpoints := [], t_cache_state := dv_id (t_device t)\<rparr>
      else t)"

definition set_prompt_cache_checkpoints :: "nat \<Rightarrow> tiers \<Rightarrow> engine_error + tiers" where
  "set_prompt_cache_checkpoints n t =
     (if n > MAX_PROMPT_CACHE_CHECKPOINTS then Inl EngineError
      else Inr (t\<lparr>t_max_checkpoints := n, t_checkpoints := [], t_cached_tokens := []\<rparr>))"

section \<open>Saving\<close>

definition save_prompt_checkpoint ::
  "env \<Rightarrow> u32 list \<Rightarrow> bool \<Rightarrow> tiers \<Rightarrow> (engine_error + unit) \<times> tiers" where
  "save_prompt_checkpoint ev tokens boundary t =
     (if t_max_checkpoints t = 0 \<or> dv_position (t_device t) \<noteq> length tokens then (Inr (), t)
      else
        let kept = filter (\<lambda>c. cc_tokens c \<noteq> tokens) (t_checkpoints t) in
        if \<not> ev_checkpoint_ok ev then (Inl EngineError, t\<lparr>t_checkpoints := kept\<rparr>)
        else
          let pushed = kept @ [\<lparr>cc_tokens = tokens, cc_state = copy_checkpoint (t_device t),
                                cc_boundary = boundary, cc_owed = False, cc_session = None\<rparr>] in
          if t_max_checkpoints t < length pushed then
            let protected = min (t_max_checkpoints t) 2;
                entries = map (\<lambda>c. (cc_tokens c, cc_boundary c)) (take (length pushed - protected) pushed);
                victim = (case next_victim entries of Some i \<Rightarrow> i | None \<Rightarrow> 0)
            in (Inr (), t\<lparr>t_checkpoints := vec_remove victim pushed\<rparr>)
          else (Inr (), t\<lparr>t_checkpoints := pushed\<rparr>))"

function host_trim :: "string option \<Rightarrow> session_snapshot list \<Rightarrow> session_snapshot list" where
  "host_trim session ss =
     (if length ss > MAX_HOST_PROMPT_SNAPSHOTS then
        let victim =
              (case position (\<lambda>e. \<not> ss_boundary e \<and> ss_session e \<noteq> session) ss of
                 Some i \<Rightarrow> i
               | None \<Rightarrow>
                   (case position (\<lambda>e. \<not> ss_boundary e) ss of Some i \<Rightarrow> i | None \<Rightarrow> 0))
        in host_trim session (vec_remove victim ss)
      else ss)"
  by pat_completeness auto
termination
proof (relation "measure (\<lambda>(_, ss). length ss)", simp)
  fix session :: "string option" and ss and victim :: nat
  assume "MAX_HOST_PROMPT_SNAPSHOTS < length ss"
    and v: "victim = (case position (\<lambda>e. \<not> ss_boundary e \<and> ss_session e \<noteq> session) ss of
                 Some i \<Rightarrow> i
               | None \<Rightarrow> (case position (\<lambda>e. \<not> ss_boundary e) ss of Some i \<Rightarrow> i | None \<Rightarrow> 0))"
  then have "victim < length ss"
    by (auto dest: position_SomeD split: option.splits)
  then show "((session, vec_remove victim ss), session, ss) \<in> measure (\<lambda>(_, ss). length ss)"
    by simp
qed

declare host_trim.simps [simp del]

definition push_host_snapshot ::
  "u32 list \<Rightarrow> string option \<Rightarrow> snapshot \<Rightarrow> bool \<Rightarrow> tiers \<Rightarrow> tiers" where
  "push_host_snapshot tokens session state boundary t =
     t\<lparr>t_sessions := host_trim session
        (t_sessions t @ [\<lparr>ss_tokens = tokens, ss_session = session, ss_state = state,
                          ss_boundary = boundary\<rparr>])\<rparr>"

text \<open>Reading the resident boundary back can fail, as can copying a snapshot to volatile memory and
  starting the writer.\<close>

definition read_snapshot :: "env \<Rightarrow> tiers \<Rightarrow> (engine_error + snapshot) \<times> tiers" where
  "read_snapshot ev t =
     (if ev_snapshot_ok ev then Inr (prompt_snapshot (ev_section_bytes ev) (t_device t)) else Inl EngineError, t)"

definition save_to_host_tier ::
  "env \<Rightarrow> u32 list \<Rightarrow> string option \<Rightarrow> snapshot \<Rightarrow> bool \<Rightarrow> tiers \<Rightarrow> (engine_error + unit) \<times> tiers" where
  "save_to_host_tier ev tokens session state boundary t =
     (if ev_host_copy_ok ev then (Inr (), push_host_snapshot tokens session state boundary t)
      else (Inl EngineError, t))"

definition the_writer :: "env \<Rightarrow> tiers \<Rightarrow> engine_error + writer_state" where
  "the_writer ev t =
     (case t_writer t of
        Some w \<Rightarrow> Inr w
      | None \<Rightarrow> if ev_spawn_writer ev then Inr (spawn_state (t_daily_writes t) (ev_now ev)) else Inl EngineError)"

definition hand_to_writer ::
  "env \<Rightarrow> u32 list \<Rightarrow> string option \<Rightarrow> snapshot \<Rightarrow> bool \<Rightarrow> tiers \<Rightarrow> (engine_error + unit) \<times> tiers" where
  "hand_to_writer ev tokens session state boundary t =
     (case t_cache_dir t of
        None \<Rightarrow> (Inr (), t)
      | Some root \<Rightarrow>
          (case the_writer ev t of
             Inl e \<Rightarrow> (Inl e, t)
           | Inr w \<Rightarrow>
               let job = \<lparr>sj_root = root, sj_model_key = t_model_key t, sj_tokens = tokens,
                          sj_session_id = session, sj_bytes = ev_stored_bytes ev tokens,
                          sj_boundary = boundary, sj_budget = t_disk_bytes t\<rparr>
               in (Inr (), t\<lparr>t_writer := Some (fst (submit w job)),
                             t_handed := t_handed t @ [(tokens, state)]\<rparr>)))"

definition save_session_snapshot ::
  "env \<Rightarrow> u32 list \<Rightarrow> string option \<Rightarrow> snapshot option \<Rightarrow> bool \<Rightarrow> bool \<Rightarrow> tiers
   \<Rightarrow> (engine_error + unit) \<times> tiers" where
  "save_session_snapshot ev tokens session state0 to_disk boundary t0 =
     (let save_to_disk = (to_disk \<and> t_disk_bytes t0 > 0 \<and> t_cache_dir t0 \<noteq> None) in
      if t_cache_bytes t0 = 0 \<and> \<not> save_to_disk then (Inr (), t0)
      else
        tbind (case state0 of Some s \<Rightarrow> (Inr s, t0) | None \<Rightarrow> read_snapshot ev t0) (\<lambda>state t.
          let bytes = sn_bytes state + length tokens * 4;
              save_to_host = (bytes \<le> t_cache_bytes t)
          in
          if \<not> save_to_host \<and> \<not> save_to_disk then (Inr (), t)
          else
            let t1 = t\<lparr>t_sessions := filter (\<lambda>e. ss_tokens e \<noteq> tokens) (t_sessions t)\<rparr> in
            tbind (if save_to_host then save_to_host_tier ev tokens session state boundary t1 else (Inr (), t1))
              (\<lambda>_ t2. if save_to_disk then hand_to_writer ev tokens session state boundary t2 else (Inr (), t2))))"

section \<open>Whether a tier would keep a snapshot\<close>

text \<open>\<open>ev_token_bytes\<close> is a token's share of the K/V caches of the target's full-attention layers
  and of the head, \<open>ev_state_bytes\<close> is \<open>PROMPT_CHECKPOINT_BYTES\<close>.\<close>

definition snapshot_bytes :: "env \<Rightarrow> nat \<Rightarrow> nat" where
  "snapshot_bytes ev tokens = ev_state_bytes ev + tokens * (ev_token_bytes ev + 4)"

definition host_would_keep :: "env \<Rightarrow> nat \<Rightarrow> tiers \<Rightarrow> bool" where
  "host_would_keep ev tokens t \<longleftrightarrow>
     t_cache_bytes t > 0 \<and> snapshot_bytes ev tokens \<le> t_cache_bytes t"

definition writer_within_budget :: "env \<Rightarrow> tiers \<Rightarrow> bool \<times> tiers" where
  "writer_within_budget ev t =
     (case t_writer t of
        None \<Rightarrow> (True, t)
      | Some w \<Rightarrow> (case within_budget w (ev_now ev) of (ok, w1) \<Rightarrow> (ok, t\<lparr>t_writer := Some w1\<rparr>)))"

definition disk_would_keep :: "env \<Rightarrow> u32 list \<Rightarrow> bool \<Rightarrow> tiers \<Rightarrow> bool \<times> tiers" where
  "disk_would_keep ev tokens boundary t =
     (if t_disk_bytes t > 0 \<and> t_cache_dir t \<noteq> None then
        case writer_within_budget ev t of
          (False, t1) \<Rightarrow> (False, t1)
        | (True, t1) \<Rightarrow>
            (would_admit (ev_sizes ev) (t_disk t1) tokens (snapshot_bytes ev (length tokens)) boundary
               (t_disk_bytes t1), t1)
      else (False, t))"

section \<open>Owed checkpoints, and what a stopped request leaves\<close>

definition holds_checkpoint :: "u32 list \<Rightarrow> tiers \<Rightarrow> bool" where
  "holds_checkpoint tokens t \<longleftrightarrow> (\<exists>c\<in>set (t_checkpoints t). cc_tokens c = tokens)"

fun owe_first :: "u32 list \<Rightarrow> string option \<Rightarrow> cached_checkpoint list \<Rightarrow> cached_checkpoint list" where
  "owe_first tokens session [] = []"
| "owe_first tokens session (c # cs) =
     (if \<not> cc_boundary c \<and> cc_tokens c = tokens then c\<lparr>cc_owed := True, cc_session := session\<rparr> # cs
      else c # owe_first tokens session cs)"

definition owe_to_disk :: "u32 list \<Rightarrow> string option \<Rightarrow> tiers \<Rightarrow> tiers" where
  "owe_to_disk tokens session t = t\<lparr>t_checkpoints := owe_first tokens session (t_checkpoints t)\<rparr>"

text \<open>The loop of \<open>persist_owed_checkpoints\<close>: \<open>before\<close> is what it has passed, \<open>cs\<close> what is left.\<close>

fun persist_owed_loop ::
  "env \<Rightarrow> u32 list \<Rightarrow> cached_checkpoint list \<Rightarrow> cached_checkpoint list \<Rightarrow> tiers
   \<Rightarrow> (engine_error + unit) \<times> tiers" where
  "persist_owed_loop ev prompt before [] t = (Inr (), t\<lparr>t_checkpoints := before\<rparr>)"
| "persist_owed_loop ev prompt before (c # cs) t =
     (if \<not> cc_owed c \<or> prefix (cc_tokens c) prompt
      then persist_owed_loop ev prompt (before @ [c\<lparr>cc_owed := False\<rparr>]) cs t
      else
        case disk_would_keep ev (cc_tokens c) False (t\<lparr>t_checkpoints := before @ cs\<rparr>) of
          (False, t1) \<Rightarrow> persist_owed_loop ev prompt before cs t1
        | (True, t1) \<Rightarrow>
            (case (if ev_purged_pinned ev (cc_state c) then None
                   else prompt_snapshot_at (ev_section_bytes ev) (cc_state c) (t_device t1)) of
               None \<Rightarrow> persist_owed_loop ev prompt before cs t1
             | Some s \<Rightarrow>
                 (case save_session_snapshot ev (cc_tokens c) (cc_session c) (Some s) True False t1 of
                    (Inl e, t2) \<Rightarrow> (Inl e, t2)
                  | (Inr _, t2) \<Rightarrow> persist_owed_loop ev prompt before cs t2)))"

definition persist_owed_checkpoints :: "env \<Rightarrow> u32 list \<Rightarrow> tiers \<Rightarrow> (engine_error + unit) \<times> tiers" where
  "persist_owed_checkpoints ev prompt t =
     (if t_cache_state t \<noteq> dv_id (t_device t) then (Inr (), t)
      else persist_owed_loop ev prompt [] (t_checkpoints t) t)"

definition keep_reached_prompt :: "u32 list \<Rightarrow> tiers \<Rightarrow> tiers" where
  "keep_reached_prompt prompt t =
     (if t_cache_state t \<noteq> dv_id (t_device t) then t
      else
        let reached = take (min (dv_position (t_device t)) (length prompt)) prompt
        in t\<lparr>t_cached_tokens := reached,
             t_checkpoints := filter (\<lambda>c. prefix (cc_tokens c) reached) (t_checkpoints t)\<rparr>)"

section \<open>Committed writes\<close>

text \<open>\<open>Path::starts_with\<close> of a directory, which compares whole components.\<close>

definition path_starts_with :: "string \<Rightarrow> string \<Rightarrow> bool" where
  "path_starts_with path dir \<longleftrightarrow> path = dir \<or> prefix (dir @ ''/'') path"

definition collect_one :: "string option \<Rightarrow> completion \<Rightarrow> disk_entry list \<Rightarrow> disk_entry list" where
  "collect_one current done disk =
     (let disk1 =
            (case co_stored done of
               Inr (Some entry) \<Rightarrow>
                 (case current of
                    Some dir \<Rightarrow>
                      if path_starts_with (de_path entry) dir
                      then filter (\<lambda>e. de_tokens e \<noteq> de_tokens entry) disk @ [entry]
                      else disk
                  | None \<Rightarrow> disk)
             | _ \<Rightarrow> disk)
      in filter (\<lambda>e. de_path e \<notin> set (co_evicted done)) disk1)"

definition collect_disk_writes :: "tiers \<Rightarrow> tiers" where
  "collect_disk_writes t =
     (case t_writer t of
        None \<Rightarrow> t
      | Some w \<Rightarrow>
          let current = map_option (\<lambda>root. root @ ''/'' @ t_model_key t) (t_cache_dir t)
          in (case take_completed w of
                (completed, w1) \<Rightarrow>
                  t\<lparr>t_writer := Some w1, t_disk := fold (collect_one current) completed (t_disk t)\<rparr>))"

end
