(* ===== verification/Reuse.thy ===== *)
theory Reuse
  imports Prompt_Tiers
begin

text \<open>
  Finding and restoring the longest reusable prefix of a prompt
  (\<^verbatim>\<open>local-engine/src/bonsai_model/checkpoints/reuse.rs\<close>, and \<^verbatim>\<open>begin_prompt\<close> of
  \<^verbatim>\<open>checkpoints.rs\<close> up to the plan).  The retry loop is a function by recursion on the number of
  cached entries: every failed restore evicts one.  The properties: a restore leaves in the resident
  buffers exactly what prefilling that prefix afresh would, whatever failed on the way, and the
  prefix is the longest any tier can give.
\<close>

section \<open>Bounds and candidates\<close>

record reuse_bounds =
  rb_lcp :: nat
  rb_reusable :: nat
  rb_snapshot_reusable :: nat
  rb_penultimate :: nat
  rb_minimum :: nat

text \<open>A prompt has at least one token.\<close>

definition bounds_new :: "nat \<Rightarrow> nat \<Rightarrow> nat \<Rightarrow> reuse_bounds" where
  "bounds_new lcp prompt_len minimum =
     (let penultimate = prompt_len - 1; snapshot_reusable = prompt_len - 1
      in \<lparr>rb_lcp = lcp, rb_reusable = min lcp snapshot_reusable, rb_snapshot_reusable = snapshot_reusable,
          rb_penultimate = penultimate, rb_minimum = minimum\<rparr>)"

definition common_prefix :: "u32 list \<Rightarrow> u32 list \<Rightarrow> nat" where
  "common_prefix cached prompt = length (takeWhile (\<lambda>(c, n). c = n) (zip cached prompt))"

definition make_reuse_bounds :: "u32 list \<Rightarrow> tiers \<Rightarrow> reuse_bounds" where
  "make_reuse_bounds prompt t =
     bounds_new (common_prefix (t_cached_tokens t) prompt) (length prompt) SHARED_PREFIX_MIN_TOKENS"

type_synonym candidate = "cache_source \<times> nat \<times> nat"

definition gpu_candidate :: "u32 list \<Rightarrow> reuse_bounds \<Rightarrow> tiers \<Rightarrow> (nat \<times> nat) option" where
  "gpu_candidate prompt b t =
     (if t_cache_state t = dv_id (t_device t) then
        map_option (\<lambda>(i, c). (i, ck_position (cc_state c)))
          (max_by_key (\<lambda>(i, c). (ck_position (cc_state c), i))
            (filter (\<lambda>(i, c). ck_position (cc_state c) \<le> rb_reusable b \<and>
                              cc_tokens c = take (ck_position (cc_state c)) prompt)
              (enumerate 0 (t_checkpoints t))))
      else None)"

definition host_candidate ::
  "u32 list \<Rightarrow> reuse_bounds \<Rightarrow> string option \<Rightarrow> tiers \<Rightarrow> (nat \<times> nat) option" where
  "host_candidate prompt b session t =
     map_option (\<lambda>(i, s). (i, sn_position (ss_state s)))
       (max_by_key (\<lambda>(i, s). (sn_position (ss_state s), ss_session s = session))
         (filter (\<lambda>(i, s). sn_position (ss_state s) \<le> rb_snapshot_reusable b \<and>
                           ss_tokens s = take (sn_position (ss_state s)) prompt)
           (enumerate 0 (t_sessions t))))"

definition disk_candidate ::
  "u32 list \<Rightarrow> reuse_bounds \<Rightarrow> string option \<Rightarrow> tiers \<Rightarrow> (nat \<times> nat) option" where
  "disk_candidate prompt b session t =
     map_option (\<lambda>(i, e). (i, length (de_tokens e)))
       (max_by_key (\<lambda>(i, e). (length (de_tokens e), de_session e = session))
         (filter (\<lambda>(i, e). length (de_tokens e) \<le> rb_snapshot_reusable b \<and> prefix (de_tokens e) prompt)
           (enumerate 0 (t_disk t))))"

definition candidates ::
  "u32 list \<Rightarrow> reuse_bounds \<Rightarrow> string option \<Rightarrow> tiers \<Rightarrow> candidate list" where
  "candidates prompt b session t =
     sort_key (\<lambda>(_, _, p). - int p)
       (List.map_filter (\<lambda>(source, entry). map_option (\<lambda>(i, p). (source, i, p)) entry)
         [(Gpu, gpu_candidate prompt b t), (Host, host_candidate prompt b session t),
          (Disk, disk_candidate prompt b session t)])"

definition reusable_prefix :: "u32 list \<Rightarrow> tiers \<Rightarrow> nat \<times> tiers" where
  "reusable_prefix prompt t =
     (let t1 = collect_disk_writes t;
          ps = map (\<lambda>(_, _, p). p) (candidates prompt (make_reuse_bounds prompt t1) None t1)
      in (if ps = [] then 0 else Max (set ps), t1))"

section \<open>One restore\<close>

definition restore_gpu_checkpoint :: "env \<Rightarrow> nat \<Rightarrow> tiers \<Rightarrow> (engine_error + nat option) \<times> tiers" where
  "restore_gpu_checkpoint ev index t =
     (let state = cc_state (t_checkpoints t ! index) in
      case ev_gpu_restore ev state of
        Inl e \<Rightarrow> (Inl e, t)
      | Inr False \<Rightarrow> (Inr None, t\<lparr>t_checkpoints := vec_remove index (t_checkpoints t)\<rparr>)
      | Inr True \<Rightarrow>
          let cps = rotate (Suc index) (t_checkpoints t)
          in (Inr (Some (ck_position (cc_state (last cps)))),
              t\<lparr>t_device := restore_prompt_checkpoint state (t_device t), t_checkpoints := cps\<rparr>))"

definition restore_host_snapshot :: "env \<Rightarrow> nat \<Rightarrow> tiers \<Rightarrow> (engine_error + nat option) \<times> tiers" where
  "restore_host_snapshot ev index t =
     (let s = t_sessions t ! index in
      case ev_host_restore ev (ss_state s) of
        Inl e \<Rightarrow> (Inl e, t)
      | Inr False \<Rightarrow> (Inr None, t\<lparr>t_sessions := vec_remove index (t_sessions t)\<rparr>)
      | Inr True \<Rightarrow>
          (Inr (Some (sn_position (ss_state s))),
           t\<lparr>t_device := restore_prompt_snapshot (ss_state s) (t_device t),
             t_sessions := vec_remove index (t_sessions t) @ [s], t_checkpoints := []\<rparr>))"

definition restore_disk_snapshot ::
  "env \<Rightarrow> nat \<Rightarrow> engine_error + snapshot \<Rightarrow> tiers \<Rightarrow> nat option \<times> tiers" where
  "restore_disk_snapshot ev index loaded t =
     (let dropped = (\<lambda>d. (None, t\<lparr>t_device := dv_reset d, t_disk := vec_remove index (t_disk t)\<rparr>)) in
      case loaded of
        Inl _ \<Rightarrow> dropped (t_device t)
      | Inr s \<Rightarrow>
          (case ev_restore_fails ev s of
             Some rs \<Rightarrow> dropped ((t_device t)\<lparr>dv_rows := rs\<rparr>)
           | None \<Rightarrow>
               (Some (sn_position s),
                t\<lparr>t_device := restore_prompt_snapshot s (t_device t), t_checkpoints := []\<rparr>)))"

section \<open>The retry loop\<close>

type_synonym loaded = "string \<times> (engine_error + snapshot)"

text \<open>The variables of \<open>restore_reusable_prefix\<close>; a started load is the path it reads.\<close>

record restoring =
  rs_tiers :: tiers
  rs_loaded :: "loaded option"
  rs_rows_kept :: bool
  rs_load :: "string option"

text \<open>\<open>loaded.take_if\<close>: the finished load of that path.\<close>

definition finished_load :: "string \<Rightarrow> restoring \<Rightarrow> (engine_error + snapshot) option" where
  "finished_load path r =
     (case rs_loaded r of Some (p, s) \<Rightarrow> if p = path then Some s else None | None \<Rightarrow> None)"

datatype attempt = Found nat cache_source | Retry | Exhausted | Broken engine_error

fun try_candidates :: "env \<Rightarrow> candidate list \<Rightarrow> restoring \<Rightarrow> attempt \<times> restoring" where
  "try_candidates ev [] r = (Exhausted, r)"
| "try_candidates ev ((source, index, _) # rest) r =
     (if source = Gpu then
        if \<not> rs_rows_kept r then try_candidates ev rest r
        else
          (case restore_gpu_checkpoint ev index (rs_tiers r) of
             (Inl e, t) \<Rightarrow> (Broken e, r\<lparr>rs_tiers := t\<rparr>)
           | (Inr (Some p), t) \<Rightarrow> (Found p Gpu, r\<lparr>rs_tiers := t\<rparr>)
           | (Inr None, t) \<Rightarrow> (Retry, r\<lparr>rs_tiers := t\<rparr>))
      else if rs_load r \<noteq> None then try_candidates ev rest r
      else if source = Host then
        (case restore_host_snapshot ev index (rs_tiers r) of
           (Inl e, t) \<Rightarrow> (Broken e, r\<lparr>rs_tiers := t\<rparr>)
         | (Inr (Some p), t) \<Rightarrow> (Found p Host, r\<lparr>rs_tiers := t\<rparr>)
         | (Inr None, t) \<Rightarrow> (Retry, r\<lparr>rs_tiers := t, rs_rows_kept := False\<rparr>))
      else
        let path = de_path (t_disk (rs_tiers r) ! index) in
        if finished_load path r = None \<and> ev_spawn_load ev
        then try_candidates ev rest (r\<lparr>rs_load := Some path\<rparr>)
        else
          let r1 = (if finished_load path r = None then r else r\<lparr>rs_loaded := None\<rparr>) in
          (case restore_disk_snapshot ev index
                  (case finished_load path r of Some s \<Rightarrow> s | None \<Rightarrow> ev_load ev path) (rs_tiers r1) of
             (Some p, t) \<Rightarrow> (Found p Disk, r1\<lparr>rs_tiers := t\<rparr>)
           | (None, t) \<Rightarrow> (Retry, r1\<lparr>rs_tiers := t, rs_rows_kept := False\<rparr>)))"

text \<open>Every candidate is an entry of its tier, so a failed restore leaves one entry less.\<close>

definition entries :: "tiers \<Rightarrow> nat" where
  "entries t = length (t_checkpoints t) + length (t_sessions t) + length (t_disk t)"

definition candidate_of :: "tiers \<Rightarrow> candidate \<Rightarrow> bool" where
  "candidate_of t c \<longleftrightarrow> (case c of (source, index, p) \<Rightarrow>
     (case source of
        Gpu \<Rightarrow> t_cache_state t = dv_id (t_device t) \<and> index < length (t_checkpoints t) \<and>
               ck_position (cc_state (t_checkpoints t ! index)) = p
      | Host \<Rightarrow> index < length (t_sessions t) \<and> sn_position (ss_state (t_sessions t ! index)) = p
      | Disk \<Rightarrow> index < length (t_disk t) \<and> length (de_tokens (t_disk t ! index)) = p
      | NoSource \<Rightarrow> False))"

lemma max_enumerate:
  assumes "max_by_key f (filter P (enumerate 0 xs)) = Some (i, x)"
  shows "i < length xs" "x = xs ! i" "P (i, x)"
    and "\<And>j. j < length xs \<Longrightarrow> P (j, xs ! j) \<Longrightarrow> f (j, xs ! j) \<le> f (i, x)"
proof -
  have mem: "(i, x) \<in> set (filter P (enumerate 0 xs))" using max_by_key_SomeD(1) [OF assms] .
  then show "i < length xs" "x = xs ! i" "P (i, x)" by (auto simp: in_set_enumerate_eq)
  show "f (j, xs ! j) \<le> f (i, x)" if "j < length xs" "P (j, xs ! j)" for j
    using max_by_key_SomeD(2) [OF assms, of "(j, xs ! j)"] that by (auto simp: in_set_enumerate_eq)
qed

lemma max_enumerateD:
  "max_by_key f (filter P (enumerate 0 xs)) = Some (i, x) \<Longrightarrow> i < length xs \<and> x = xs ! i \<and> P (i, x)"
  using max_enumerate(1-3) [of f P xs i x] by simp

lemma set_candidates:
  "set (candidates prompt b session t) =
     {(Gpu, i, p) | i p. gpu_candidate prompt b t = Some (i, p)} \<union>
     {(Host, i, p) | i p. host_candidate prompt b session t = Some (i, p)} \<union>
     {(Disk, i, p) | i p. disk_candidate prompt b session t = Some (i, p)}"
  by (auto simp: candidates_def set_map_filter simp del: List.map_filter_simps)

lemma candidates_valid:
  assumes "c \<in> set (candidates prompt b session t)"
  shows "candidate_of t c"
  using assms
  by (auto simp: set_candidates candidate_of_def gpu_candidate_def host_candidate_def disk_candidate_def
      dest: max_enumerate(1,2) split: if_splits)

lemma try_candidates_entries:
  assumes "\<forall>c\<in>set cs. candidate_of (rs_tiers r) c" "try_candidates ev cs r = (Retry, r')"
  shows "entries (rs_tiers r') < entries (rs_tiers r)"
  using assms
proof (induction ev cs r rule: try_candidates.induct)
  case (1 ev r)
  then show ?case by simp
next
  case (2 ev source index p rest r)
  show ?case
  proof (cases source)
    case NoSource
    then show ?thesis using 2(4) by (simp add: candidate_of_def)
  qed (use 2 in \<open>auto simp: candidate_of_def entries_def restore_gpu_checkpoint_def
      restore_host_snapshot_def restore_disk_snapshot_def Let_def
      split: if_splits sum.splits bool.splits option.splits prod.splits\<close>)
qed

function restore_loop ::
  "env \<Rightarrow> u32 list \<Rightarrow> reuse_bounds \<Rightarrow> string option \<Rightarrow> restoring \<Rightarrow> (engine_error + nat \<times> cache_source) \<times> restoring" where
  "restore_loop ev prompt b session r =
     (case try_candidates ev (candidates prompt b session (rs_tiers r)) r of
        (Found p source, r1) \<Rightarrow> (Inr (p, source), r1)
      | (Broken e, r1) \<Rightarrow> (Inl e, r1)
      | (Retry, r1) \<Rightarrow> restore_loop ev prompt b session r1
      | (Exhausted, r1) \<Rightarrow>
          (Inr (0, NoSource),
           r1\<lparr>rs_tiers := set_device (dv_reset (t_device (rs_tiers r1))) (rs_tiers r1)\<rparr>))"
  by pat_completeness auto
termination
  by (relation "measure (\<lambda>(_, _, _, _, r). entries (rs_tiers r))")
    (auto intro!: try_candidates_entries candidates_valid dest!: sym [of "(Retry, _)"])

declare restore_loop.simps [simp del]

text \<open>The position restored, its tier, and the path of a load that was started.\<close>

definition restore_reusable_prefix ::
  "env \<Rightarrow> u32 list \<Rightarrow> reuse_bounds \<Rightarrow> string option \<Rightarrow> loaded option \<Rightarrow> tiers
   \<Rightarrow> (engine_error + nat \<times> cache_source \<times> string option) \<times> tiers" where
  "restore_reusable_prefix ev prompt b session loaded t =
     (case restore_loop ev prompt b session
             \<lparr>rs_tiers = t, rs_loaded = loaded, rs_rows_kept = True, rs_load = None\<rparr> of
        (Inl e, r) \<Rightarrow> (Inl e, rs_tiers r)
      | (Inr (p, source), r) \<Rightarrow> (Inr (p, source, rs_load r), rs_tiers r))"

section \<open>Writes still in flight\<close>

definition disk_usable :: "u32 list \<Rightarrow> u32 list \<Rightarrow> bool" where
  "disk_usable prompt tokens \<longleftrightarrow> length tokens < length prompt \<and> prefix tokens prompt"

definition committed_disk_prefix :: "u32 list \<Rightarrow> tiers \<Rightarrow> nat" where
  "committed_disk_prefix prompt t =
     (let ls = map (\<lambda>e. length (de_tokens e)) (filter (\<lambda>e. disk_usable prompt (de_tokens e)) (t_disk t))
      in if ls = [] then 0 else Max (set ls))"

definition pending_disk_prefix :: "u32 list \<Rightarrow> nat \<Rightarrow> tiers \<Rightarrow> nat option \<times> tiers" where
  "pending_disk_prefix prompt held_tokens t =
     (let t1 = collect_disk_writes t;
          committed = max (committed_disk_prefix prompt t1) held_tokens
      in (case t_writer t1 of
            None \<Rightarrow> None
          | Some w \<Rightarrow> longest_pending w (\<lambda>tokens. length tokens > committed \<and> disk_usable prompt tokens),
          t1))"

section \<open>What a restore leaves in the buffers\<close>

text \<open>
  The tiers are sound when every checkpoint stands for its tokens, the rows of the set they describe
  are theirs, and every host snapshot holds its tokens.
\<close>

definition checkpoints_named :: "tiers \<Rightarrow> bool" where
  "checkpoints_named t \<longleftrightarrow> (\<forall>c\<in>set (t_checkpoints t). ck_seq (cc_state c) = cc_tokens c)"

definition rows_sound :: "tiers \<Rightarrow> bool" where
  "rows_sound t \<longleftrightarrow>
     (t_cache_state t = dv_id (t_device t) \<longrightarrow>
        (\<forall>c\<in>set (t_checkpoints t). rows_of (dv_rows (t_device t)) (cc_tokens c)))"

definition sessions_sound :: "tiers \<Rightarrow> bool" where
  "sessions_sound t \<longleftrightarrow> (\<forall>s\<in>set (t_sessions t). faithful (ss_tokens s) (ss_state s))"

definition sound :: "tiers \<Rightarrow> bool" where
  "sound t \<longleftrightarrow> checkpoints_named t \<and> rows_sound t \<and> sessions_sound t"

text \<open>A snapshot file holds the tokens it is indexed under, read now or on a helper thread.\<close>

definition files_faithful :: "env \<Rightarrow> loaded option \<Rightarrow> disk_entry list \<Rightarrow> bool" where
  "files_faithful ev loaded disk \<longleftrightarrow>
     (\<forall>e\<in>set disk. (\<forall>s. ev_load ev (de_path e) = Inr s \<longrightarrow> faithful (de_tokens e) s) \<and>
                    (\<forall>s. loaded = Some (de_path e, Inr s) \<longrightarrow> faithful (de_tokens e) s))"

definition restoring_ok :: "env \<Rightarrow> restoring \<Rightarrow> bool" where
  "restoring_ok ev r \<longleftrightarrow>
     checkpoints_named (rs_tiers r) \<and> sessions_sound (rs_tiers r) \<and>
     (rs_rows_kept r \<longrightarrow> rows_sound (rs_tiers r)) \<and>
     files_faithful ev (rs_loaded r) (t_disk (rs_tiers r))"

text \<open>What a candidate promises: its entry is filed under that much of the prompt.\<close>

definition candidate_for :: "u32 list \<Rightarrow> tiers \<Rightarrow> candidate \<Rightarrow> bool" where
  "candidate_for prompt t c \<longleftrightarrow> candidate_of t c \<and>
     (case c of (source, index, p) \<Rightarrow>
        (source = Gpu \<longrightarrow> cc_tokens (t_checkpoints t ! index) = take p prompt) \<and>
        (source = Host \<longrightarrow> ss_tokens (t_sessions t ! index) = take p prompt) \<and>
        (source = Disk \<longrightarrow> de_tokens (t_disk t ! index) = take p prompt))"

lemma candidates_for:
  assumes "c \<in> set (candidates prompt b session t)"
  shows "candidate_for prompt t c"
  using assms candidates_valid [OF assms]
  by (auto simp: candidate_for_def set_candidates gpu_candidate_def host_candidate_def
      disk_candidate_def prefix_def dest!: max_enumerateD split: if_splits)

lemma last_rotate_Suc: "i < length xs \<Longrightarrow> last (rotate (Suc i) xs) = xs ! i"
proof -
  assume i: "i < length xs"
  then have "rotate (Suc i) xs \<noteq> []" by auto
  then have "last (rotate (Suc i) xs) = rotate (Suc i) xs ! (length xs - 1)"
    by (simp add: last_conv_nth)
  also have "\<dots> = xs ! ((Suc i + (length xs - 1)) mod length xs)"
    using i by (subst nth_rotate) auto
  also have "Suc i + (length xs - 1) = i + length xs" using i by simp
  finally show ?thesis using i by simp
qed

lemma vec_remove_in: "x \<in> set (vec_remove i xs) \<Longrightarrow> x \<in> set xs"
  by (rule subsetD [OF set_vec_remove])

definition restored :: "u32 list \<Rightarrow> nat \<Rightarrow> tiers \<Rightarrow> bool" where
  "restored prompt p t \<longleftrightarrow>
     coherent (t_device t) \<and> dv_seq (t_device t) = take p prompt \<and> p \<le> length prompt \<and> sound t"

lemmas tier_defs = checkpoints_named_def rows_sound_def sessions_sound_def files_faithful_def

lemma faithful_length: "faithful (take n xs) s \<Longrightarrow> sn_position s = n \<Longrightarrow> n \<le> length xs"
  by (auto simp: faithful_def sn_position_def)

lemma restore_gpu_found:
  assumes "restore_gpu_checkpoint ev i t = (Inr (Some p), t')"
    and "candidate_for prompt t (Gpu, i, q)" "sound t"
  shows "restored prompt p t'" "p = q"
proof -
  define cps where "cps = rotate (Suc i) (t_checkpoints t)"
  define c where "c = t_checkpoints t ! i"
  have i: "i < length (t_checkpoints t)" and q: "ck_position (cc_state c) = q" "cc_tokens c = take q prompt"
    and own: "t_cache_state t = dv_id (t_device t)"
    using assms(2) by (auto simp: candidate_for_def candidate_of_def c_def)
  have last: "last cps = c" using last_rotate_Suc [OF i] by (simp add: cps_def c_def)
  have t': "t' = t\<lparr>t_device := restore_prompt_checkpoint (cc_state c) (t_device t), t_checkpoints := cps\<rparr>"
    and p: "p = ck_position (cc_state (last cps))"
    using assms(1) by (auto simp: restore_gpu_checkpoint_def c_def cps_def Let_def split: sum.splits bool.splits)
  show "p = q" using p last q by simp
  have c: "c \<in> set (t_checkpoints t)" using i by (simp add: c_def)
  then have "ck_seq (cc_state c) = take q prompt" "rows_of (dv_rows (t_device t)) (ck_seq (cc_state c))"
    using assms(3) own q(2) by (auto simp: sound_def tier_defs)
  moreover have "set cps = set (t_checkpoints t)" by (simp add: cps_def)
  ultimately show "restored prompt p t'"
    using assms(3) \<open>p = q\<close> q(1) arg_cong [of "ck_seq (cc_state c)" "take q prompt" length]
    by (auto simp: restored_def t' coherent_restore_checkpoint sound_def tier_defs
        restore_prompt_checkpoint_def coherent_def ck_position_def)
qed

lemma restore_host_found:
  assumes "restore_host_snapshot ev i t = (Inr (Some p), t')"
    and "candidate_for prompt t (Host, i, q)" "checkpoints_named t" "sessions_sound t"
  shows "restored prompt p t'" "p = q"
proof -
  define s where "s = t_sessions t ! i"
  have i: "i < length (t_sessions t)" and q: "sn_position (ss_state s) = q" "ss_tokens s = take q prompt"
    using assms(2) by (auto simp: candidate_for_def candidate_of_def s_def)
  have t': "t' = t\<lparr>t_device := restore_prompt_snapshot (ss_state s) (t_device t),
             t_sessions := vec_remove i (t_sessions t) @ [s], t_checkpoints := []\<rparr>"
    and p: "p = q"
    using assms(1) q(1) by (auto simp: restore_host_snapshot_def s_def Let_def split: sum.splits bool.splits)
  show "p = q" by (rule p)
  have s: "faithful (take q prompt) (ss_state s)" "s \<in> set (t_sessions t)"
    using assms(4) i q(2) nth_mem [OF i] unfolding sessions_sound_def s_def by metis+
  show "restored prompt p t'"
    using coherent_restore_snapshot [OF s(1), of "t_device t"] assms(4) s(2) p faithful_length [OF s(1)] q(1)
    by (auto simp: restored_def t' sound_def tier_defs dest!: vec_remove_in)
qed

lemma restore_disk_found:
  assumes "restore_disk_snapshot ev i l t = (Some p, t')"
    and "candidate_for prompt t (Disk, i, q)" "sessions_sound t"
    and "\<And>s. l = Inr s \<Longrightarrow> faithful (de_tokens (t_disk t ! i)) s"
  shows "restored prompt p t'" "p = q"
proof -
  obtain s where l: "l = Inr s" and p: "p = sn_position s"
    and t': "t' = t\<lparr>t_device := restore_prompt_snapshot s (t_device t), t_checkpoints := []\<rparr>"
    using assms(1) by (auto simp: restore_disk_snapshot_def Let_def split: sum.splits option.splits)
  have "candidate_of t (Disk, i, q)" using assms(2) by (simp add: candidate_for_def)
  then have q: "length (de_tokens (t_disk t ! i)) = q" "de_tokens (t_disk t ! i) = take q prompt"
    using assms(2) by (auto simp: candidate_for_def candidate_of_def)
  have f: "faithful (take q prompt) s" using assms(4) [OF l] q(2) by simp
  then show "p = q" using p q by (metis faithful_def sn_position_def)
  then show "restored prompt p t'"
    using coherent_restore_snapshot [OF f, of "t_device t"] assms(3) faithful_length [OF f] p
    by (auto simp: restored_def t' sound_def tier_defs)
qed

text \<open>A failed restore evicts its entry and keeps the rest.\<close>

lemma restore_gpu_failed:
  assumes "restore_gpu_checkpoint ev i t = (Inr None, t')"
  shows "checkpoints_named t \<Longrightarrow> checkpoints_named t'" "rows_sound t \<Longrightarrow> rows_sound t'"
    "t_sessions t' = t_sessions t" "t_disk t' = t_disk t"
  using assms
  by (auto simp: restore_gpu_checkpoint_def tier_defs Let_def dest!: vec_remove_in
      split: sum.splits bool.splits)

lemma restore_host_failed:
  assumes "restore_host_snapshot ev i t = (Inr None, t')"
  shows "checkpoints_named t \<Longrightarrow> checkpoints_named t'" "sessions_sound t \<Longrightarrow> sessions_sound t'"
    "t_disk t' = t_disk t"
  using assms
  by (auto simp: restore_host_snapshot_def tier_defs Let_def dest!: vec_remove_in
      split: sum.splits bool.splits)

lemma restore_disk_failed:
  assumes "restore_disk_snapshot ev i l t = (None, t')"
  shows "t_checkpoints t' = t_checkpoints t" "t_sessions t' = t_sessions t"
    "set (t_disk t') \<subseteq> set (t_disk t)"
  using assms set_vec_remove [of i "t_disk t"]
  by (auto simp: restore_disk_snapshot_def Let_def split: sum.splits option.splits)

text \<open>What one pass over the candidates gives.\<close>

definition pass_outcome :: "env \<Rightarrow> u32 list \<Rightarrow> attempt \<Rightarrow> restoring \<Rightarrow> bool" where
  "pass_outcome ev prompt a r \<longleftrightarrow>
     (case a of
        Found p source \<Rightarrow> restored prompt p (rs_tiers r)
      | Retry \<Rightarrow> restoring_ok ev r
      | Exhausted \<Rightarrow> restoring_ok ev r
      | Broken e \<Rightarrow> True)"

lemma restoring_ok_load: "restoring_ok ev (r\<lparr>rs_load := l\<rparr>) = restoring_ok ev r"
  by (simp add: restoring_ok_def)

lemma restoring_sound: "restoring_ok ev r \<Longrightarrow> rs_rows_kept r \<Longrightarrow> sound (rs_tiers r)"
  by (simp add: restoring_ok_def sound_def)

lemma pass_gpu:
  assumes "restoring_ok ev r" "candidate_for prompt (rs_tiers r) (Gpu, i, q)" "rs_rows_kept r"
    and "restore_gpu_checkpoint ev i (rs_tiers r) = (Inr res, t)"
  shows "case res of Some p \<Rightarrow> restored prompt p t | None \<Rightarrow> restoring_ok ev (r\<lparr>rs_tiers := t\<rparr>)"
proof (cases res)
  case (Some p)
  then show ?thesis
    using restore_gpu_found(1) [of ev i "rs_tiers r" p t prompt q] assms restoring_sound by simp
next
  case None
  then show ?thesis
    using restore_gpu_failed [of ev i "rs_tiers r" t] assms
    by (simp add: restoring_ok_def sessions_sound_def files_faithful_def)
qed

lemma pass_host:
  assumes "restoring_ok ev r" "candidate_for prompt (rs_tiers r) (Host, i, q)"
    and "restore_host_snapshot ev i (rs_tiers r) = (Inr res, t)"
  shows "case res of Some p \<Rightarrow> restored prompt p t
         | None \<Rightarrow> restoring_ok ev (r\<lparr>rs_tiers := t, rs_rows_kept := False\<rparr>)"
proof (cases res)
  case (Some p)
  then show ?thesis
    using restore_host_found(1) [of ev i "rs_tiers r" p t prompt q] assms by (simp add: restoring_ok_def)
next
  case None
  then show ?thesis
    using restore_host_failed [of ev i "rs_tiers r" t] assms
    by (simp add: restoring_ok_def files_faithful_def)
qed

lemma pass_disk:
  assumes ok: "restoring_ok ev r" and c: "candidate_for prompt (rs_tiers r) (Disk, i, q)"
    and path: "path = de_path (t_disk (rs_tiers r) ! i)"
    and l: "rs_loaded r = Some (path, l) \<or> l = ev_load ev path"
    and run: "restore_disk_snapshot ev i l (rs_tiers r) = (res, t)"
    and r1: "r1 = r \<or> r1 = r\<lparr>rs_loaded := None\<rparr>"
  shows "case res of Some p \<Rightarrow> restored prompt p t
         | None \<Rightarrow> restoring_ok ev (r1\<lparr>rs_tiers := t, rs_rows_kept := False\<rparr>)"
proof (cases res)
  case (Some p)
  have "i < length (t_disk (rs_tiers r))" using c by (simp add: candidate_for_def candidate_of_def)
  then have "t_disk (rs_tiers r) ! i \<in> set (t_disk (rs_tiers r))" by simp
  then have "faithful (de_tokens (t_disk (rs_tiers r) ! i)) s" if "l = Inr s" for s
    using ok l path that unfolding restoring_ok_def files_faithful_def by metis
  then show ?thesis
    using restore_disk_found(1) [of ev i l "rs_tiers r" p t prompt q] run c ok Some
    by (simp add: restoring_ok_def)
next
  case None
  then show ?thesis
    using restore_disk_failed [of ev i l "rs_tiers r" t] run ok r1
    by (auto simp: restoring_ok_def tier_defs)
qed

text \<open>A disk candidate whose snapshot is there, or is read at once.\<close>

lemma disk_now_outcome:
  assumes ok: "restoring_ok ev r" and c: "candidate_for prompt (rs_tiers r) (Disk, index, q)"
    and path: "path = de_path (t_disk (rs_tiers r) ! index)" and none: "rs_load r = None"
    and now: "\<not> (finished_load path r = None \<and> ev_spawn_load ev)"
    and run: "try_candidates ev ((Disk, index, q) # rest) r = (a, r')"
  shows "pass_outcome ev prompt a r'"
proof -
  define l where "l = (case finished_load path r of Some s \<Rightarrow> s | None \<Rightarrow> ev_load ev path)"
  define r1 where "r1 = (if finished_load path r = None then r else r\<lparr>rs_loaded := None\<rparr>)"
  have l: "rs_loaded r = Some (path, l) \<or> l = ev_load ev path"
    by (auto simp: l_def finished_load_def split: option.splits if_splits)
  have r1: "r1 = r \<or> r1 = r\<lparr>rs_loaded := None\<rparr>" "rs_tiers r1 = rs_tiers r" by (auto simp: r1_def)
  obtain res t where d: "restore_disk_snapshot ev index l (rs_tiers r) = (res, t)" by fastforce
  have "(a, r') = (case res of Some p \<Rightarrow> (Found p Disk, r1\<lparr>rs_tiers := t\<rparr>)
        | None \<Rightarrow> (Retry, r1\<lparr>rs_tiers := t, rs_rows_kept := False\<rparr>))"
    using run now none d r1(2)
    by (simp add: path [symmetric] l_def [symmetric] r1_def [symmetric] Let_def split: option.splits)
  then show ?thesis
    using pass_disk [OF ok c path l d r1(1)] by (auto simp: pass_outcome_def split: option.splits)
qed

lemma try_candidates_outcome:
  assumes "restoring_ok ev r" "\<forall>c\<in>set cs. candidate_for prompt (rs_tiers r) c"
    and "try_candidates ev cs r = (a, r')"
  shows "pass_outcome ev prompt a r'"
  using assms
proof (induction ev cs r rule: try_candidates.induct)
  case (1 ev r)
  then show ?case by (auto simp: pass_outcome_def)
next
  case (2 ev source index q rest r)
  have c: "candidate_for prompt (rs_tiers r) (source, index, q)"
    and rest: "\<forall>c\<in>set rest. candidate_for prompt (rs_tiers r) c" using 2(5) by auto
  consider (gpu) "source = Gpu" | (host) "source = Host" | (disk) "source = Disk"
    using c by (cases source) (auto simp: candidate_for_def candidate_of_def)
  then show ?case
  proof cases
    case gpu
    show ?thesis
    proof (cases "rs_rows_kept r")
      case True
      then show ?thesis
        using 2(6) gpu pass_gpu [OF 2(4) c [unfolded gpu] True]
        by (fastforce simp: pass_outcome_def split: sum.splits option.splits prod.splits)
    qed (use 2(1) 2(4,6) gpu rest in simp)
  next
    case host
    show ?thesis
    proof (cases "rs_load r")
      case None
      then show ?thesis
        using 2(6) host pass_host [OF 2(4) c [unfolded host]]
        by (fastforce simp: pass_outcome_def split: sum.splits option.splits prod.splits)
    qed (use 2(2) 2(4,6) host rest in simp)
  next
    case disk
    show ?thesis
    proof (cases "rs_load r")
      case None
      define path where "path = de_path (t_disk (rs_tiers r) ! index)"
      show ?thesis
      proof (cases "finished_load path r = None \<and> ev_spawn_load ev")
        case True
        then show ?thesis
          using 2(3) [OF _ _ _ path_def True] 2(4,6) rest None disk
          by (simp add: path_def [symmetric] restoring_ok_load)
      next
        case False
        show ?thesis by (rule disk_now_outcome [OF 2(4) c [unfolded disk] path_def None False 2(6) [unfolded disk]])
      qed
    qed (use 2(2) 2(4,6) disk rest in simp)
  qed
qed

lemma restore_loop_outcome:
  assumes "restoring_ok ev r" "restore_loop ev prompt b session r = (Inr (p, source), r')"
  shows "coherent (t_device (rs_tiers r'))" "dv_seq (t_device (rs_tiers r')) = take p prompt" "p \<le> length prompt"
    "source \<noteq> NoSource \<or> rs_rows_kept r' \<Longrightarrow> sound (rs_tiers r')" "checkpoints_named (rs_tiers r')"
    "sessions_sound (rs_tiers r')"
proof -
  have "coherent (t_device (rs_tiers r')) \<and> dv_seq (t_device (rs_tiers r')) = take p prompt \<and> p \<le> length prompt \<and>
        checkpoints_named (rs_tiers r') \<and> sessions_sound (rs_tiers r') \<and>
        (source \<noteq> NoSource \<or> rs_rows_kept r' \<longrightarrow> sound (rs_tiers r'))"
    using assms
  proof (induction ev prompt b session r rule: restore_loop.induct)
    case (1 ev prompt b session r)
    obtain a r1 where run: "try_candidates ev (candidates prompt b session (rs_tiers r)) r = (a, r1)"
      by fastforce
    have out: "pass_outcome ev prompt a r1"
      by (rule try_candidates_outcome [OF 1(2) _ run]) (auto intro: candidates_for)
    show ?case
    proof (cases a)
      case (Found q src)
      then show ?thesis
        using 1(3) run out
        by (auto simp: restore_loop.simps [of ev prompt b session r] pass_outcome_def restored_def sound_def)
    next
      case Retry
      then show ?thesis
        using 1(1) [OF run [symmetric] Retry] 1(3) run out
        by (simp add: restore_loop.simps [of ev prompt b session r] pass_outcome_def)
    next
      case Exhausted
      then show ?thesis
        using 1(3) run out
        by (auto simp: restore_loop.simps [of ev prompt b session r] pass_outcome_def restoring_ok_def
            sound_def tier_defs dv_reset_def coherent_def)
    next
      case (Broken e)
      then show ?thesis
        using 1(3) run by (simp add: restore_loop.simps [of ev prompt b session r])
    qed
  qed
  then show "coherent (t_device (rs_tiers r'))" "dv_seq (t_device (rs_tiers r')) = take p prompt" "p \<le> length prompt"
    "checkpoints_named (rs_tiers r')" "sessions_sound (rs_tiers r')"
    "source \<noteq> NoSource \<or> rs_rows_kept r' \<Longrightarrow> sound (rs_tiers r')" by auto
qed

lemma restore_reusable_prefix_exact:
  assumes "sound t" "files_faithful ev loaded (t_disk t)"
    and "restore_reusable_prefix ev prompt b session loaded t = (Inr (p, source, load), t')"
  shows "coherent (t_device t')" "dv_seq (t_device t') = take p prompt" "p \<le> length prompt"
    "source \<noteq> NoSource \<Longrightarrow> sound t'" "checkpoints_named t'" "sessions_sound t'"
proof -
  define r where "r = \<lparr>rs_tiers = t, rs_loaded = loaded, rs_rows_kept = True, rs_load = None\<rparr>"
  have ok: "restoring_ok ev r" using assms(1,2) by (simp add: r_def restoring_ok_def sound_def)
  obtain r' where "restore_loop ev prompt b session r = (Inr (p, source), r')" "t' = rs_tiers r'"
    using assms(3) by (auto simp: restore_reusable_prefix_def r_def split: prod.splits sum.splits)
  then show "coherent (t_device t')" "dv_seq (t_device t') = take p prompt" "p \<le> length prompt"
    "source \<noteq> NoSource \<Longrightarrow> sound t'" "checkpoints_named t'" "sessions_sound t'"
    using restore_loop_outcome [OF ok] by auto
qed

text \<open>A restore hands nothing to the writer.\<close>

lemma try_candidates_handed: "t_handed (rs_tiers (snd (try_candidates ev cs r))) = t_handed (rs_tiers r)"
proof (induction ev cs r rule: try_candidates.induct)
  case (2 ev source index q rest r)
  then show ?case
    by (simp add: restore_gpu_checkpoint_def restore_host_snapshot_def restore_disk_snapshot_def Let_def
        split: sum.split bool.split option.split)
qed simp

lemma restore_loop_handed: "t_handed (rs_tiers (snd (restore_loop ev prompt b session r))) = t_handed (rs_tiers r)"
proof (induction ev prompt b session r rule: restore_loop.induct)
  case (1 ev prompt b session r)
  obtain a r1 where run: "try_candidates ev (candidates prompt b session (rs_tiers r)) r = (a, r1)"
    by fastforce
  have "t_handed (rs_tiers r1) = t_handed (rs_tiers r)"
    using try_candidates_handed [of ev "candidates prompt b session (rs_tiers r)" r] run by simp
  then show ?case
    using 1 [OF run [symmetric]] run restore_loop.simps [of ev prompt b session r] by (cases a) auto
qed

lemma restore_reusable_prefix_handed:
  "restore_reusable_prefix ev prompt b session loaded t = (r, t') \<Longrightarrow> t_handed t' = t_handed t"
  using restore_loop_handed [of ev prompt b session
      "\<lparr>rs_tiers = t, rs_loaded = loaded, rs_rows_kept = True, rs_load = None\<rparr>"]
  by (auto simp: restore_reusable_prefix_def split: prod.splits sum.splits)

text \<open>C3. Whatever restores fail on the way, what a restore leaves in the resident buffers is what
  prefilling that prefix of the prompt afresh leaves: the K/V rows and the recurrent state of
  exactly those tokens.\<close>

theorem restored_prefix_exact:
  assumes "sound t" "files_faithful ev loaded (t_disk t)"
    and "restore_reusable_prefix ev prompt b session loaded t = (Inr (p, source, load), t')"
  shows "coherent (t_device t') \<and> dv_seq (t_device t') = take p prompt \<and>
         (source \<noteq> NoSource \<longrightarrow> sound t')"
  using restore_reusable_prefix_exact [OF assms] by blast

section \<open>The longest prefix\<close>

definition usable :: "u32 list \<Rightarrow> reuse_bounds \<Rightarrow> tiers \<Rightarrow> nat \<Rightarrow> bool" where
  "usable prompt b t n \<longleftrightarrow>
     (t_cache_state t = dv_id (t_device t) \<and>
        (\<exists>c\<in>set (t_checkpoints t). ck_position (cc_state c) = n \<and> n \<le> rb_reusable b \<and> cc_tokens c = take n prompt)) \<or>
     (\<exists>s\<in>set (t_sessions t). sn_position (ss_state s) = n \<and> n \<le> rb_snapshot_reusable b \<and> ss_tokens s = take n prompt) \<or>
     (\<exists>e\<in>set (t_disk t). length (de_tokens e) = n \<and> n \<le> rb_snapshot_reusable b \<and> prefix (de_tokens e) prompt)"

text \<open>The best entry of one tier is at least as long as any of its usable ones.\<close>

lemma max_enumerate_ge:
  assumes "x \<in> set xs" "P x"
  shows "\<exists>i y j. max_by_key f (filter (\<lambda>(i, x). P x) (enumerate 0 xs)) = Some (i, y) \<and>
           j < length xs \<and> xs ! j = x \<and> f (j, x) \<le> f (i, y)"
proof -
  obtain j where j: "j < length xs" "xs ! j = x" using assms(1) by (auto simp: in_set_conv_nth)
  have "(j, x) \<in> set (enumerate 0 xs)" using j by (auto simp: in_set_enumerate_eq)
  then have "filter (\<lambda>(i, x). P x) (enumerate 0 xs) \<noteq> []" using assms(2) by (auto simp: filter_empty_conv)
  then obtain i y where max: "max_by_key f (filter (\<lambda>(i, x). P x) (enumerate 0 xs)) = Some (i, y)"
    by (metis max_by_key_None not_None_eq surj_pair)
  show ?thesis using max max_enumerate(4) [OF max, of j] assms(2) j by auto
qed

lemma usable_candidate:
  assumes "usable prompt b t n"
  obtains source i q where "(source, i, q) \<in> set (candidates prompt b session t)" "n \<le> q"
proof -
  consider (gpu) c where "t_cache_state t = dv_id (t_device t)" "c \<in> set (t_checkpoints t)"
        "ck_position (cc_state c) = n" "n \<le> rb_reusable b" "cc_tokens c = take n prompt"
    | (host) s where "s \<in> set (t_sessions t)" "sn_position (ss_state s) = n"
        "n \<le> rb_snapshot_reusable b" "ss_tokens s = take n prompt"
    | (disk) e where "e \<in> set (t_disk t)" "length (de_tokens e) = n" "n \<le> rb_snapshot_reusable b"
        "prefix (de_tokens e) prompt"
    using assms unfolding usable_def by blast
  then show thesis
  proof cases
    case gpu
    then show thesis
      using that [of Gpu] max_enumerate_ge [OF gpu(2), of "\<lambda>c. ck_position (cc_state c) \<le> rb_reusable b \<and>
          cc_tokens c = take (ck_position (cc_state c)) prompt" "\<lambda>(i, c). (ck_position (cc_state c), i)"]
      by (auto simp: set_candidates gpu_candidate_def less_eq_prod_def)
  next
    case host
    then show thesis
      using that [of Host] max_enumerate_ge [OF host(1), of "\<lambda>s. sn_position (ss_state s) \<le> rb_snapshot_reusable b \<and>
          ss_tokens s = take (sn_position (ss_state s)) prompt"
          "\<lambda>(i, s). (sn_position (ss_state s), ss_session s = session)"]
      by (auto simp: set_candidates host_candidate_def less_eq_prod_def)
  next
    case disk
    then show thesis
      using that [of Disk] max_enumerate_ge [OF disk(1), of "\<lambda>e. length (de_tokens e) \<le> rb_snapshot_reusable b \<and>
          prefix (de_tokens e) prompt" "\<lambda>(i, e). (length (de_tokens e), de_session e = session)"]
      by (auto simp: set_candidates disk_candidate_def less_eq_prod_def)
  qed
qed

lemma candidates_sorted:
  assumes "candidates prompt b session t = (source, i, q) # rest" "(source', i', q') \<in> set (candidates prompt b session t)"
  shows "q' \<le> q"
proof -
  have "sorted (map (\<lambda>(_, _, p). - int p) (candidates prompt b session t))"
    by (simp add: candidates_def)
  then show ?thesis using assms by auto
qed

text \<open>When nothing fails, the first candidate is restored, or read on a helper thread.\<close>

definition all_restores_work :: "env \<Rightarrow> bool" where
  "all_restores_work ev \<longleftrightarrow>
     ev_gpu_restore ev = (\<lambda>_. Inr True) \<and> ev_host_restore ev = (\<lambda>_. Inr True) \<and>
     ev_restore_fails ev = (\<lambda>_. None) \<and> (\<forall>path. \<exists>s. ev_load ev path = Inr s)"

lemma try_loading:
  assumes "all_restores_work ev" "rs_load r = Some path" "try_candidates ev cs r = (a, r')"
  shows "(\<exists>p. a = Found p Gpu) \<or> a = Exhausted" "rs_load r' = Some path"
proof -
  have "((\<exists>p. a = Found p Gpu) \<or> a = Exhausted) \<and> rs_load r' = Some path"
    using assms
  proof (induction ev cs r rule: try_candidates.induct)
    case (2 ev source index q rest r)
    then show ?case
      by (cases "source = Gpu"; cases "rs_rows_kept r")
        (auto simp: restore_gpu_checkpoint_def all_restores_work_def Let_def)
  qed auto
  then show "(\<exists>p. a = Found p Gpu) \<or> a = Exhausted" "rs_load r' = Some path" by auto
qed

definition longest_outcome :: "u32 list \<Rightarrow> reuse_bounds \<Rightarrow> tiers \<Rightarrow> nat \<Rightarrow> string option \<Rightarrow> bool" where
  "longest_outcome prompt b t p load \<longleftrightarrow>
     (\<forall>n. usable prompt b t n \<longrightarrow>
        (case load of
           None \<Rightarrow> n \<le> p
         | Some path \<Rightarrow> \<exists>e\<in>set (t_disk t). de_path e = path \<and> n \<le> length (de_tokens e)))"

lemma first_candidate_outcome:
  assumes works: "all_restores_work ev" and files: "files_faithful ev (rs_loaded r) (t_disk (rs_tiers r))"
    and ok: "sound (rs_tiers r)" "rs_rows_kept r" "rs_load r = None"
    and loaded: "\<And>path l. rs_loaded r = Some (path, l) \<Longrightarrow> \<exists>s. l = Inr s"
    and c: "candidate_for prompt (rs_tiers r) (source, i, q)"
    and run: "try_candidates ev ((source, i, q) # rest) r = (a, r')"
  shows "a = Found q source \<and> rs_load r' = None \<or>
         (\<exists>e\<in>set (t_disk (rs_tiers r)). length (de_tokens e) = q \<and> rs_load r' = Some (de_path e)) \<and>
           ((\<exists>p. a = Found p Gpu) \<or> a = Exhausted)"
proof -
  consider (gpu) "source = Gpu" | (host) "source = Host" | (disk) "source = Disk"
    using c by (cases source) (auto simp: candidate_for_def candidate_of_def)
  then show ?thesis
  proof cases
    case gpu
    obtain p t where g: "restore_gpu_checkpoint ev i (rs_tiers r) = (Inr (Some p), t)"
      using works by (simp add: restore_gpu_checkpoint_def all_restores_work_def Let_def)
    then have "p = q" using restore_gpu_found(2) c ok(1) gpu by blast
    then show ?thesis using run g gpu ok(2,3) by auto
  next
    case host
    obtain p t where g: "restore_host_snapshot ev i (rs_tiers r) = (Inr (Some p), t)"
      using works by (simp add: restore_host_snapshot_def all_restores_work_def Let_def)
    then have "p = q" using restore_host_found(2) c ok(1) host unfolding sound_def by blast
    then show ?thesis using run g host ok(3) by auto
  next
    case disk
    define e where "e = t_disk (rs_tiers r) ! i"
    have "candidate_of (rs_tiers r) (Disk, i, q)" using c disk by (simp add: candidate_for_def)
    then have e: "e \<in> set (t_disk (rs_tiers r))" "length (de_tokens e) = q"
      by (auto simp: candidate_of_def e_def)
    show ?thesis
    proof (cases "finished_load (de_path e) r = None \<and> ev_spawn_load ev")
      case True
      then have "try_candidates ev rest (r\<lparr>rs_load := Some (de_path e)\<rparr>) = (a, r')"
        using run disk ok(3) by (simp add: e_def)
      from try_loading [OF works _ this] show ?thesis using e by auto
    next
      case False
      define l where "l = (case finished_load (de_path e) r of Some s \<Rightarrow> s | None \<Rightarrow> ev_load ev (de_path e))"
      obtain s where s: "l = Inr s"
        using works loaded by (fastforce simp: l_def finished_load_def all_restores_work_def split: option.splits if_splits)
      have "rs_loaded r = Some (de_path e, l) \<or> l = ev_load ev (de_path e)"
        by (auto simp: l_def finished_load_def split: option.splits if_splits)
      then have f: "faithful (de_tokens e) s" using files e(1) s unfolding files_faithful_def by metis
      have "restore_disk_snapshot ev i l (rs_tiers r) = (Some q,
          (rs_tiers r)\<lparr>t_device := restore_prompt_snapshot s (t_device (rs_tiers r)), t_checkpoints := []\<rparr>)"
        using works f e(2) by (simp add: restore_disk_snapshot_def s all_restores_work_def faithful_def sn_position_def)
      then show ?thesis
        using run disk False ok(3)
        by (cases "finished_load (de_path e) r = None") (auto simp: e_def [symmetric] l_def)
    qed
  qed
qed

text \<open>C15. When no restore fails, the prefix restored is the longest that any tier holds for the
  prompt, or a disk snapshot at least that long is being read and the restored prefix is a stand-in
  until it is.\<close>

theorem restore_longest:
  assumes "all_restores_work ev" "files_faithful ev loaded (t_disk t)" "sound t"
    and "\<And>path l. loaded = Some (path, l) \<Longrightarrow> \<exists>s. l = Inr s"
  shows "\<exists>p source load t'. restore_reusable_prefix ev prompt b session loaded t = (Inr (p, source, load), t') \<and>
           longest_outcome prompt b t p load"
proof -
  define r where "r = \<lparr>rs_tiers = t, rs_loaded = loaded, rs_rows_kept = True, rs_load = None\<rparr>"
  have reach: "(case restore_loop ev prompt b session r of
      (Inl e, r1) \<Rightarrow> (Inl e, rs_tiers r1) | (Inr (p, source), r1) \<Rightarrow> (Inr (p, source, rs_load r1), rs_tiers r1)) =
      restore_reusable_prefix ev prompt b session loaded t"
    by (simp add: restore_reusable_prefix_def r_def)
  show ?thesis
  proof (cases "candidates prompt b session t")
    case Nil
    then have "\<not> usable prompt b t n" for n using usable_candidate [of prompt b t n session] by auto
    then show ?thesis
      using reach [symmetric] Nil restore_loop.simps [of ev prompt b session r]
      by (simp add: longest_outcome_def r_def)
  next
    case (Cons c rest)
    obtain source i q where c: "c = (source, i, q)" by (cases c)
    obtain a r' where run: "try_candidates ev ((source, i, q) # rest) r = (a, r')" by fastforce
    have len: "n \<le> q" if "usable prompt b t n" for n
      using usable_candidate [OF that, of session] candidates_sorted [of prompt b session t source i q rest] Cons c
      by (metis le_trans)
    have "candidate_for prompt t (source, i, q)"
      using candidates_for [of c prompt b session t] Cons c by simp
    then have "a = Found q source \<and> rs_load r' = None \<or>
         (\<exists>e\<in>set (t_disk t). length (de_tokens e) = q \<and> rs_load r' = Some (de_path e)) \<and>
           ((\<exists>p. a = Found p Gpu) \<or> a = Exhausted)"
      using first_candidate_outcome [OF assms(1) _ _ _ _ _ _ run] assms(2-4) by (simp add: r_def)
    moreover have "rs_tiers r = t" by (simp add: r_def)
    then have "try_candidates ev (candidates prompt b session (rs_tiers r)) r = (a, r')"
      using run Cons c by simp
    note loop = restore_loop.simps [of ev prompt b session r, unfolded this prod.case]
    have "\<exists>p source t'. restore_reusable_prefix ev prompt b session loaded t = (Inr (p, source, rs_load r'), t') \<and>
            (\<forall>src. a = Found q src \<longrightarrow> p = q)" if "(\<exists>p source. a = Found p source) \<or> a = Exhausted"
      using that reach [symmetric] loop by auto
    ultimately obtain p src t' where
      "restore_reusable_prefix ev prompt b session loaded t = (Inr (p, src, rs_load r'), t')"
      "\<forall>src. a = Found q src \<longrightarrow> p = q"
      by blast
    moreover have "longest_outcome prompt b t p (rs_load r')"
      using \<open>a = Found q source \<and> rs_load r' = None \<or> _\<close> calculation(2) len
      unfolding longest_outcome_def by (elim disjE conjE bexE) (auto intro!: bexI)
    ultimately show ?thesis by blast
  qed
qed

section \<open>Examples\<close>

definition fresh_snapshot :: "u32 list \<Rightarrow> snapshot" where
  "fresh_snapshot ts = \<lparr>sn_seq = ts, sn_rows = (\<lambda>i. take (Suc i) ts), sn_bytes = 0\<rparr>"

definition example_env :: env where
  "example_env =
     \<lparr>ev_now = 0, ev_sizes = (\<lambda>_. None), ev_token_bytes = 1, ev_state_bytes = 1, ev_section_bytes = (\<lambda>_. 1),
      ev_stored_bytes = (\<lambda>_. 1), ev_gpu_restore = (\<lambda>_. Inr True), ev_host_restore = (\<lambda>_. Inr True),
      ev_restore_fails = (\<lambda>_. None), ev_load = (\<lambda>_. Inr (fresh_snapshot [1, 2, 3])), ev_spawn_load = False,
      ev_spawn_writer = True, ev_checkpoint_ok = True, ev_snapshot_ok = True, ev_host_copy_ok = True,
      ev_purged_pinned = (\<lambda>_. False)\<rparr>"

definition example_tiers :: tiers where
  "example_tiers =
     \<lparr>t_device = \<lparr>dv_id = 0, dv_rows = (\<lambda>i. take (Suc i) [1, 2]), dv_seq = [1, 2]\<rparr>,
      t_cached_tokens = [1, 2],
      t_checkpoints = [\<lparr>cc_tokens = [1, 2], cc_state = \<lparr>ck_seq = [1, 2]\<rparr>, cc_boundary = False, cc_owed = False,
                        cc_session = None\<rparr>],
      t_max_checkpoints = 4, t_sessions = [],
      t_disk = [\<lparr>de_path = ''p'', de_tokens = [1, 2, 3], de_session = None, de_boundary = True\<rparr>],
      t_writer = None, t_cache_bytes = 0, t_disk_bytes = 1, t_daily_writes = None, t_cache_dir = None,
      t_model_key = ''k'', t_cache_state = 0, t_handed = []\<rparr>"

lemma example_sound: "sound example_tiers"
  by (simp add: sound_def tier_defs example_tiers_def rows_of_def)

lemma faithful_fresh: "faithful ts (fresh_snapshot ts)"
  by (simp add: faithful_def fresh_snapshot_def rows_of_def)

lemma example_files: "files_faithful example_env None (t_disk example_tiers)"
  by (simp add: files_faithful_def example_env_def example_tiers_def faithful_fresh)

theorem restored_prefix_exact_witness:
  "\<exists>t'. restore_reusable_prefix example_env [1, 2, 3, 4] (make_reuse_bounds [1, 2, 3, 4] example_tiers) None None
          example_tiers = (Inr (3, Disk, None), t') \<and>
        coherent (t_device t') \<and> dv_seq (t_device t') = [1, 2, 3]"
proof -
  define run where "run = restore_reusable_prefix example_env [1, 2, 3, 4]
    (make_reuse_bounds [1, 2, 3, 4] example_tiers) None None example_tiers"
  have "fst run = Inr (3, Disk, None)" unfolding run_def by code_simp
  then have run: "run = (Inr (3, Disk, None), snd run)" by (metis prod.collapse)
  show ?thesis
    using restored_prefix_exact [OF example_sound example_files run [unfolded run_def]] run
    by (auto simp: run_def)
qed

theorem restore_longest_witness:
  "\<exists>p source load t'. restore_reusable_prefix example_env [1, 2, 3, 4]
       (make_reuse_bounds [1, 2, 3, 4] example_tiers) None None example_tiers = (Inr (p, source, load), t') \<and>
     longest_outcome [1, 2, 3, 4] (make_reuse_bounds [1, 2, 3, 4] example_tiers) example_tiers p load"
  by (rule restore_longest [OF _ example_files example_sound])
    (simp_all add: all_restores_work_def example_env_def)

definition failing_env :: env where
  "failing_env = example_env\<lparr>ev_restore_fails := (\<lambda>_. Some (\<lambda>_. [9]))\<rparr>"

definition after_failure :: tiers where
  "after_failure = example_tiers\<lparr>t_device := \<lparr>dv_id = 0, dv_rows = (\<lambda>_. [9]), dv_seq = []\<rparr>, t_disk := []\<rparr>"

lemma example_failure:
  "restore_reusable_prefix failing_env [1, 2, 3, 4] (make_reuse_bounds [1, 2, 3, 4] example_tiers) None None
     example_tiers = (Inr (0, NoSource, None), after_failure)"
proof -
  define b where "b = make_reuse_bounds [1, 2, 3, 4] example_tiers"
  define t1 where "t1 = example_tiers\<lparr>t_device := \<lparr>dv_id = 0, dv_rows = (\<lambda>_. [9]), dv_seq = []\<rparr>, t_disk := []\<rparr>"
  have first: "candidates [1, 2, 3, 4] b None example_tiers = [(Disk, 0, 3), (Gpu, 0, 2)]"
    unfolding b_def by code_simp
  have second: "candidates [1, 2, 3, 4] b None t1 = [(Gpu, 0, 2)]" unfolding b_def t1_def by code_simp
  have disk: "restore_disk_snapshot failing_env 0 (Inr (fresh_snapshot [1, 2, 3])) example_tiers = (None, t1)"
    by (simp add: restore_disk_snapshot_def failing_env_def example_tiers_def t1_def dv_reset_def Let_def)
  have env: "ev_load failing_env = (\<lambda>_. Inr (fresh_snapshot [1, 2, 3]))" "\<not> ev_spawn_load failing_env"
    by (simp_all add: failing_env_def example_env_def)
  show ?thesis
    unfolding restore_reusable_prefix_def b_def [symmetric]
    by (simp add: restore_loop.simps first second disk env finished_load_def dv_reset_def after_failure_def t1_def
        [symmetric]) (simp add: t1_def)
qed

text \<open>A restore that fails may leave other rows in the live caches, and the call it fails in
  restores no GPU checkpoint over them; the next call on the same buffers does: the checkpoints are
  still listed, and the prefix restored from one is not the prompt's.\<close>

theorem failed_restore_forgotten:
  "sound example_tiers \<and>
   restore_reusable_prefix failing_env [1, 2, 3, 4] (make_reuse_bounds [1, 2, 3, 4] example_tiers) None None
     example_tiers = (Inr (0, NoSource, None), after_failure) \<and>
   fst (restore_reusable_prefix failing_env [1, 2, 3, 4] (make_reuse_bounds [1, 2, 3, 4] after_failure) None None
     after_failure) = Inr (2, Gpu, None) \<and>
   \<not> coherent (t_device (snd (restore_reusable_prefix failing_env [1, 2, 3, 4]
     (make_reuse_bounds [1, 2, 3, 4] after_failure) None None after_failure)))"
proof (intro conjI)
  show "fst (restore_reusable_prefix failing_env [1, 2, 3, 4] (make_reuse_bounds [1, 2, 3, 4] after_failure) None None
     after_failure) = Inr (2, Gpu, None)" by code_simp
  show "\<not> coherent (t_device (snd (restore_reusable_prefix failing_env [1, 2, 3, 4]
     (make_reuse_bounds [1, 2, 3, 4] after_failure) None None after_failure)))" by code_simp
qed (rule example_sound example_failure)+

end
