(* ===== verification/Prefill.thy ===== *)
theory Prefill
  imports Reuse
begin

text \<open>
  A prompt's prefill from its restored prefix to its end
  (\<^verbatim>\<open>local-engine/src/bonsai_model/checkpoints/boundary.rs\<close>, \<^verbatim>\<open>begin_prompt\<close> of
  \<^verbatim>\<open>checkpoints.rs\<close> and the prompt-cache part of \<^verbatim>\<open>finish_generation\<close> in \<^verbatim>\<open>generation.rs\<close>), in
  budgeted segments with the cache milestones on the way.  \<open>pass\<close> says how many tokens of a segment
  the model gets through (fewer when it is cancelled) and whether it fails.
\<close>

section \<open>The plan\<close>

record prompt_prefill =
  pf_reused :: nat
  pf_done :: nat
  pf_boundary :: "nat option"
  pf_penultimate :: nat
  pf_checkpoint_penultimate :: bool
  pf_penultimate_reached :: bool
  pf_snapshot :: "prompt_checkpoint option"
  pf_persisted :: bool

definition pf_remaining :: "prompt_prefill \<Rightarrow> nat \<Rightarrow> nat" where
  "pf_remaining plan prompt_len = prompt_len - pf_done plan"

text \<open>Where the next segment ends at the latest: the boundary, the penultimate token, the end.\<close>

definition pf_target :: "prompt_prefill \<Rightarrow> nat \<Rightarrow> nat" where
  "pf_target plan prompt_len =
     (case pf_boundary plan of
        Some b \<Rightarrow> if b > pf_done plan then b
                  else if pf_done plan < pf_penultimate plan then pf_penultimate plan else prompt_len
      | None \<Rightarrow> if pf_done plan < pf_penultimate plan then pf_penultimate plan else prompt_len)"

definition plain_run :: "prompt_prefill \<Rightarrow> nat \<Rightarrow> nat" where
  "plain_run plan prompt_len =
     (if pf_boundary plan = Some (pf_done plan) \<or>
         (pf_done plan = pf_penultimate plan \<and> \<not> pf_penultimate_reached plan)
      then 0
      else min (pf_target plan prompt_len) (prompt_len - 1) - pf_done plan)"

definition pf_advance :: "nat \<Rightarrow> prompt_prefill \<Rightarrow> prompt_prefill" where
  "pf_advance rows plan = plan\<lparr>pf_done := pf_done plan + rows\<rparr>"

definition plan_prefill :: "u32 list \<Rightarrow> u32 list \<Rightarrow> reuse_bounds \<Rightarrow> nat \<Rightarrow> prompt_prefill" where
  "plan_prefill eos_ids prompt b reused =
     (let lcp = rb_lcp b; penultimate = rb_penultimate b; minimum = rb_minimum b;
          divergence = (if lcp \<ge> minimum \<and> lcp > reused \<and> lcp \<le> penultimate then Some lcp else None);
          system_boundary =
            (case position (\<lambda>token. token \<in> set eos_ids) prompt of
               Some index \<Rightarrow>
                 if index + 1 \<ge> minimum \<and> index + 1 > reused \<and> index + 1 \<le> penultimate
                 then Some (index + 1) else None
             | None \<Rightarrow> None);
          boundary = (case divergence of Some d \<Rightarrow> Some d | None \<Rightarrow> system_boundary)
      in \<lparr>pf_reused = reused, pf_done = reused, pf_boundary = boundary, pf_penultimate = penultimate,
          pf_checkpoint_penultimate = ((case boundary of Some d \<Rightarrow> d | None \<Rightarrow> reused) < penultimate),
          pf_penultimate_reached = False, pf_snapshot = None, pf_persisted = False\<rparr>)"

definition begin_prompt ::
  "env \<Rightarrow> u32 list \<Rightarrow> u32 list \<Rightarrow> string option \<Rightarrow> loaded option \<Rightarrow> tiers
   \<Rightarrow> (engine_error + prompt_prefill \<times> cache_source \<times> string option) \<times> tiers" where
  "begin_prompt ev eos_ids prompt session loaded t =
     tbind (persist_owed_checkpoints ev prompt (collect_disk_writes t)) (\<lambda>_ t1.
       let b = make_reuse_bounds prompt t1 in
       tbind (restore_reusable_prefix ev prompt b session loaded t1) (\<lambda>(reused, source, load) t2.
         (Inr (plan_prefill eos_ids prompt b reused, source, load), t2)))"

section \<open>Milestones\<close>

definition caches_snapshots :: "tiers \<Rightarrow> bool" where
  "caches_snapshots t \<longleftrightarrow> t_cache_bytes t > 0 \<or> (t_disk_bytes t > 0 \<and> t_cache_dir t \<noteq> None)"

definition any_would_keep :: "env \<Rightarrow> u32 list \<Rightarrow> bool \<Rightarrow> tiers \<Rightarrow> bool \<times> tiers" where
  "any_would_keep ev tokens boundary t =
     (if host_would_keep ev (length tokens) t then (True, t) else disk_would_keep ev tokens boundary t)"

text \<open>Copying the resident recurrent state can fail.\<close>

definition pinned_prompt_checkpoint :: "env \<Rightarrow> tiers \<Rightarrow> (engine_error + prompt_checkpoint) \<times> tiers" where
  "pinned_prompt_checkpoint ev t =
     (if ev_checkpoint_ok ev then Inr (copy_checkpoint (t_device t)) else Inl EngineError, t)"

definition persist_boundary :: "env \<Rightarrow> u32 list \<Rightarrow> string option \<Rightarrow> tiers \<Rightarrow> (engine_error + unit) \<times> tiers" where
  "persist_boundary ev tokens session t =
     (case any_would_keep ev tokens True t of
        (False, t1) \<Rightarrow> (Inr (), t1)
      | (True, t1) \<Rightarrow>
          tbind (read_snapshot ev t1) (\<lambda>s t2. save_session_snapshot ev tokens session (Some s) True True t2))"

definition reach_boundary ::
  "env \<Rightarrow> u32 list \<Rightarrow> string option \<Rightarrow> prompt_prefill \<Rightarrow> tiers \<Rightarrow> (engine_error + prompt_prefill) \<times> tiers" where
  "reach_boundary ev tokens session plan t =
     tbind (save_prompt_checkpoint ev tokens True (claim_gpu_cache t)) (\<lambda>_ t1.
       if caches_snapshots t1
       then tbind (persist_boundary ev tokens session t1) (\<lambda>_ t2.
              (Inr (plan\<lparr>pf_boundary := None, pf_persisted := True\<rparr>), t2))
       else (Inr (plan\<lparr>pf_boundary := None\<rparr>), t1))"

definition checkpoint_penultimate ::
  "env \<Rightarrow> u32 list \<Rightarrow> prompt_prefill \<Rightarrow> tiers \<Rightarrow> (engine_error + unit) \<times> tiers" where
  "checkpoint_penultimate ev tokens plan t =
     (if pf_checkpoint_penultimate plan \<and> t_max_checkpoints t > 0
      then save_prompt_checkpoint ev tokens False ((claim_gpu_cache t)\<lparr>t_cached_tokens := tokens\<rparr>)
      else (Inr (), t))"

definition pin_penultimate ::
  "env \<Rightarrow> u32 list \<Rightarrow> prompt_prefill \<Rightarrow> tiers \<Rightarrow> (engine_error + prompt_checkpoint option) \<times> tiers" where
  "pin_penultimate ev tokens plan t =
     (let persisted_here = (pf_persisted plan \<and> \<not> pf_checkpoint_penultimate plan) in
      if tokens \<noteq> [] \<and> \<not> persisted_here then
        (case any_would_keep ev tokens False t of
           (False, t1) \<Rightarrow> (Inr None, t1)
         | (True, t1) \<Rightarrow> tbind (pinned_prompt_checkpoint ev t1) (\<lambda>c t2. (Inr (Some c), t2)))
      else (Inr None, t))"

definition reach_penultimate ::
  "env \<Rightarrow> u32 list \<Rightarrow> prompt_prefill \<Rightarrow> tiers \<Rightarrow> (engine_error + prompt_prefill) \<times> tiers" where
  "reach_penultimate ev tokens plan t =
     tbind (checkpoint_penultimate ev tokens plan t) (\<lambda>_ t1.
       tbind (pin_penultimate ev tokens plan t1) (\<lambda>pinned t2.
         (Inr (plan\<lparr>pf_penultimate_reached := True,
                    pf_snapshot := (case pinned of Some c \<Rightarrow> Some c | None \<Rightarrow> pf_snapshot plan)\<rparr>), t2)))"

definition finish_prompt :: "env \<Rightarrow> u32 list \<Rightarrow> bool \<Rightarrow> tiers \<Rightarrow> (engine_error + unit) \<times> tiers" where
  "finish_prompt ev prompt penultimate_checkpointed t0 =
     (let t = claim_gpu_cache t0;
          t1 = t\<lparr>t_cached_tokens := prompt,
                 t_checkpoints := filter (\<lambda>c. length (cc_tokens c) \<le> length prompt \<and>
                                            cc_tokens c = take (length (cc_tokens c)) prompt) (t_checkpoints t)\<rparr>
      in if penultimate_checkpointed then (Inr (), t1) else save_prompt_checkpoint ev prompt False t1)"

section \<open>Segments\<close>

definition milestones ::
  "env \<Rightarrow> u32 list \<Rightarrow> string option \<Rightarrow> prompt_prefill \<Rightarrow> tiers \<Rightarrow> (engine_error + prompt_prefill) \<times> tiers" where
  "milestones ev prompt session plan t =
     tbind (if pf_boundary plan = Some (pf_done plan)
            then reach_boundary ev (take (pf_done plan) prompt) session plan t else (Inr plan, t)) (\<lambda>plan1 t1.
       if pf_done plan1 = pf_penultimate plan1 \<and> \<not> pf_penultimate_reached plan1
       then reach_penultimate ev (take (pf_done plan1) prompt) plan1 t1 else (Inr plan1, t1))"

type_synonym pass = "nat \<Rightarrow> nat \<Rightarrow> nat \<times> engine_error option"

definition prefill_segment :: "pass \<Rightarrow> u32 list \<Rightarrow> tiers \<Rightarrow> nat \<times> engine_error option \<times> tiers" where
  "prefill_segment pass tokens t =
     (case pass (dv_position (t_device t)) (length tokens) of
        (n, err) \<Rightarrow>
          let n1 = min n (length tokens)
          in (n1, err, set_device (prefill_blocks (take n1 tokens) (t_device t)) t))"

lemma reach_boundary_done:
  "reach_boundary ev tokens session plan t = (Inr plan', t') \<Longrightarrow>
   pf_done plan' = pf_done plan \<and> pf_penultimate plan' = pf_penultimate plan \<and>
   pf_penultimate_reached plan' = pf_penultimate_reached plan \<and> pf_boundary plan' = None \<and>
   pf_checkpoint_penultimate plan' = pf_checkpoint_penultimate plan \<and> pf_reused plan' = pf_reused plan"
  by (auto simp: reach_boundary_def tbind_Inr split: if_splits)

lemma reach_penultimate_done:
  "reach_penultimate ev tokens plan t = (Inr plan', t') \<Longrightarrow>
   pf_done plan' = pf_done plan \<and> pf_penultimate plan' = pf_penultimate plan \<and>
   pf_penultimate_reached plan' \<and> pf_boundary plan' = pf_boundary plan \<and>
   pf_checkpoint_penultimate plan' = pf_checkpoint_penultimate plan \<and> pf_reused plan' = pf_reused plan"
  by (auto simp: reach_penultimate_def tbind_Inr)

lemma milestones_done:
  assumes "milestones ev prompt session plan t = (Inr plan', t')"
  shows "pf_done plan' = pf_done plan" "pf_penultimate plan' = pf_penultimate plan"
    "pf_checkpoint_penultimate plan' = pf_checkpoint_penultimate plan" "pf_reused plan' = pf_reused plan"
  using assms
  by (auto simp: milestones_def tbind_Inr dest!: reach_boundary_done reach_penultimate_done split: if_splits)

lemma pf_target_gt: "pf_done plan < n \<Longrightarrow> pf_done plan < pf_target plan n"
  by (auto simp: pf_target_def split: option.splits)

lemma advance_measure:
  assumes "\<not> length prompt < pf_done plan" "(Inr plan1, t1) = milestones ev prompt session plan t"
    "pf_done plan1 \<noteq> length prompt" "budget \<noteq> 0"
    "\<not> pf_done plan1 + n < min (pf_target plan1 (length prompt)) (pf_done plan1 + budget)"
  shows "length prompt - pf_done (pf_advance n plan1) < length prompt - pf_done plan"
  using assms milestones_done(1) [OF assms(2) [symmetric]] pf_target_gt [of plan1 "length prompt"]
  by (cases n) (auto simp: pf_advance_def)

text \<open>A position past the prompt would be a slice out of range, which panics.\<close>

function advance_prompt ::
  "env \<Rightarrow> pass \<Rightarrow> u32 list \<Rightarrow> string option \<Rightarrow> prompt_prefill \<Rightarrow> nat \<Rightarrow> tiers
   \<Rightarrow> (engine_error + bool) \<times> prompt_prefill \<times> tiers" where
  "advance_prompt ev pass prompt session plan budget t =
     (if length prompt < pf_done plan then (Inl EngineError, plan, t)
      else
        case milestones ev prompt session plan t of
          (Inl e, t1) \<Rightarrow> (Inl e, plan, t1)
        | (Inr plan1, t1) \<Rightarrow>
            if pf_done plan1 = length prompt then
              (case finish_prompt ev prompt (pf_checkpoint_penultimate plan1) t1 of
                 (Inl e, t2) \<Rightarrow> (Inl e, plan1, t2)
               | (Inr _, t2) \<Rightarrow> (Inr True, plan1, t2))
            else if budget = 0 then (Inr False, plan1, t1)
            else
              let end = min (pf_target plan1 (length prompt)) (pf_done plan1 + budget) in
              (case prefill_segment pass (take (end - pf_done plan1) (drop (pf_done plan1) prompt)) t1 of
                 (n, Some e, t2) \<Rightarrow> (Inl e, plan1, t2)
               | (n, None, t2) \<Rightarrow>
                   if pf_done plan1 + n < end then (Inr False, pf_advance n plan1, t2)
                   else advance_prompt ev pass prompt session (pf_advance n plan1) (budget - n) t2))"
  by pat_completeness auto
termination
  by (relation "measure (\<lambda>(_, _, prompt, _, plan, _, _). length prompt - pf_done plan)")
    (simp, simp only: in_measure case_prod_conv, rule advance_measure, simp_all)

declare advance_prompt.simps [simp del]

section \<open>What the operations keep\<close>

definition handed_sound :: "tiers \<Rightarrow> bool" where
  "handed_sound t \<longleftrightarrow> (\<forall>(ts, s)\<in>set (t_handed t). faithful ts s)"

text \<open>The part of the invariant that does not depend on the live rows.\<close>

definition books :: "tiers \<Rightarrow> bool" where
  "books t \<longleftrightarrow> checkpoints_named t \<and> sessions_sound t \<and> handed_sound t"

text \<open>The resident buffers and the GPU tier are as they were.\<close>

definition same_gpu :: "tiers \<Rightarrow> tiers \<Rightarrow> bool" where
  "same_gpu t t' \<longleftrightarrow> t_device t' = t_device t \<and> t_checkpoints t' = t_checkpoints t \<and>
     t_cached_tokens t' = t_cached_tokens t \<and> t_cache_state t' = t_cache_state t \<and>
     t_max_checkpoints t' = t_max_checkpoints t"

lemma same_gpu_refl [simp]: "same_gpu t t"
  by (simp add: same_gpu_def)

lemma same_gpu_trans: "same_gpu t t1 \<Longrightarrow> same_gpu t1 t2 \<Longrightarrow> same_gpu t t2"
  by (simp add: same_gpu_def)

lemma host_trim_set: "set (host_trim session ss) \<subseteq> set ss"
proof (induction session ss rule: host_trim.induct)
  case (1 session ss)
  show ?case
  proof (cases "length ss > MAX_HOST_PROMPT_SNAPSHOTS")
    case True
    then show ?thesis
      using 1 [OF True refl] set_vec_remove
      by (subst host_trim.simps) (auto simp: Let_def dest!: subsetD [OF set_vec_remove])
  qed (simp add: host_trim.simps)
qed

lemma host_trim_bound: "length (host_trim session ss) \<le> MAX_HOST_PROMPT_SNAPSHOTS"
proof (induction session ss rule: host_trim.induct)
  case (1 session ss)
  show ?case
  proof (cases "length ss > MAX_HOST_PROMPT_SNAPSHOTS")
    case True
    then show ?thesis using 1 [OF True refl] by (subst host_trim.simps) (simp add: Let_def)
  qed (simp add: host_trim.simps)
qed

text \<open>What \<open>save_session_snapshot\<close> changes: the host tier gains at most the snapshot, which may also
  be handed to the writer.\<close>

definition session_saved :: "u32 list \<Rightarrow> snapshot \<Rightarrow> tiers \<Rightarrow> tiers \<Rightarrow> bool" where
  "session_saved tokens s t t' \<longleftrightarrow>
     same_gpu t t' \<and> t_disk t' = t_disk t \<and>
     (\<forall>e\<in>set (t_sessions t'). e \<in> set (t_sessions t) \<or> ss_tokens e = tokens \<and> ss_state e = s) \<and>
     (\<forall>h\<in>set (t_handed t'). h \<in> set (t_handed t) \<or> h = (tokens, s)) \<and>
     length (t_sessions t') \<le> max (length (t_sessions t)) MAX_HOST_PROMPT_SNAPSHOTS"

lemma session_saved_refl [simp]: "session_saved tokens s t t"
  by (simp add: session_saved_def)

lemma session_saved_trans:
  "session_saved tokens s t t1 \<Longrightarrow> session_saved tokens s t1 t2 \<Longrightarrow> session_saved tokens s t t2"
  by (fastforce simp: session_saved_def same_gpu_def)

lemma session_forget:
  "session_saved tokens s t (t\<lparr>t_sessions := filter (\<lambda>e. ss_tokens e \<noteq> tokens) (t_sessions t)\<rparr>)"
  by (auto simp: session_saved_def same_gpu_def intro: le_max_iff_disj [THEN iffD2])

lemma save_to_host_saved:
  "save_to_host_tier ev tokens session s boundary t = (r, t') \<Longrightarrow> session_saved tokens s t t'"
  using host_trim_set [of session "t_sessions t @ [\<lparr>ss_tokens = tokens, ss_session = session, ss_state = s, ss_boundary = boundary\<rparr>]"]
    host_trim_bound [of session "t_sessions t @ [\<lparr>ss_tokens = tokens, ss_session = session, ss_state = s, ss_boundary = boundary\<rparr>]"]
  by (force simp: save_to_host_tier_def push_host_snapshot_def session_saved_def same_gpu_def split: if_splits)

lemma hand_to_writer_saved:
  "hand_to_writer ev tokens session s boundary t = (r, t') \<Longrightarrow> session_saved tokens s t t'"
  by (auto simp: hand_to_writer_def session_saved_def same_gpu_def Let_def split: option.splits sum.splits)

lemma save_session_saved:
  assumes "save_session_snapshot ev tokens session st to_disk boundary t = (r, t')"
    and "st = Some s \<or> (st = None \<and> s = prompt_snapshot (ev_section_bytes ev) (t_device t))"
  shows "session_saved tokens s t t'"
proof -
  have state: "(case st of Some s \<Rightarrow> (Inr s, t) | None \<Rightarrow> read_snapshot ev t) = (Inr s, t) \<or>
      (case st of Some s \<Rightarrow> (Inr s, t) | None \<Rightarrow> read_snapshot ev t) = (Inl EngineError, t)"
    using assms(2) by (cases "ev_snapshot_ok ev") (auto simp: read_snapshot_def)
  define t1 where "t1 = t\<lparr>t_sessions := filter (\<lambda>e. ss_tokens e \<noteq> tokens) (t_sessions t)\<rparr>"
  have t1: "session_saved tokens s t t1" unfolding t1_def by (rule session_forget)
  have host: "session_saved tokens s t t2"
    if "(if b then save_to_host_tier ev tokens session s boundary t1 else (Inr (), t1)) = (r2, t2)" for b r2 t2
    using that t1 save_to_host_saved session_saved_trans by (fastforce split: if_splits)
  have both: "session_saved tokens s t t''"
    if "tbind (if b then save_to_host_tier ev tokens session s boundary t1 else (Inr (), t1))
         (\<lambda>_ t2. if b' then hand_to_writer ev tokens session s boundary t2 else (Inr (), t2)) = (r2, t'')" for b b' r2 t''
    using that host hand_to_writer_saved session_saved_trans
    by (fastforce simp: tbind_def split: prod.splits sum.splits if_splits)
  show ?thesis
    using assms(1) state both [of True True r t'] both [of False True r t'] both [of True False r t']
    by (cases "to_disk \<and> 0 < t_disk_bytes t \<and> (\<exists>y. t_cache_dir t = Some y)")
      (auto simp: save_session_snapshot_def t1_def [symmetric] Let_def split: if_splits)
qed

lemma save_session_books:
  assumes "save_session_snapshot ev tokens session st to_disk boundary t = (r, t')"
    and "st = Some s \<or> (st = None \<and> s = prompt_snapshot (ev_section_bytes ev) (t_device t))"
    and "faithful tokens s" "books t"
  shows "books t'" "same_gpu t t'"
  using save_session_saved [OF assms(1,2)] assms(3,4)
  by (fastforce simp: session_saved_def same_gpu_def books_def checkpoints_named_def sessions_sound_def handed_sound_def)+

lemma books_writer [simp]: "books (t\<lparr>t_writer := w\<rparr>) = books t"
  by (simp add: books_def checkpoints_named_def sessions_sound_def handed_sound_def)

lemma disk_would_keep_frame:
  assumes "disk_would_keep ev tokens boundary t = (ok, t')"
  shows "same_gpu t t'" "books t \<Longrightarrow> books t'"
proof -
  have "\<exists>w. t' = t\<lparr>t_writer := w\<rparr>"
    using assms
    by (auto simp: disk_would_keep_def writer_within_budget_def
        split: if_splits option.splits prod.splits bool.splits) (metis tiers.surjective tiers.update_convs(7))+
  then show "same_gpu t t'" "books t \<Longrightarrow> books t'" by (auto simp: same_gpu_def)
qed

lemma any_would_keep_frame:
  assumes "any_would_keep ev tokens boundary t = (ok, t')"
  shows "same_gpu t t'" "books t \<Longrightarrow> books t'"
  using assms disk_would_keep_frame [of ev tokens boundary t ok t']
  by (auto simp: any_would_keep_def split: if_splits)

lemma claim_frame:
  "t_device (claim_gpu_cache t) = t_device t" "books t \<Longrightarrow> books (claim_gpu_cache t)"
  "t_cache_state (claim_gpu_cache t) = dv_id (t_device t)"
  "t_max_checkpoints (claim_gpu_cache t) = t_max_checkpoints t"
  by (auto simp: claim_gpu_cache_def books_def checkpoints_named_def sessions_sound_def handed_sound_def)

text \<open>A saved checkpoint stands for the resident sequence, the others are some of those before.\<close>

lemma save_checkpoint_frame:
  assumes "save_prompt_checkpoint ev tokens boundary t = (r, t')" "dv_seq (t_device t) = tokens"
  shows "t_device t' = t_device t" "books t \<Longrightarrow> books t'" "t_cache_state t' = t_cache_state t"
    "t_cached_tokens t' = t_cached_tokens t" "t_max_checkpoints t' = t_max_checkpoints t"
    "\<And>c. c \<in> set (t_checkpoints t') \<Longrightarrow>
       c \<in> set (t_checkpoints t) \<or> cc_tokens c = tokens \<and> ck_seq (cc_state c) = tokens"
proof -
  have only: "t' = t\<lparr>t_checkpoints := t_checkpoints t'\<rparr>"
    using assms by (auto simp: save_prompt_checkpoint_def Let_def split: if_splits)
  have set: "c \<in> set (t_checkpoints t) \<or> cc_tokens c = tokens \<and> ck_seq (cc_state c) = tokens"
    if "c \<in> set (t_checkpoints t')" for c
    using assms that
    by (auto simp: save_prompt_checkpoint_def copy_checkpoint_def Let_def dest!: vec_remove_in split: if_splits)
  from only have "t_device t' = t_device t \<and> t_cache_state t' = t_cache_state t \<and>
      t_cached_tokens t' = t_cached_tokens t \<and> t_max_checkpoints t' = t_max_checkpoints t \<and>
      t_sessions t' = t_sessions t \<and> t_handed t' = t_handed t"
    by (metis tiers.select_convs tiers.surjective tiers.update_convs(3))
  note cps = this set
  then show "t_device t' = t_device t" "t_cache_state t' = t_cache_state t"
    "t_cached_tokens t' = t_cached_tokens t" "t_max_checkpoints t' = t_max_checkpoints t"
    "\<And>c. c \<in> set (t_checkpoints t') \<Longrightarrow>
       c \<in> set (t_checkpoints t) \<or> cc_tokens c = tokens \<and> ck_seq (cc_state c) = tokens"
    by auto
  show "books t \<Longrightarrow> books t'"
    using cps by (fastforce simp: books_def checkpoints_named_def sessions_sound_def handed_sound_def)
qed

text \<open>The prefill's invariant: the resident set holds the prompt up to \<open>pf_done\<close>, and a pinned
  checkpoint stands for the prompt without its last token.\<close>

definition prefilling :: "u32 list \<Rightarrow> prompt_prefill \<Rightarrow> tiers \<Rightarrow> bool" where
  "prefilling prompt plan t \<longleftrightarrow>
     prompt \<noteq> [] \<and> pf_done plan \<le> length prompt \<and> pf_penultimate plan = length prompt - 1 \<and>
     coherent (t_device t) \<and> dv_seq (t_device t) = take (pf_done plan) prompt \<and> books t \<and>
     (\<forall>c. pf_snapshot plan = Some c \<longrightarrow> ck_seq c = take (length prompt - 1) prompt)"

lemma persist_boundary_frame:
  assumes "persist_boundary ev tokens session t = (r, t')" "coherent (t_device t)" "dv_seq (t_device t) = tokens" "books t"
  shows "same_gpu t t'" "books t'"
proof -
  obtain ok t1 where keep: "any_would_keep ev tokens True t = (ok, t1)" by fastforce
  have t1: "same_gpu t t1" "books t1" using any_would_keep_frame [OF keep] assms(4) by auto
  have dev: "t_device t1 = t_device t" using t1(1) by (simp add: same_gpu_def)
  define s where "s = prompt_snapshot (ev_section_bytes ev) (t_device t1)"
  have s: "faithful tokens s" using faithful_prompt_snapshot [OF assms(2)] assms(3) dev by (simp add: s_def)
  consider "t' = t1" | r2 where "save_session_snapshot ev tokens session (Some s) True True t1 = (r2, t')"
    using assms(1) keep
    by (auto simp: persist_boundary_def read_snapshot_def s_def split: bool.splits if_splits)
  then have "same_gpu t1 t' \<and> books t'"
    using save_session_books [of ev tokens session "Some s" True True t1 _ t' s] s t1(2) by cases auto
  then show "same_gpu t t'" "books t'" using same_gpu_trans [OF t1(1)] by auto
qed

section \<open>Prefilling keeps its invariant\<close>

text \<open>An operation of the prefill that leaves the device alone.\<close>

definition keeps_device :: "tiers \<Rightarrow> tiers \<Rightarrow> bool" where
  "keeps_device t t' \<longleftrightarrow> t_device t' = t_device t \<and> (books t \<longrightarrow> books t')"

lemma keeps_device_trans: "keeps_device t t1 \<Longrightarrow> keeps_device t1 t2 \<Longrightarrow> keeps_device t t2"
  by (simp add: keeps_device_def)

lemma same_gpu_keeps: "same_gpu t t' \<Longrightarrow> (books t \<Longrightarrow> books t') \<Longrightarrow> keeps_device t t'"
  by (simp add: keeps_device_def same_gpu_def)

lemma reach_boundary_keeps:
  assumes "reach_boundary ev (dv_seq (t_device t)) session plan t = (Inr plan', t')"
    and "coherent (t_device t)" "books t"
  shows "keeps_device t t'" "pf_snapshot plan' = pf_snapshot plan"
proof -
  obtain t1 where save: "save_prompt_checkpoint ev (dv_seq (t_device t)) True (claim_gpu_cache t) = (Inr (), t1)"
    and rest: "(if caches_snapshots t1
       then tbind (persist_boundary ev (dv_seq (t_device t)) session t1) (\<lambda>_ t2.
              (Inr (plan\<lparr>pf_boundary := None, pf_persisted := True\<rparr>), t2))
       else (Inr (plan\<lparr>pf_boundary := None\<rparr>), t1)) = (Inr plan', t')"
    using assms(1) by (auto simp: reach_boundary_def tbind_Inr)
  have t1: "t_device t1 = t_device t" "books t1"
    using save_checkpoint_frame(1,2) [OF save] claim_frame(1) [of t] claim_frame(2) [OF assms(3)] by auto
  show "pf_snapshot plan' = pf_snapshot plan" using rest by (auto simp: tbind_Inr split: if_splits)
  show "keeps_device t t'"
  proof (cases "caches_snapshots t1")
    case True
    then have "persist_boundary ev (dv_seq (t_device t)) session t1 = (Inr (), t')"
      using rest by (auto simp: tbind_Inr)
    from persist_boundary_frame [OF this] t1 assms(2) show ?thesis by (simp add: keeps_device_def same_gpu_def)
  next
    case False
    then show ?thesis using rest t1 by (simp add: keeps_device_def)
  qed
qed

lemma reach_penultimate_keeps:
  assumes "reach_penultimate ev (dv_seq (t_device t)) plan t = (Inr plan', t')" "books t"
  shows "keeps_device t t'"
    "pf_snapshot plan' = pf_snapshot plan \<or> pf_snapshot plan' = Some (copy_checkpoint (t_device t))"
proof -
  obtain t1 pinned where ck: "checkpoint_penultimate ev (dv_seq (t_device t)) plan t = (Inr (), t1)"
    and pin: "pin_penultimate ev (dv_seq (t_device t)) plan t1 = (Inr pinned, t')"
    and plan': "pf_snapshot plan' = (case pinned of Some c \<Rightarrow> Some c | None \<Rightarrow> pf_snapshot plan)"
    using assms(1) by (auto simp: reach_penultimate_def tbind_Inr)
  have claimed: "books ((claim_gpu_cache t)\<lparr>t_cached_tokens := dv_seq (t_device t)\<rparr>)"
    using claim_frame(2) [OF assms(2)]
    by (simp add: books_def checkpoints_named_def sessions_sound_def handed_sound_def)
  have "dv_seq (t_device ((claim_gpu_cache t)\<lparr>t_cached_tokens := dv_seq (t_device t)\<rparr>)) = dv_seq (t_device t)"
    by (simp add: claim_frame(1))
  then have t1: "t_device t1 = t_device t \<and> books t1"
  proof (cases "pf_checkpoint_penultimate plan \<and> t_max_checkpoints t > 0")
    case True
    then have "save_prompt_checkpoint ev (dv_seq (t_device t)) False
        ((claim_gpu_cache t)\<lparr>t_cached_tokens := dv_seq (t_device t)\<rparr>) = (Inr (), t1)"
      using ck by (simp add: checkpoint_penultimate_def)
    from save_checkpoint_frame(1,2) [OF this] claim_frame(1) [of t] claimed show ?thesis by simp
  next
    case False
    then have "t1 = t" using ck by (auto simp: checkpoint_penultimate_def split: if_splits)
    then show ?thesis using assms(2) by simp
  qed
  have frame: "t_device t2 = t_device t1 \<and> books t2"
    if "any_would_keep ev (dv_seq (t_device t)) False t1 = (ok, t2)" for ok t2
    using any_would_keep_frame [OF that] t1 by (simp add: same_gpu_def)
  obtain ok t2 where keep: "any_would_keep ev (dv_seq (t_device t)) False t1 = (ok, t2)" by fastforce
  have "(t' = t1 \<or> t' = t2) \<and> (pinned = None \<or> pinned = Some (copy_checkpoint (t_device t2)))"
    using pin keep
    by (cases ok) (auto simp: pin_penultimate_def pinned_prompt_checkpoint_def Let_def split: if_splits)
  then have "(t_device t' = t_device t1 \<and> books t') \<and> (pinned = None \<or> pinned = Some (copy_checkpoint (t_device t1)))"
    using frame [OF keep] t1 by metis
  then show "keeps_device t t'"
    "pf_snapshot plan' = pf_snapshot plan \<or> pf_snapshot plan' = Some (copy_checkpoint (t_device t))"
    using t1 plan' by (auto simp: keeps_device_def)
qed

lemma milestones_prefilling:
  assumes "milestones ev prompt session plan t = (Inr plan', t')" "prefilling prompt plan t"
  shows "prefilling prompt plan' t'" "t_device t' = t_device t"
proof -
  have seq: "dv_seq (t_device t) = take (pf_done plan) prompt" and inv: "coherent (t_device t)" "books t"
    using assms(2) by (auto simp: prefilling_def)
  obtain plan1 t1 where
    a: "(if pf_boundary plan = Some (pf_done plan)
         then reach_boundary ev (take (pf_done plan) prompt) session plan t else (Inr plan, t)) = (Inr plan1, t1)"
    and b: "(if pf_done plan1 = pf_penultimate plan1 \<and> \<not> pf_penultimate_reached plan1
       then reach_penultimate ev (take (pf_done plan1) prompt) plan1 t1 else (Inr plan1, t1)) = (Inr plan', t')"
    using assms(1) by (auto simp: milestones_def tbind_Inr)
  have p1: "prefilling prompt plan1 t1 \<and> t_device t1 = t_device t"
  proof (cases "pf_boundary plan = Some (pf_done plan)")
    case True
    then have run: "reach_boundary ev (dv_seq (t_device t)) session plan t = (Inr plan1, t1)"
      using a seq by simp
    show ?thesis
      using reach_boundary_keeps [OF run inv] reach_boundary_done [OF run] assms(2) inv
      by (simp add: prefilling_def keeps_device_def)
  qed (use a assms(2) in auto)
  then have seq1: "dv_seq (t_device t1) = take (pf_done plan1) prompt" "books t1"
    and pen1: "pf_penultimate plan1 = length prompt - 1"
    by (auto simp: prefilling_def)
  have "prefilling prompt plan' t' \<and> t_device t' = t_device t1"
  proof (cases "pf_done plan1 = pf_penultimate plan1 \<and> \<not> pf_penultimate_reached plan1")
    case True
    then have run: "reach_penultimate ev (dv_seq (t_device t1)) plan1 t1 = (Inr plan', t')"
      using b seq1 by simp
    have "ck_seq c = take (length prompt - 1) prompt" if "pf_snapshot plan' = Some c" for c
      using reach_penultimate_keeps(2) [OF run seq1(2)] that p1 True pen1 seq1(1)
      unfolding prefilling_def by (auto simp: copy_checkpoint_def)
    then show ?thesis
      using reach_penultimate_keeps(1) [OF run seq1(2)] reach_penultimate_done [OF run] p1 seq1(2)
      unfolding prefilling_def keeps_device_def by metis
  qed (use b p1 in auto)
  then show "prefilling prompt plan' t'" "t_device t' = t_device t" using p1 by auto
qed

text \<open>The end of the prompt makes the GPU tier describe the resident set again.\<close>

lemma finish_prompt_sound:
  assumes "finish_prompt ev prompt pen t = (Inr (), t')" "coherent (t_device t)" "dv_seq (t_device t) = prompt" "books t"
  shows "sound t'" "handed_sound t'" "t_device t' = t_device t" "t_cached_tokens t' = prompt"
    "t_cache_state t' = dv_id (t_device t)" "\<And>c. c \<in> set (t_checkpoints t') \<Longrightarrow> prefix (cc_tokens c) prompt"
proof -
  define t1 where "t1 = (claim_gpu_cache t)\<lparr>t_cached_tokens := prompt,
      t_checkpoints := filter (\<lambda>c. length (cc_tokens c) \<le> length prompt \<and>
                                   cc_tokens c = take (length (cc_tokens c)) prompt) (t_checkpoints (claim_gpu_cache t))\<rparr>"
  have t1: "t_device t1 = t_device t" "t_cache_state t1 = dv_id (t_device t)" "t_cached_tokens t1 = prompt"
    by (simp_all add: t1_def claim_frame)
  have "books t1"
    using claim_frame(2) [OF assms(4)]
    by (simp add: t1_def books_def checkpoints_named_def sessions_sound_def handed_sound_def)
  have pre1: "prefix (cc_tokens c) prompt" if "c \<in> set (t_checkpoints t1)" for c
    using that take_is_prefix [of "length (cc_tokens c)" prompt] by (simp add: t1_def)
  have save: "(if pen then (Inr (), t1) else save_prompt_checkpoint ev prompt False t1) = (Inr (), t')"
    using assms(1) unfolding finish_prompt_def t1_def Let_def .
  then have dev: "t_device t' = t_device t \<and> books t' \<and> t_cached_tokens t' = prompt \<and>
      t_cache_state t' = dv_id (t_device t) \<and> (\<forall>c\<in>set (t_checkpoints t'). prefix (cc_tokens c) prompt)"
  proof (cases pen)
    case False
    then have run: "save_prompt_checkpoint ev prompt False t1 = (Inr (), t')" using save by simp
    have "prefix (cc_tokens c) prompt" if "c \<in> set (t_checkpoints t')" for c
      using save_checkpoint_frame(6) [OF run _ that] pre1 t1(1) assms(3) by auto
    then show ?thesis
      using save_checkpoint_frame(1-4) [OF run] t1 \<open>books t1\<close> assms(3) by simp
  qed (use save t1 \<open>books t1\<close> pre1 in auto)
  then show "t_device t' = t_device t" "handed_sound t'" "t_cached_tokens t' = prompt"
    "t_cache_state t' = dv_id (t_device t)" "\<And>c. c \<in> set (t_checkpoints t') \<Longrightarrow> prefix (cc_tokens c) prompt"
    by (auto simp: books_def)
  show "sound t'"
    using dev assms(2,3) rows_of_prefix [of "dv_rows (t_device t)" prompt]
    by (auto simp: sound_def books_def rows_sound_def coherent_def)
qed

section \<open>Whole prompts\<close>

definition completed :: "u32 list \<Rightarrow> tiers \<Rightarrow> bool" where
  "completed prompt t \<longleftrightarrow>
     coherent (t_device t) \<and> dv_seq (t_device t) = prompt \<and> sound t \<and> handed_sound t \<and>
     t_cached_tokens t = prompt \<and> t_cache_state t = dv_id (t_device t) \<and>
     (\<forall>c\<in>set (t_checkpoints t). prefix (cc_tokens c) prompt)"

lemma books_device [simp]: "books (set_device d t) = books t"
  by (simp add: books_def checkpoints_named_def sessions_sound_def handed_sound_def)

lemma prefill_segment_prefilling:
  assumes "prefill_segment pass (take k (drop (pf_done plan) prompt)) t = (n, err, t')"
    and "prefilling prompt plan t" "pf_done plan + k \<le> length prompt"
  shows "prefilling prompt (pf_advance n plan) t'" "n \<le> k"
proof -
  define ts where "ts = take k (drop (pf_done plan) prompt)"
  have t': "t' = set_device (prefill_blocks (take n ts) (t_device t)) t" and n: "n \<le> length ts"
    using assms(1) by (auto simp: prefill_segment_def ts_def Let_def min_def split: prod.splits if_splits)
  show nk: "n \<le> k" using n by (simp add: ts_def)
  have "take (pf_done plan) prompt @ take n ts = take (pf_done plan + n) prompt"
    using nk by (simp add: ts_def take_add)
  then show "prefilling prompt (pf_advance n plan) t'"
    using assms(2,3) nk coherent_prefill [of "t_device t" "take n ts"]
    by (auto simp: prefilling_def pf_advance_def t')
qed

text \<open>The boundary of a plan lies before the prompt's end, and keeps doing so.\<close>

definition boundary_inside :: "u32 list \<Rightarrow> prompt_prefill \<Rightarrow> bool" where
  "boundary_inside prompt plan \<longleftrightarrow> (\<forall>b. pf_boundary plan = Some b \<longrightarrow> b < length prompt)"

lemma pf_target_le: "prefilling prompt plan t \<Longrightarrow> boundary_inside prompt plan \<Longrightarrow> pf_target plan (length prompt) \<le> length prompt"
  by (auto simp: pf_target_def prefilling_def boundary_inside_def split: option.splits intro: less_imp_le)

lemma milestones_boundary:
  assumes "milestones ev prompt session plan t = (Inr plan', t')" "boundary_inside prompt plan"
  shows "boundary_inside prompt plan'"
  using assms
  by (auto simp: milestones_def tbind_Inr boundary_inside_def
      dest!: reach_boundary_done reach_penultimate_done split: if_splits)

text \<open>The three ways a round of the loop goes once its milestones are reached.\<close>

lemma advance_stop:
  assumes "pf_done plan \<le> length prompt" "milestones ev prompt session plan t = (Inr plan1, t1)"
  shows "pf_done plan1 = length prompt \<Longrightarrow> advance_prompt ev pass prompt session plan budget t =
      (case finish_prompt ev prompt (pf_checkpoint_penultimate plan1) t1 of
         (Inl e, t2) \<Rightarrow> (Inl e, plan1, t2) | (Inr _, t2) \<Rightarrow> (Inr True, plan1, t2))"
    and "pf_done plan1 \<noteq> length prompt \<Longrightarrow> advance_prompt ev pass prompt session plan 0 t = (Inr False, plan1, t1)"
  using assms by (simp_all add: advance_prompt.simps [of ev pass prompt session plan])

lemma advance_segment:
  assumes "pf_done plan \<le> length prompt" "milestones ev prompt session plan t = (Inr plan1, t1)"
    and "pf_done plan1 \<noteq> length prompt" "budget \<noteq> 0"
    and "e = min (pf_target plan1 (length prompt)) (pf_done plan1 + budget)"
    and "prefill_segment pass (take (e - pf_done plan1) (drop (pf_done plan1) prompt)) t1 = (n, err, t2)"
  shows "advance_prompt ev pass prompt session plan budget t =
      (case err of
         Some x \<Rightarrow> (Inl x, plan1, t2)
       | None \<Rightarrow> if pf_done plan1 + n < e then (Inr False, pf_advance n plan1, t2)
                 else advance_prompt ev pass prompt session (pf_advance n plan1) (budget - n) t2)"
proof -
  have "\<not> length prompt < pf_done plan" using assms(1) by simp
  then show ?thesis
    unfolding advance_prompt.simps [of ev pass prompt session plan budget t] assms(2) prod.case sum.case Let_def
      assms(5) [symmetric] assms(6)
    using assms(3,4) by (cases err) simp_all
qed

text \<open>The rounds of a prefill: what holds wherever a round can end, and across a segment, holds of the
  whole call.\<close>

lemma advance_rounds [consumes 3, case_names failed finish spent broke short go]:
  assumes "advance_prompt ev pass prompt session plan budget t = (r, plan', t')"
    and "prefilling prompt plan t" "boundary_inside prompt plan"
    and failed: "\<And>plan t er t1. prefilling prompt plan t \<Longrightarrow>
      milestones ev prompt session plan t = (Inl er, t1) \<Longrightarrow> P plan t (Inl er) plan t1"
    and finish: "\<And>plan t plan1 t1 u t2. prefilling prompt plan t \<Longrightarrow>
      milestones ev prompt session plan t = (Inr plan1, t1) \<Longrightarrow> prefilling prompt plan1 t1 \<Longrightarrow>
      pf_done plan1 = length prompt \<Longrightarrow>
      finish_prompt ev prompt (pf_checkpoint_penultimate plan1) t1 = (u, t2) \<Longrightarrow>
      P plan t (map_sum id (\<lambda>_. True) u) plan1 t2"
    and spent: "\<And>plan t plan1 t1. prefilling prompt plan t \<Longrightarrow>
      milestones ev prompt session plan t = (Inr plan1, t1) \<Longrightarrow> prefilling prompt plan1 t1 \<Longrightarrow>
      boundary_inside prompt plan1 \<Longrightarrow> P plan t (Inr False) plan1 t1"
    and broke: "\<And>plan t plan1 t1 ids n x t2. prefilling prompt plan t \<Longrightarrow>
      milestones ev prompt session plan t = (Inr plan1, t1) \<Longrightarrow>
      prefill_segment pass ids t1 = (n, Some x, t2) \<Longrightarrow> P plan t (Inl x) plan1 t2"
    and short: "\<And>plan t plan1 t1 ids n t2. prefilling prompt plan t \<Longrightarrow>
      milestones ev prompt session plan t = (Inr plan1, t1) \<Longrightarrow>
      prefill_segment pass ids t1 = (n, None, t2) \<Longrightarrow> prefilling prompt (pf_advance n plan1) t2 \<Longrightarrow>
      boundary_inside prompt (pf_advance n plan1) \<Longrightarrow> P plan t (Inr False) (pf_advance n plan1) t2"
    and go: "\<And>plan t plan1 t1 ids n t2 r plan' t'. prefilling prompt plan t \<Longrightarrow>
      milestones ev prompt session plan t = (Inr plan1, t1) \<Longrightarrow>
      prefill_segment pass ids t1 = (n, None, t2) \<Longrightarrow> P (pf_advance n plan1) t2 r plan' t' \<Longrightarrow> P plan t r plan' t'"
  shows "P plan t r plan' t'"
  using assms(1-3)
proof (induction "length prompt - pf_done plan" arbitrary: plan budget t rule: less_induct)
  case less
  have le: "pf_done plan \<le> length prompt" using less(3) by (simp add: prefilling_def)
  obtain m t1 where ms: "milestones ev prompt session plan t = (m, t1)" by fastforce
  show ?case
  proof (cases m)
    case (Inl er)
    then show ?thesis
      using less(2) failed [OF less(3)] ms le by (simp add: advance_prompt.simps [of ev pass prompt session plan])
  next
    case (Inr plan1)
    note ms = ms [unfolded Inr]
    have inv: "prefilling prompt plan1 t1" "boundary_inside prompt plan1"
      using milestones_prefilling(1) [OF ms less(3)] milestones_boundary [OF ms less(4)] by auto
    consider (ended) "pf_done plan1 = length prompt" | (over) "pf_done plan1 \<noteq> length prompt" "budget = 0"
      | (round) "pf_done plan1 \<noteq> length prompt" "budget \<noteq> 0" by blast
    then show ?thesis
    proof cases
      case ended
      obtain u t2 where f: "finish_prompt ev prompt (pf_checkpoint_penultimate plan1) t1 = (u, t2)" by fastforce
      show ?thesis using finish [OF less(3) ms inv(1) ended f] less(2) unfolding advance_stop(1) [OF le ms ended] f
        by (cases u) simp_all
    next
      case over
      then show ?thesis using spent [OF less(3) ms inv] less(2) unfolding over(2) advance_stop(2) [OF le ms over(1)] by simp
    next
      case round
      define e where "e = min (pf_target plan1 (length prompt)) (pf_done plan1 + budget)"
      obtain n err t2 where seg: "prefill_segment pass (take (e - pf_done plan1) (drop (pf_done plan1) prompt)) t1 = (n, err, t2)"
        by (metis prod.exhaust)
      note run = less(2) [unfolded advance_segment [OF le ms round e_def seg]]
      have "pf_done plan1 + (e - pf_done plan1) \<le> length prompt"
        using pf_target_le [OF inv] inv(1) by (auto simp: e_def prefilling_def)
      from prefill_segment_prefilling(1) [OF seg inv(1) this]
      have step: "prefilling prompt (pf_advance n plan1) t2" .
      have bnd: "boundary_inside prompt (pf_advance n plan1)"
        using inv(2) by (simp add: boundary_inside_def pf_advance_def)
      have smaller: "length prompt - pf_done (pf_advance n plan1) < length prompt - pf_done plan" if "\<not> pf_done plan1 + n < e"
        by (rule advance_measure [OF _ ms [symmetric] round]) (use le that in \<open>simp_all add: e_def\<close>)
      show ?thesis
      proof (cases err)
        case None
        note seg = seg [unfolded None]
        show ?thesis
          using run None short [OF less(3) ms seg step bnd] go [OF less(3) ms seg less(1) [OF smaller _ step bnd]]
          by (cases "pf_done plan1 + n < e") simp_all
      next
        case (Some x)
        then show ?thesis using run broke [OF less(3) ms seg [unfolded Some]] by simp
      qed
    qed
  qed
qed

lemma advance_outcome:
  assumes "prefilling prompt plan t" "boundary_inside prompt plan"
    and "advance_prompt ev pass prompt session plan budget t = (Inr complete, plan', t')"
  shows "if complete then completed prompt t' \<and> pf_done plan' = length prompt \<and>
           (\<forall>c. pf_snapshot plan' = Some c \<longrightarrow> ck_seq c = take (length prompt - 1) prompt)
         else prefilling prompt plan' t' \<and> boundary_inside prompt plan'"
proof -
  have "case r of Inl _ \<Rightarrow> True
      | Inr True \<Rightarrow> completed prompt t' \<and> pf_done plan' = length prompt \<and>
           (\<forall>c. pf_snapshot plan' = Some c \<longrightarrow> ck_seq c = take (length prompt - 1) prompt)
      | Inr False \<Rightarrow> prefilling prompt plan' t' \<and> boundary_inside prompt plan'"
    if "advance_prompt ev pass prompt session plan budget t = (r, plan', t')" for r
    using that assms(1,2)
  proof (induction rule: advance_rounds)
    case (finish plan t plan1 t1 u t2)
    show ?case
    proof (cases u)
      case (Inr x)
      then have "u = Inr ()" by simp
      note fin = finish(5) [unfolded this]
      have pre: "coherent (t_device t1)" "dv_seq (t_device t1) = prompt" "books t1"
        using finish(3,4) by (auto simp: prefilling_def)
      show ?thesis
        using finish_prompt_sound [OF fin pre] pre(1,2) finish(3,4) Inr
        by (simp add: completed_def prefilling_def)
    qed simp
  qed simp_all
  from this [OF assms(3)] show ?thesis by (cases complete) simp_all
qed

section \<open>From the restored prefix to the end\<close>

lemma disk_would_keep_disk: "disk_would_keep ev tokens boundary t = (ok, t') \<Longrightarrow> t_disk t' = t_disk t"
  by (auto simp: disk_would_keep_def writer_within_budget_def split: if_splits option.splits prod.splits bool.splits)

text \<open>The tiers while the owed checkpoints are written: those passed and those left are sound.\<close>

definition owing :: "cached_checkpoint list \<Rightarrow> tiers \<Rightarrow> bool" where
  "owing cps t \<longleftrightarrow> sessions_sound t \<and> handed_sound t \<and>
     (\<forall>c\<in>set cps. ck_seq (cc_state c) = cc_tokens c \<and> rows_of (dv_rows (t_device t)) (cc_tokens c))"

definition same_resident :: "tiers \<Rightarrow> tiers \<Rightarrow> bool" where
  "same_resident t t' \<longleftrightarrow> t_device t' = t_device t \<and> t_disk t' = t_disk t \<and>
     t_cached_tokens t' = t_cached_tokens t \<and> t_cache_state t' = t_cache_state t"

lemma owing_keep:
  assumes "disk_would_keep ev tokens b (t\<lparr>t_checkpoints := cps\<rparr>) = (ok, t1)" "owing cps t"
  shows "owing cps t1" "same_resident t t1" "t_checkpoints t1 = cps"
proof -
  have "books (t\<lparr>t_checkpoints := cps\<rparr>)"
    using assms(2) by (simp add: owing_def books_def checkpoints_named_def sessions_sound_def handed_sound_def)
  note frame = disk_would_keep_frame(1) [OF assms(1)] disk_would_keep_frame(2) [OF assms(1) this]
    disk_would_keep_disk [OF assms(1)]
  then show "owing cps t1" "same_resident t t1" "t_checkpoints t1 = cps"
    using assms(2) by (simp_all add: owing_def same_resident_def same_gpu_def books_def)
qed

lemma owing_save:
  assumes "save_session_snapshot ev tokens session (Some s) True False t = (r, t')"
    and "owing cps t" "t_checkpoints t = cps" "faithful tokens s"
  shows "owing cps t'" "same_resident t t'" "t_checkpoints t' = cps"
proof -
  have "books t" using assms(2,3) by (simp add: owing_def books_def checkpoints_named_def)
  note frame = save_session_books [OF assms(1) _ assms(4) this] save_session_saved [OF assms(1), of s]
  then show "owing cps t'" "same_resident t t'" "t_checkpoints t' = cps"
    using assms(2,3) by (simp_all add: owing_def same_resident_def same_gpu_def books_def session_saved_def)
qed

lemma same_resident_trans: "same_resident t t1 \<Longrightarrow> same_resident t1 t2 \<Longrightarrow> same_resident t t2"
  by (simp add: same_resident_def)

lemma owing_tail: "owing (before @ c # cs) t \<Longrightarrow> owing (before @ cs) t"
  by (simp add: owing_def)

lemma persist_owed_loop_keeps:
  assumes "persist_owed_loop ev prompt before cs t = (r, t')" "owing (before @ cs) t"
  shows "same_resident t t' \<and> owing (t_checkpoints t') t'"
  using assms
proof (induction ev prompt before cs t rule: persist_owed_loop.induct)
  case (1 ev prompt before t)
  then show ?case by (auto simp: same_resident_def owing_def sessions_sound_def handed_sound_def)
next
  case (2 ev prompt before c cs t)
  note owing = owing_tail [OF 2(6)]
  have c: "ck_seq (cc_state c) = cc_tokens c" "rows_of (dv_rows (t_device t)) (ck_seq (cc_state c))"
    using 2(6) by (simp_all add: owing_def)
  show ?case
  proof (cases "\<not> cc_owed c \<or> prefix (cc_tokens c) prompt")
    case True
    moreover have "owing ((before @ [c\<lparr>cc_owed := False\<rparr>]) @ cs) t" using 2(6) by (simp add: owing_def)
    ultimately show ?thesis using 2(1) 2(5) by simp
  next
    case False
    obtain ok t1 where keep: "disk_would_keep ev (cc_tokens c) False (t\<lparr>t_checkpoints := before @ cs\<rparr>) = (ok, t1)"
      by fastforce
    note t1 = owing_keep [OF keep owing]
    define sn where "sn = (if ev_purged_pinned ev (cc_state c) then None
        else prompt_snapshot_at (ev_section_bytes ev) (cc_state c) (t_device t1))"
    show ?thesis
    proof (cases "ok \<and> sn \<noteq> None")
      case True
      then obtain s where s: "sn = Some s" by blast
      then have "prompt_snapshot_at (ev_section_bytes ev) (cc_state c) (t_device t) = Some s"
        using t1(2) by (auto simp: sn_def same_resident_def split: if_splits)
      then have "faithful (cc_tokens c) s" using faithful_snapshot_at [OF c(2)] c(1) by simp
      moreover obtain r2 t2 where save: "save_session_snapshot ev (cc_tokens c) (cc_session c) (Some s) True False t1 = (r2, t2)"
        by fastforce
      ultimately have t2: "owing (before @ cs) t2" "same_resident t1 t2" "t_checkpoints t2 = before @ cs"
        using owing_save [OF save t1(1,3)] by simp_all
      show ?thesis
      proof (cases r2)
        case (Inl e)
        then have "t' = t2" using 2(5) False True keep s save by (simp add: sn_def)
        then show ?thesis using t1(2) t2 same_resident_trans by simp
      next
        case (Inr u)
        then have run: "persist_owed_loop ev prompt before cs t2 = (r, t')"
          using 2(5) False True keep s save by (simp add: sn_def)
        have "same_resident t2 t' \<and> owing (t_checkpoints t') t'"
          by (rule 2(3) [OF False keep [symmetric] _ s [unfolded sn_def] save [symmetric] Inr run t2(1)])
            (use True in simp_all)
        then show ?thesis using t1(2) t2(2) same_resident_trans by blast
      qed
    next
      case no: False
      then have run: "persist_owed_loop ev prompt before cs t1 = (r, t')"
        using 2(5) False keep by (cases ok) (simp_all add: sn_def)
      have "same_resident t1 t' \<and> owing (t_checkpoints t') t'"
        using 2(4) [OF False keep [symmetric] _ run t1(1)] 2(2) [OF False keep [symmetric] _ _ run t1(1)] no
        by (cases ok) (simp_all add: sn_def)
      then show ?thesis using t1(2) same_resident_trans by blast
    qed
  qed
qed

lemma persist_owed_keeps:
  assumes "persist_owed_checkpoints ev prompt t = (r, t')" "sound t" "handed_sound t"
  shows "sound t'" "handed_sound t'" "t_disk t' = t_disk t"
proof -
  have "sound t' \<and> handed_sound t' \<and> t_disk t' = t_disk t"
  proof (cases "t_cache_state t = dv_id (t_device t)")
    case True
    then have run: "persist_owed_loop ev prompt [] (t_checkpoints t) t = (r, t')"
      using assms(1) by (simp add: persist_owed_checkpoints_def)
    have "owing ([] @ t_checkpoints t) t"
      using assms(2,3) True by (simp add: owing_def sound_def tier_defs)
    from persist_owed_loop_keeps [OF run this] True show ?thesis
      by (auto simp: owing_def same_resident_def sound_def tier_defs)
  qed (use assms in \<open>auto simp: persist_owed_checkpoints_def\<close>)
  then show "sound t'" "handed_sound t'" "t_disk t' = t_disk t" by simp_all
qed

lemma collect_keeps:
  "sound (collect_disk_writes t) = sound t" "handed_sound (collect_disk_writes t) = handed_sound t"
  by (auto simp: collect_disk_writes_def sound_def tier_defs handed_sound_def Let_def split: option.splits prod.splits)

lemma begin_prompt_ready:
  assumes "sound t" "handed_sound t" "files_faithful ev loaded (t_disk (collect_disk_writes t))" "prompt \<noteq> []"
    and "begin_prompt ev eos_ids prompt session loaded t = (Inr (plan, source, load), t')"
  shows "prefilling prompt plan t'" "boundary_inside prompt plan" "pf_done plan = pf_reused plan"
proof -
  obtain t1 where owed: "persist_owed_checkpoints ev prompt (collect_disk_writes t) = (Inr (), t1)"
    and rest: "tbind (restore_reusable_prefix ev prompt (make_reuse_bounds prompt t1) session loaded t1)
      (\<lambda>(reused, source, load) t2. (Inr (plan_prefill eos_ids prompt (make_reuse_bounds prompt t1) reused, source, load), t2))
      = (Inr (plan, source, load), t')"
    using assms(5) by (auto simp: begin_prompt_def tbind_Inr Let_def)
  obtain reused where
    run: "restore_reusable_prefix ev prompt (make_reuse_bounds prompt t1) session loaded t1 = (Inr (reused, source, load), t')"
    and plan: "plan = plan_prefill eos_ids prompt (make_reuse_bounds prompt t1) reused"
    using rest by (auto simp: tbind_Inr)
  have t1: "sound t1" "handed_sound t1" "files_faithful ev loaded (t_disk t1)"
    using persist_owed_keeps [OF owed] assms(1-3) by (simp_all add: collect_keeps)
  note exact = restore_reusable_prefix_exact [OF t1(1,3) run]
  have "books t'"
    using exact(5,6) t1(2) restore_reusable_prefix_handed [OF run] by (simp add: books_def handed_sound_def)
  then show "prefilling prompt plan t'"
    using exact(1-3) assms(4)
    by (simp add: prefilling_def plan plan_prefill_def make_reuse_bounds_def bounds_new_def Let_def)
  show "boundary_inside prompt plan"
    using assms(4)
    by (cases prompt) (auto simp: boundary_inside_def plan plan_prefill_def make_reuse_bounds_def bounds_new_def Let_def
        split: if_splits option.splits)
  show "pf_done plan = pf_reused plan" by (simp add: plan plan_prefill_def Let_def)
qed

section \<open>Prefill in rounds\<close>

text \<open>The scheduler's rounds: each has a budget, an environment and a model pass of its own.\<close>

type_synonym prefill_step = "env \<times> pass \<times> nat"

fun advance_rounds ::
  "u32 list \<Rightarrow> string option \<Rightarrow> prefill_step list \<Rightarrow> prompt_prefill \<Rightarrow> tiers
   \<Rightarrow> (engine_error + bool) \<times> prompt_prefill \<times> tiers" where
  "advance_rounds prompt session [] plan t = (Inr False, plan, t)"
| "advance_rounds prompt session ((ev, pass, budget) # steps) plan t =
     (case advance_prompt ev pass prompt session plan budget t of
        (Inr False, plan1, t1) \<Rightarrow> advance_rounds prompt session steps plan1 t1
      | outcome \<Rightarrow> outcome)"

lemma advance_rounds_outcome:
  assumes "prefilling prompt plan t" "boundary_inside prompt plan"
    and "advance_rounds prompt session steps plan t = (Inr complete, plan', t')"
  shows "if complete then completed prompt t' \<and> pf_done plan' = length prompt \<and>
           (\<forall>c. pf_snapshot plan' = Some c \<longrightarrow> ck_seq c = take (length prompt - 1) prompt)
         else prefilling prompt plan' t' \<and> boundary_inside prompt plan'"
  using assms
proof (induction prompt session steps plan t rule: advance_rounds.induct)
  case (2 prompt session ev pass budget steps plan t)
  obtain r plan1 t1 where run: "advance_prompt ev pass prompt session plan budget t = (r, plan1, t1)"
    by (metis prod.exhaust)
  show ?case
  proof (cases r)
    case (Inl e)
    then show ?thesis using 2(4) run by simp
  next
    case (Inr c)
    note step = advance_outcome [OF 2(2,3) run [unfolded Inr]]
    show ?thesis
    proof (cases c)
      case True
      then show ?thesis using 2(4) run step Inr by simp
    next
      case False
      then have inv: "prefilling prompt plan1 t1" "boundary_inside prompt plan1"
        and rest: "advance_rounds prompt session steps plan1 t1 = (Inr complete, plan', t')"
        using 2(4) run step Inr by simp_all
      show ?thesis by (rule 2(1) [OF run [symmetric] Inr _ refl inv rest]) (simp add: False)
    qed
  qed
qed auto

text \<open>C2. A prompt's prefill, from its restored prefix through any rounds (any budgets, any pass that
  stops early), leaves in the resident buffers exactly the prompt's first \<open>pf_done\<close> tokens, and every
  snapshot handed to the disk writer on the way holds the tokens it is filed under; a complete
  prefill leaves the whole prompt, and the tiers describe it: its checkpoints are prefixes of the
  prompt whose rows are in place.\<close>

theorem prefill_exact:
  assumes "sound t" "handed_sound t" "files_faithful ev loaded (t_disk (collect_disk_writes t))" "prompt \<noteq> []"
    and "begin_prompt ev eos_ids prompt session loaded t = (Inr (plan, source, load), t1)"
    and "advance_rounds prompt session steps plan t1 = (Inr complete, plan', t')"
  shows "coherent (t_device t') \<and> dv_seq (t_device t') = take (pf_done plan') prompt \<and> handed_sound t' \<and>
         (complete \<longrightarrow> dv_seq (t_device t') = prompt \<and> sound t' \<and> t_cached_tokens t' = prompt \<and>
            (\<forall>c\<in>set (t_checkpoints t'). prefix (cc_tokens c) prompt))"
proof -
  have "if complete then completed prompt t' \<and> pf_done plan' = length prompt
        else prefilling prompt plan' t' \<and> boundary_inside prompt plan'"
    using advance_rounds_outcome [OF begin_prompt_ready(1,2) [OF assms(1-5)] assms(6)] by (auto split: if_splits)
  then show ?thesis by (cases complete) (simp_all add: completed_def prefilling_def books_def)
qed

section \<open>Prefill completes\<close>

text \<open>An environment in which no copy, read or thread start fails, and a pass that is not stopped.\<close>

definition nothing_fails :: "env \<Rightarrow> bool" where
  "nothing_fails ev \<longleftrightarrow> ev_checkpoint_ok ev \<and> ev_snapshot_ok ev \<and> ev_host_copy_ok ev \<and> ev_spawn_writer ev"

definition full_pass :: pass where
  "full_pass p n = (n, None)"

lemma saves_ok:
  assumes "nothing_fails ev"
  shows "returns (save_prompt_checkpoint ev tokens boundary t)"
    and "returns (save_to_host_tier ev tokens session s boundary t)"
    and "returns (hand_to_writer ev tokens session s boundary t)"
    and "returns (read_snapshot ev t)"
    and "returns (pinned_prompt_checkpoint ev t)"
  using assms
  by (auto simp: nothing_fails_def save_prompt_checkpoint_def save_to_host_tier_def hand_to_writer_def
      the_writer_def read_snapshot_def pinned_prompt_checkpoint_def Let_def split: option.splits)

lemma save_session_ok:
  assumes "nothing_fails ev"
  shows "returns (save_session_snapshot ev tokens session (Some s) to_disk boundary t)"
  using saves_ok [OF assms] by (auto simp: save_session_snapshot_def Let_def intro!: returns_tbind)

lemma milestones_ok:
  assumes "nothing_fails ev"
  shows "returns (milestones ev prompt session plan t)"
proof -
  have persist: "returns (persist_boundary ev tokens session t)" for tokens t
    using saves_ok(4) [OF assms] save_session_ok [OF assms]
    by (auto simp: persist_boundary_def intro!: returns_tbind split: prod.splits bool.splits)
  have pin: "returns (pin_penultimate ev tokens plan t)" for tokens plan t
    using saves_ok(5) [OF assms]
    by (auto simp: pin_penultimate_def Let_def intro!: returns_tbind split: prod.splits bool.splits)
  have "returns (reach_boundary ev tokens session plan t)" for tokens plan t
    using saves_ok(1) [OF assms] persist by (auto simp: reach_boundary_def intro!: returns_tbind)
  moreover have "returns (reach_penultimate ev tokens plan t)" for tokens plan t
    using saves_ok(1) [OF assms] pin
    by (auto simp: reach_penultimate_def checkpoint_penultimate_def intro!: returns_tbind)
  ultimately show ?thesis by (auto simp: milestones_def intro!: returns_tbind)
qed

lemma finish_ok: "nothing_fails ev \<Longrightarrow> returns (finish_prompt ev prompt pen t)"
  using saves_ok(1) by (auto simp: finish_prompt_def Let_def)

lemma advance_completes:
  assumes "nothing_fails ev" "prefilling prompt plan t" "boundary_inside prompt plan"
    and "length prompt - pf_done plan \<le> budget"
  shows "\<exists>plan' t'. advance_prompt ev full_pass prompt session plan budget t = (Inr True, plan', t')"
  using assms
proof (induction "length prompt - pf_done plan" arbitrary: plan budget t rule: less_induct)
  case less
  have le: "pf_done plan \<le> length prompt" using less(3) by (simp add: prefilling_def)
  obtain plan1 t1 where m: "milestones ev prompt session plan t = (Inr plan1, t1)"
    using milestones_ok [OF less(2)] by (rule returnsE)
  have inv: "prefilling prompt plan1 t1" "boundary_inside prompt plan1" "pf_done plan1 = pf_done plan"
    using milestones_prefilling(1) [OF m less(3)] milestones_boundary [OF m less(4)] milestones_done(1) [OF m] by auto
  show ?case
  proof (cases "pf_done plan1 = length prompt")
    case True
    obtain u t2 where f: "finish_prompt ev prompt (pf_checkpoint_penultimate plan1) t1 = (Inr u, t2)"
      using finish_ok [OF less(2)] by (rule returnsE)
    show ?thesis unfolding advance_stop(1) [OF le m True] f by simp
  next
    case False
    then have "budget \<noteq> 0" using less(5) inv(3) le by simp
    define e where "e = min (pf_target plan1 (length prompt)) (pf_done plan1 + budget)"
    define n where "n = e - pf_done plan1"
    have tgt: "pf_done plan1 < pf_target plan1 (length prompt)" "pf_target plan1 (length prompt) \<le> length prompt"
      using pf_target_gt [of plan1 "length prompt"] False inv(3) le pf_target_le [OF inv(1,2)] by simp_all
    have n: "pf_done plan1 + n = e" "e \<le> length prompt" "0 < n"
      using tgt \<open>budget \<noteq> 0\<close> by (auto simp: n_def e_def)
    obtain t2 where seg: "prefill_segment full_pass (take (e - pf_done plan1) (drop (pf_done plan1) prompt)) t1 = (n, None, t2)"
      using n by (simp add: prefill_segment_def full_pass_def Let_def n_def)
    have "prefilling prompt (pf_advance n plan1) t2"
      using prefill_segment_prefilling(1) [OF seg inv(1)] n by (simp add: n_def)
    moreover have "boundary_inside prompt (pf_advance n plan1)"
      using inv(2) by (simp add: boundary_inside_def pf_advance_def)
    moreover have "pf_done (pf_advance n plan1) = pf_done plan + n" using inv(3) by (simp add: pf_advance_def)
    ultimately have "\<exists>plan' t'. advance_prompt ev full_pass prompt session (pf_advance n plan1) (budget - n) t2 = (Inr True, plan', t')"
      using less(1) [of "pf_advance n plan1" t2 "budget - n"] less(2,5) n inv(3) by fastforce
    then show ?thesis
      unfolding advance_segment [OF le m False \<open>budget \<noteq> 0\<close> e_def seg] using n(1) by simp
  qed
qed

text \<open>C40. When nothing fails and no pass is stopped, a round whose budget covers what is left of the
  prompt completes it, whatever tier the prefix came from.\<close>

theorem prefill_completes:
  assumes "nothing_fails ev" "sound t" "handed_sound t" "files_faithful ev0 loaded (t_disk (collect_disk_writes t))"
    and "prompt \<noteq> []" "begin_prompt ev0 eos_ids prompt session loaded t = (Inr (plan, source, load), t1)"
    and "length prompt \<le> pf_reused plan + budget"
  shows "\<exists>plan' t'. advance_prompt ev full_pass prompt session plan budget t1 = (Inr True, plan', t')"
  using begin_prompt_ready [OF assms(2-6)] assms(7)
  by (intro advance_completes [OF assms(1)]) simp_all

section \<open>The checkpoint tier\<close>

text \<open>Saving a checkpoint keeps the tier within its maximum and its entries for distinct tokens,
  puts the new checkpoint last, and never drops the newest of the others while at least two are
  allowed.\<close>

theorem save_checkpoint_tier:
  assumes "save_prompt_checkpoint ev tokens boundary t = (Inr (), t')"
    and "dv_seq (t_device t) = tokens" "0 < t_max_checkpoints t" "length (t_checkpoints t) \<le> t_max_checkpoints t"
    and "distinct (map cc_tokens (t_checkpoints t))"
  shows "length (t_checkpoints t') \<le> t_max_checkpoints t' \<and> distinct (map cc_tokens (t_checkpoints t')) \<and>
    (\<exists>cs. t_checkpoints t' = cs @ [\<lparr>cc_tokens = tokens, cc_state = \<lparr>ck_seq = tokens\<rparr>, cc_boundary = boundary,
                                     cc_owed = False, cc_session = None\<rparr>] \<and>
          set cs \<subseteq> set (t_checkpoints t)) \<and>
    (\<forall>c cs. t_checkpoints t = cs @ [c] \<and> cc_tokens c \<noteq> tokens \<and> 2 \<le> t_max_checkpoints t \<longrightarrow> c \<in> set (t_checkpoints t'))"
proof -
  define m where "m = t_max_checkpoints t"
  define kept where "kept = filter (\<lambda>c. cc_tokens c \<noteq> tokens) (t_checkpoints t)"
  define new where "new = \<lparr>cc_tokens = tokens, cc_state = \<lparr>ck_seq = tokens\<rparr>, cc_boundary = boundary,
                           cc_owed = False, cc_session = None\<rparr>"
  have kept: "distinct (map cc_tokens (kept @ [new]))" "set kept \<subseteq> set (t_checkpoints t)" "length kept \<le> m"
    using assms(5) le_trans [OF length_filter_le [of "\<lambda>c. cc_tokens c \<noteq> tokens" "t_checkpoints t"] assms(4)]
    by (auto simp: kept_def new_def m_def distinct_map_filter)
  have copy: "dv_position (t_device t) = length tokens" "copy_checkpoint (t_device t) = \<lparr>ck_seq = tokens\<rparr>"
    using assms(2) by (simp_all add: dv_position_def copy_checkpoint_def)
  define entries where "entries = map (\<lambda>c. (cc_tokens c, cc_boundary c)) (take (length (kept @ [new]) - min m 2) (kept @ [new]))"
  define victim where "victim = (case next_victim entries of Some i \<Rightarrow> i | None \<Rightarrow> 0)"
  have t': "t' = t\<lparr>t_checkpoints := (if m < length (kept @ [new]) then vec_remove victim (kept @ [new]) else kept @ [new])\<rparr>"
    using assms(1,3)
    by (auto simp: save_prompt_checkpoint_def copy kept_def [symmetric] new_def [symmetric] m_def [symmetric] Let_def
        entries_def victim_def split: if_splits)
  have gone: "victim < length kept" "2 \<le> m \<Longrightarrow> Suc victim < length kept" if "m < length (kept @ [new])"
  proof -
    have len: "length entries = Suc (length kept) - min m 2" by (simp add: entries_def)
    then have "entries \<noteq> []" using that kept(3) assms(3) by (auto simp: m_def)
    then have "victim < length entries" using next_victim_total by (fastforce simp: victim_def)
    then show "victim < length kept" "2 \<le> m \<Longrightarrow> Suc victim < length kept"
      using len assms(3) by (auto simp: m_def)
  qed
  show ?thesis
  proof (cases "m < length (kept @ [new])")
    case True
    have cps: "t_checkpoints t' = vec_remove victim kept @ [new]"
      using gone(1) [OF True] True by (simp add: t' vec_remove_def)
    have "c \<in> set (t_checkpoints t')" if "t_checkpoints t = cs @ [c]" "cc_tokens c \<noteq> tokens" "2 \<le> m" for c cs
    proof -
      have "kept = filter (\<lambda>c. cc_tokens c \<noteq> tokens) cs @ [c]" using that(1,2) by (simp add: kept_def)
      then have "c \<in> set (drop (Suc victim) kept)" using gone(2) [OF True that(3)] by simp
      then show ?thesis by (simp add: cps vec_remove_def)
    qed
    moreover have "distinct (map cc_tokens (t_checkpoints t'))"
      using kept(1) distinct_vec_remove [of "map cc_tokens kept" victim] set_vec_remove [of victim kept]
      by (auto simp: cps vec_remove_def take_map drop_map)
    moreover have "t_max_checkpoints t' = m" "length (t_checkpoints t') \<le> m"
      using kept(3) gone(1) [OF True] by (simp add: t' m_def, simp add: cps)
    moreover have "set (vec_remove victim kept) \<subseteq> set (t_checkpoints t)"
      using kept(2) set_vec_remove [of victim kept] by blast
    ultimately show ?thesis using cps unfolding m_def new_def by (metis (no_types, lifting))
  next
    case False
    then show ?thesis using kept by (auto simp: t' m_def kept_def new_def)
  qed
qed

section \<open>An example\<close>

lemma example_handed: "handed_sound example_tiers"
  by (simp add: handed_sound_def example_tiers_def)

lemma example_collected: "collect_disk_writes example_tiers = example_tiers"
  by (simp add: collect_disk_writes_def example_tiers_def)

definition example_begin :: "(engine_error + prompt_prefill \<times> cache_source \<times> string option) \<times> tiers" where
  "example_begin = begin_prompt example_env [] [1, 2, 3, 4] None None example_tiers"

definition example_plan :: prompt_prefill where
  "example_plan = \<lparr>pf_reused = 3, pf_done = 3, pf_boundary = None, pf_penultimate = 3,
     pf_checkpoint_penultimate = False, pf_penultimate_reached = False, pf_snapshot = None, pf_persisted = False\<rparr>"

lemma example_begins:
  "begin_prompt example_env [] [1, 2, 3, 4] None None example_tiers = (Inr (example_plan, Disk, None), snd example_begin)"
proof -
  have "fst example_begin = Inr (example_plan, Disk, None)" unfolding example_begin_def example_plan_def by code_simp
  then show ?thesis by (metis example_begin_def prod.collapse)
qed

theorem prefill_exact_witness:
  "\<exists>plan' t'. advance_rounds [1, 2, 3, 4] None [(example_env, full_pass, 0), (example_env, full_pass, 5)]
       example_plan (snd example_begin) = (Inr True, plan', t') \<and>
     coherent (t_device t') \<and> dv_seq (t_device t') = [1, 2, 3, 4] \<and> sound t'"
proof -
  define run where "run = advance_rounds [1, 2, 3, 4] None [(example_env, full_pass, 0), (example_env, full_pass, 5)]
       example_plan (snd example_begin)"
  have "fst run = Inr True" unfolding run_def by code_simp
  then obtain plan' t' where run: "run = (Inr True, plan', t')" by (metis prod.collapse)
  have "files_faithful example_env None (t_disk (collect_disk_writes example_tiers))"
    by (simp add: example_collected example_files)
  from prefill_exact [OF example_sound example_handed this _ example_begins run [unfolded run_def]] run
  show ?thesis unfolding run_def by blast
qed

theorem prefill_completes_witness:
  "\<exists>plan' t'. advance_prompt example_env full_pass [1, 2, 3, 4] None example_plan 1 (snd example_begin) = (Inr True, plan', t')"
proof (rule prefill_completes [OF _ example_sound example_handed _ _ example_begins])
  show "nothing_fails example_env" by (simp add: nothing_fails_def example_env_def)
qed (simp_all add: example_collected example_plan_def example_files)

theorem save_checkpoint_tier_witness:
  "length (t_checkpoints (snd (save_prompt_checkpoint example_env [1, 2] True (example_tiers\<lparr>t_max_checkpoints := 1\<rparr>)))) \<le> 1"
proof -
  define t where "t = example_tiers\<lparr>t_max_checkpoints := 1\<rparr>"
  obtain t' where run: "save_prompt_checkpoint example_env [1, 2] True t = (Inr (), t')"
    using saves_ok(1) [of example_env "[1, 2]" True t] by (auto simp: nothing_fails_def example_env_def elim!: returnsE)
  moreover have "t_max_checkpoints t' = 1"
    using save_checkpoint_frame(5) [OF run] by (simp add: t_def example_tiers_def)
  ultimately show ?thesis
    using save_checkpoint_tier [OF run] unfolding t_def by (simp add: example_tiers_def)
qed

end
