(* ===== verification/Upkeep.thy ===== *)
theory Upkeep
  imports Prefill
begin

text \<open>
  What the operations of the prompt cache keep whether they return or fail: entries are only taken
  over from the tiers, the tier keeps describing the set it described unless the resident set claims
  it, and what is filed stays sound.
\<close>

section \<open>Relations that chain\<close>

text \<open>A checkpoint is one of those before, up to what it owes.\<close>

definition taken_over :: "cached_checkpoint list \<Rightarrow> cached_checkpoint \<Rightarrow> bool" where
  "taken_over cps c \<longleftrightarrow> (\<exists>c0\<in>set cps. cc_tokens c = cc_tokens c0 \<and> cc_state c = cc_state c0)"

lemma taken_over_mem: "c \<in> set cps \<Longrightarrow> taken_over cps c"
  by (auto simp: taken_over_def)

text \<open>The resident set only grows, and the tier is claimed for it or describes the set it described;
  its checkpoints are taken over, or are of what the resident set holds.\<close>

definition own_tier :: "tiers \<Rightarrow> tiers \<Rightarrow> bool" where
  "own_tier t t' \<longleftrightarrow>
     (\<exists>ts. t_device t' = prefill_blocks ts (t_device t)) \<and>
     (t_cache_state t' = dv_id (t_device t) \<or> t_cache_state t' = t_cache_state t) \<and>
     (\<forall>c\<in>set (t_checkpoints t').
        t_cache_state t' = t_cache_state t \<and> taken_over (t_checkpoints t) c \<or>
        t_cache_state t' = dv_id (t_device t) \<and> prefix (cc_tokens c) (dv_seq (t_device t')))"

definition upkeep :: "tiers \<Rightarrow> tiers \<Rightarrow> bool" where
  "upkeep t t' \<longleftrightarrow> t_device t' = t_device t \<and> (books t \<longrightarrow> books t') \<and> own_tier t t'"

lemma prefill_blocks_append: "prefill_blocks us (prefill_blocks ts d) = prefill_blocks (ts @ us) d"
  by (simp add: prefill_blocks_def)

lemma own_tier_refl [simp]: "own_tier t t"
  by (auto simp: own_tier_def intro: taken_over_mem exI [of _ "[]"])

lemma own_tier_trans:
  assumes "own_tier t t1" "own_tier t1 t2"
  shows "own_tier t t2"
proof -
  obtain ts us where d: "t_device t1 = prefill_blocks ts (t_device t)" "t_device t2 = prefill_blocks us (t_device t1)"
    using assms by (auto simp: own_tier_def)
  have cs: "t_cache_state t2 = dv_id (t_device t) \<or> t_cache_state t2 = t_cache_state t"
    using assms d by (auto simp: own_tier_def)
  have "t_cache_state t2 = t_cache_state t \<and> taken_over (t_checkpoints t) c \<or>
        t_cache_state t2 = dv_id (t_device t) \<and> prefix (cc_tokens c) (dv_seq (t_device t2))"
    if c: "c \<in> set (t_checkpoints t2)" for c
  proof -
    have "t_cache_state t2 = t_cache_state t1 \<and> taken_over (t_checkpoints t1) c \<or>
        t_cache_state t2 = dv_id (t_device t) \<and> prefix (cc_tokens c) (dv_seq (t_device t2))"
      using assms(2) c d(1) by (simp add: own_tier_def)
    then show ?thesis
    proof
      assume l: "t_cache_state t2 = t_cache_state t1 \<and> taken_over (t_checkpoints t1) c"
      then obtain c1 where c1: "c1 \<in> set (t_checkpoints t1)" "cc_tokens c = cc_tokens c1" "cc_state c = cc_state c1"
        by (auto simp: taken_over_def)
      have "t_cache_state t1 = t_cache_state t \<and> taken_over (t_checkpoints t) c1 \<or>
          t_cache_state t1 = dv_id (t_device t) \<and> prefix (cc_tokens c1) (dv_seq (t_device t1))"
        using assms(1) c1(1) by (auto simp: own_tier_def)
      then show ?thesis
        using l c1(2,3) d(2) by (auto simp: taken_over_def intro: prefix_order.trans)
    qed simp
  qed
  then show ?thesis using cs d prefill_blocks_append by (auto simp: own_tier_def)
qed

interpretation upk: state_frame upkeep
proof
  show "upkeep t t" for t by (simp add: upkeep_def)
  show "upkeep t t1 \<Longrightarrow> upkeep t1 t2 \<Longrightarrow> upkeep t t2" for t t1 t2
    using own_tier_trans [of t t1 t2] by (simp add: upkeep_def)
qed

lemma own_tier_same:
  assumes "t_device t' = t_device t" "t_cache_state t' = t_cache_state t" "set (t_checkpoints t') \<subseteq> set (t_checkpoints t)"
  shows "own_tier t t'"
  using assms by (auto simp: own_tier_def intro: taken_over_mem exI [of _ "[]"])

lemma upkeep_own: "upkeep t t' \<Longrightarrow> t_cache_state t = dv_id (t_device t) \<Longrightarrow> t_cache_state t' = dv_id (t_device t')"
  by (auto simp: upkeep_def own_tier_def)

lemma upkeep_same_gpu: "same_gpu t t' \<Longrightarrow> (books t \<Longrightarrow> books t') \<Longrightarrow> upkeep t t'"
  by (auto simp: upkeep_def same_gpu_def intro: own_tier_same)

lemma upkeep_claim: "upkeep t (claim_gpu_cache t)"
proof (cases "t_cache_state t = dv_id (t_device t)")
  case True
  then show ?thesis using upk.keeps_refl [of t] by (simp add: claim_gpu_cache_def)
next
  case False
  then have "own_tier t (claim_gpu_cache t)"
    by (auto simp: own_tier_def claim_gpu_cache_def intro: exI [of _ "[]"])
  then show ?thesis by (simp add: upkeep_def claim_frame)
qed

lemma upkeep_cached_tokens: "upkeep t (t\<lparr>t_cached_tokens := ts\<rparr>)"
  by (auto simp: upkeep_def books_def checkpoints_named_def sessions_sound_def handed_sound_def intro: own_tier_same)

lemma upkeep_filter: "upkeep t (t\<lparr>t_cached_tokens := ts, t_checkpoints := filter P (t_checkpoints t)\<rparr>)"
  by (auto simp: upkeep_def books_def checkpoints_named_def sessions_sound_def handed_sound_def intro!: own_tier_same)

lemma upkeep_save:
  assumes "save_prompt_checkpoint ev tokens boundary t = (r, t')" "dv_seq (t_device t) = tokens"
    and "t_cache_state t = dv_id (t_device t)"
  shows "upkeep t t'"
proof -
  note frame = save_checkpoint_frame [OF assms(1,2)]
  have "own_tier t t'"
    using frame(1,3) assms(2,3) taken_over_mem
    by (auto simp: own_tier_def intro: exI [of _ "[]"] dest!: frame(6))
  then show ?thesis using frame(1,2) by (simp add: upkeep_def)
qed

lemma upkeep_keep_reached: "upkeep t (keep_reached_prompt prompt t)"
  using upk.keeps_refl [of t] upkeep_filter [of t] by (simp add: keep_reached_prompt_def Let_def)

lemma owe_first_taken: "c \<in> set (owe_first tokens session cs) \<Longrightarrow> taken_over cs c"
  by (induction cs) (auto simp: taken_over_def split: if_splits)

lemma upkeep_owe: "upkeep t (owe_to_disk tokens session t)"
  by (auto simp: upkeep_def own_tier_def owe_to_disk_def books_def checkpoints_named_def sessions_sound_def
      handed_sound_def taken_over_def intro: exI [of _ "[]"] dest!: owe_first_taken)

section \<open>Milestones that fail\<close>

lemma reach_boundary_upkeep:
  assumes run: "reach_boundary ev (dv_seq (t_device t)) session plan t = (r, t')" and coherent: "coherent (t_device t)"
    and "books t"
  shows "upkeep t t'"
proof -
  define c where "c = claim_gpu_cache t"
  have c: "t_device c = t_device t" "t_cache_state c = dv_id (t_device c)" "books c"
    using assms(3) by (simp_all add: c_def claim_frame)
  have save: "upkeep c t1" if "save_prompt_checkpoint ev (dv_seq (t_device t)) True c = (r1, t1)" for r1 t1
    using upkeep_save [OF that] c(1,2) by simp
  have rest: "upkeep t1 t2" if s: "save_prompt_checkpoint ev (dv_seq (t_device t)) True c = (Inr u, t1)"
    and p: "persist_boundary ev (dv_seq (t_device t)) session t1 = (r2, t2)" for u t1 r2 t2
  proof -
    have "t_device t1 = t_device t" "books t1" using save [OF s] c by (auto simp: upkeep_def)
    then show ?thesis using persist_boundary_frame [OF p] coherent by (auto intro: upkeep_same_gpu)
  qed
  have "upkeep c t'"
  proof (rule upk.tbind_run [OF run [unfolded reach_boundary_def c_def [symmetric]]])
    show "upkeep c t1" if "save_prompt_checkpoint ev (dv_seq (t_device t)) True c = (r1, t1)" for r1 t1
      using save [OF that] .
  next
    fix u t1 r2 t2
    assume s: "save_prompt_checkpoint ev (dv_seq (t_device t)) True c = (Inr u, t1)"
      and "(if caches_snapshots t1
         then tbind (persist_boundary ev (dv_seq (t_device t)) session t1) (\<lambda>_ t2.
                (Inr (plan\<lparr>pf_boundary := None, pf_persisted := True\<rparr>), t2))
         else (Inr (plan\<lparr>pf_boundary := None\<rparr>), t1)) = (r2, t2)"
    then consider "t2 = t1" | r3 where "persist_boundary ev (dv_seq (t_device t)) session t1 = (r3, t2)"
      by (auto simp: tbind_def split: if_splits prod.splits sum.splits)
    then show "upkeep t1 t2" using rest [OF s] upk.keeps_refl by cases auto
  qed
  then show ?thesis using upk.keeps_trans [OF upkeep_claim [of t]] by (simp add: c_def)
qed

lemma reach_penultimate_upkeep:
  assumes run: "reach_penultimate ev (dv_seq (t_device t)) plan t = (r, t')" and "books t"
  shows "upkeep t t'"
proof -
  have ck: "upkeep t t1" if "checkpoint_penultimate ev (dv_seq (t_device t)) plan t = (r1, t1)" for r1 t1
  proof -
    define c where "c = (claim_gpu_cache t)\<lparr>t_cached_tokens := dv_seq (t_device t)\<rparr>"
    have c: "upkeep t c"
      unfolding c_def by (rule upk.keeps_trans [OF upkeep_claim upkeep_cached_tokens])
    have "t_cache_state c = dv_id (t_device c)" "dv_seq (t_device c) = dv_seq (t_device t)"
      by (simp_all add: c_def claim_frame)
    then have "upkeep c t1" if "save_prompt_checkpoint ev (dv_seq (t_device t)) False c = (r1, t1)"
      using upkeep_save [OF that] by simp
    then show ?thesis
      using that upk.keeps_refl upk.keeps_trans [OF c]
      by (auto simp: checkpoint_penultimate_def c_def [symmetric] split: if_splits)
  qed
  have pin: "upkeep t1 t2" if "pin_penultimate ev (dv_seq (t_device t)) plan t1 = (r2, t2)" for t1 r2 t2
  proof -
    obtain ok t3 where keep: "any_would_keep ev (dv_seq (t_device t)) False t1 = (ok, t3)" by fastforce
    have "t2 = t1 \<or> t2 = t3"
      using that keep by (cases ok) (auto simp: pin_penultimate_def pinned_prompt_checkpoint_def Let_def split: if_splits)
    then show ?thesis using any_would_keep_frame [OF keep] upk.keeps_refl upkeep_same_gpu by blast
  qed
  show ?thesis
    by (rule upk.tbind_run [OF run [unfolded reach_penultimate_def]])
      (use ck pin in \<open>auto simp: tbind_def split: prod.splits sum.splits\<close>)
qed

lemma milestones_upkeep:
  assumes run: "milestones ev prompt session plan t = (r, t')" and inv: "prefilling prompt plan t"
  shows "upkeep t t'"
proof -
  have t: "dv_seq (t_device t) = take (pf_done plan) prompt" "coherent (t_device t)" "books t"
    using inv by (auto simp: prefilling_def)
  show ?thesis
  proof (rule upk.tbind_run [OF run [unfolded milestones_def]])
    show "upkeep t t1"
      if "(if pf_boundary plan = Some (pf_done plan) then reach_boundary ev (take (pf_done plan) prompt) session plan t
           else (Inr plan, t)) = (r1, t1)" for r1 t1
      using that reach_boundary_upkeep [of ev t session plan r1 t1] t upk.keeps_refl
      by (auto split: if_splits)
  next
    fix plan1 t1 r2 t2
    assume a: "(if pf_boundary plan = Some (pf_done plan) then reach_boundary ev (take (pf_done plan) prompt) session plan t
         else (Inr plan, t)) = (Inr plan1, t1)"
      and b: "(if pf_done plan1 = pf_penultimate plan1 \<and> \<not> pf_penultimate_reached plan1
         then reach_penultimate ev (take (pf_done plan1) prompt) plan1 t1 else (Inr plan1, t1)) = (r2, t2)"
    have "upkeep t t1"
      using a reach_boundary_upkeep [of ev t session plan "Inr plan1" t1] t upk.keeps_refl
      by (auto split: if_splits)
    moreover have "pf_done plan1 = pf_done plan" using a by (auto dest: reach_boundary_done split: if_splits)
    ultimately have "dv_seq (t_device t1) = take (pf_done plan1) prompt" "books t1"
      using t by (auto simp: upkeep_def)
    then show "upkeep t1 t2"
      using b reach_penultimate_upkeep [of ev t1 plan1 r2 t2] upk.keeps_refl by (auto split: if_splits)
  qed
qed

lemma finish_prompt_upkeep:
  assumes run: "finish_prompt ev prompt pen t = (r, t')" and "dv_seq (t_device t) = prompt"
  shows "upkeep t t'"
proof -
  define c where "c = claim_gpu_cache t"
  define f where "f = c\<lparr>t_cached_tokens := prompt,
      t_checkpoints := filter (\<lambda>c. length (cc_tokens c) \<le> length prompt \<and>
                                   cc_tokens c = take (length (cc_tokens c)) prompt) (t_checkpoints c)\<rparr>"
  have f: "upkeep t f"
    unfolding f_def c_def by (rule upk.keeps_trans [OF upkeep_claim upkeep_filter])
  have "t_cache_state f = dv_id (t_device f)" "dv_seq (t_device f) = prompt"
    using assms(2) by (simp_all add: f_def c_def claim_frame)
  then have "upkeep f t1" if "save_prompt_checkpoint ev prompt False f = (r1, t1)" for r1 t1
    using upkeep_save [OF that] by simp
  moreover have "(if pen then (Inr (), f) else save_prompt_checkpoint ev prompt False f) = (r, t')"
    using run unfolding finish_prompt_def c_def f_def Let_def .
  ultimately show ?thesis
    using f upk.keeps_trans [OF f] upk.keeps_refl by (auto split: if_splits)
qed

section \<open>A round of prefill that fails\<close>

lemma prefill_segment_own:
  assumes "prefill_segment pass tokens t = (n, err, t')"
  shows "own_tier t t'" "books t' = books t"
  using assms
  by (auto simp: prefill_segment_def own_tier_def Let_def split: prod.splits intro: taken_over_mem)

lemma milestones_own:
  assumes "prefilling prompt plan t" "milestones ev prompt session plan t = (m, t1)"
  shows "own_tier t t1" "books t1"
  using milestones_upkeep [OF assms(2,1)] assms(1) by (auto simp: upkeep_def prefilling_def)

lemma segment_own:
  assumes "prefilling prompt plan t" "milestones ev prompt session plan t = (m, t1)"
    and "prefill_segment pass ids t1 = (n, err, t2)"
  shows "own_tier t t2" "books t2"
  using prefill_segment_own [OF assms(3)] milestones_own [OF assms(1,2)] own_tier_trans by auto

lemma advance_keeps:
  assumes "prefilling prompt plan t" "boundary_inside prompt plan"
    and "advance_prompt ev pass prompt session plan budget t = (r, plan', t')"
  shows "own_tier t t' \<and> books t'"
  using assms(3,1,2)
proof (induction rule: advance_rounds)
  case (finish plan t plan1 t1 u t2)
  have "upkeep t1 t2"
    by (rule finish_prompt_upkeep [OF finish(5)]) (use finish(3,4) in \<open>simp add: prefilling_def\<close>)
  then show ?case using milestones_own [OF finish(1,2)] own_tier_trans by (auto simp: upkeep_def)
next
  case (go plan t plan1 t1 ids n t2 r plan' t')
  then show ?case using segment_own [OF go(1-3)] own_tier_trans by blast
qed (simp_all add: milestones_own segment_own)

lemma advance_reused:
  "advance_prompt ev pass prompt session plan budget t = (r, plan', t') \<Longrightarrow> pf_reused plan' = pf_reused plan"
proof (induction ev pass prompt session plan budget t rule: advance_prompt.induct)
  case (1 ev pass prompt session plan budget t)
  obtain m t1 where ms: "milestones ev prompt session plan t = (m, t1)" by fastforce
  show ?case
  proof (cases "length prompt < pf_done plan \<or> isl m")
    case True
    then show ?thesis
      using 1(2) ms by (cases m) (auto simp: advance_prompt.simps [of ev pass prompt session plan] split: if_splits)
  next
    case False
    then obtain plan1 where m: "m = Inr plan1" by (cases m) auto
    note ms = ms [unfolded m]
    have le: "pf_done plan \<le> length prompt" and reused: "pf_reused plan1 = pf_reused plan"
      using False milestones_done(4) [OF ms] by auto
    consider (finish) "pf_done plan1 = length prompt" | (spent) "pf_done plan1 \<noteq> length prompt" "budget = 0"
      | (go) "pf_done plan1 \<noteq> length prompt" "budget \<noteq> 0" by blast
    then show ?thesis
    proof cases
      case finish
      then show ?thesis
        using 1(2) reused unfolding advance_stop(1) [OF le ms finish] by (auto split: prod.splits sum.splits)
    next
      case spent
      then show ?thesis using 1(2) reused unfolding spent(2) advance_stop(2) [OF le ms spent(1)] by simp
    next
      case go
      define e where "e = min (pf_target plan1 (length prompt)) (pf_done plan1 + budget)"
      obtain n err t2 where seg: "prefill_segment pass (take (e - pf_done plan1) (drop (pf_done plan1) prompt)) t1 = (n, err, t2)"
        by (metis prod.exhaust)
      have "\<not> length prompt < pf_done plan" using le by simp
      note ih = 1(1) [OF this ms [symmetric] refl go e_def seg [symmetric] _ _]
      show ?thesis
        using 1(2) [unfolded advance_segment [OF le ms go e_def seg]] reused ih
        by (cases err) (auto simp: pf_advance_def split: if_splits)
    qed
  qed
qed

section \<open>Restores that fail\<close>

text \<open>A restore that fails without touching the rows: reading the file failed, or the copy was
  purged.\<close>

definition clean :: "env \<Rightarrow> bool" where
  "clean ev \<longleftrightarrow> ev_restore_fails ev = (\<lambda>_. None)"

text \<open>A restore only takes entries away, and either drops the checkpoints or leaves their rows.\<close>

definition shrinks :: "tiers \<Rightarrow> tiers \<Rightarrow> bool" where
  "shrinks t t' \<longleftrightarrow>
     set (t_checkpoints t') \<subseteq> set (t_checkpoints t) \<and> set (t_sessions t') \<subseteq> set (t_sessions t) \<and>
     t_handed t' = t_handed t \<and> dv_id (t_device t') = dv_id (t_device t) \<and> t_cache_state t' = t_cache_state t \<and>
     (t_checkpoints t' = [] \<or> dv_rows (t_device t') = dv_rows (t_device t))"

interpretation shr: state_frame shrinks
  by unfold_locales (auto simp: shrinks_def)

lemma restore_shrinks:
  "restore_gpu_checkpoint ev i t = (r, t1) \<Longrightarrow> i < length (t_checkpoints t) \<Longrightarrow> shrinks t t1"
  "restore_host_snapshot ev j t = (r, t2) \<Longrightarrow> j < length (t_sessions t) \<Longrightarrow> shrinks t t2"
  "clean ev \<Longrightarrow> restore_disk_snapshot ev k l t = (p, t3) \<Longrightarrow> shrinks t t3"
    apply (auto simp: restore_gpu_checkpoint_def restore_prompt_checkpoint_def shrinks_def Let_def
      split: sum.splits bool.splits dest!: vec_remove_in) [1]
   apply (auto simp: restore_host_snapshot_def restore_prompt_snapshot_def shrinks_def Let_def
      split: sum.splits bool.splits dest!: vec_remove_in) [1]
  apply (auto simp: restore_disk_snapshot_def restore_prompt_snapshot_def dv_reset_def clean_def shrinks_def Let_def
      split: sum.splits option.splits) [1]
  done

lemma try_candidates_shrinks:
  assumes "clean ev" "\<forall>c\<in>set cs. candidate_of (rs_tiers r) c" "try_candidates ev cs r = (a, r')"
  shows "shrinks (rs_tiers r) (rs_tiers r')"
  using assms
proof (induction ev cs r rule: try_candidates.induct)
  case (1 ev r)
  then show ?case using shr.keeps_refl by simp
next
  case (2 ev source index p rest r)
  have c: "candidate_of (rs_tiers r) (source, index, p)" and rest: "\<forall>c\<in>set rest. candidate_of (rs_tiers r) c"
    using 2(5) by auto
  consider (gpu) "source = Gpu" | (host) "source = Host" | (disk) "source = Disk"
    using c by (cases source) (auto simp: candidate_of_def)
  then show ?case
  proof cases
    case gpu
    then have "index < length (t_checkpoints (rs_tiers r))" using c by (simp add: candidate_of_def)
    then show ?thesis
      using 2(1) [OF gpu _ 2(4) rest] 2(6) gpu restore_shrinks(1) [of ev index "rs_tiers r"]
      by (cases "rs_rows_kept r") (auto split: prod.splits sum.splits option.splits)
  next
    case host
    then have "index < length (t_sessions (rs_tiers r))" using c by (simp add: candidate_of_def)
    then show ?thesis
      using 2(2) [OF _ _ 2(4) rest] 2(6) host restore_shrinks(2) [of ev index "rs_tiers r"]
      by (cases "rs_load r") (auto split: prod.splits sum.splits option.splits)
  next
    case disk
    define path where "path = de_path (t_disk (rs_tiers r) ! index)"
    show ?thesis
    proof (cases "rs_load r \<noteq> None \<or> finished_load path r = None \<and> ev_spawn_load ev")
      case True
      then show ?thesis
        using 2(2) [OF _ _ 2(4) rest] 2(3) [OF _ _ _ path_def] 2(4,6) rest disk
        by (cases "rs_load r") (auto simp: path_def [symmetric])
    next
      case False
      then show ?thesis
        using 2(6) disk restore_shrinks(3) [OF 2(4), of index _ "rs_tiers r"]
        by (auto simp: path_def [symmetric] Let_def split: prod.splits option.splits if_splits)
    qed
  qed
qed

lemma restore_loop_shrinks:
  "clean ev \<Longrightarrow> restore_loop ev prompt b session r = (res, r') \<Longrightarrow> shrinks (rs_tiers r) (rs_tiers r')"
proof (induction ev prompt b session r rule: restore_loop.induct)
  case (1 ev prompt b session r)
  obtain a r1 where run: "try_candidates ev (candidates prompt b session (rs_tiers r)) r = (a, r1)" by fastforce
  have s: "shrinks (rs_tiers r) (rs_tiers r1)"
    by (rule try_candidates_shrinks [OF 1(2) _ run]) (auto intro: candidates_valid)
  show ?case
  proof (cases a)
    case Retry
    then show ?thesis
      using 1(1) [OF run [symmetric] Retry 1(2)] 1(3) run shr.keeps_trans [OF s]
      by (simp add: restore_loop.simps [of ev prompt b session r])
  next
    case Exhausted
    have "shrinks (rs_tiers r1) (set_device (dv_reset (t_device (rs_tiers r1))) (rs_tiers r1))"
      by (simp add: shrinks_def dv_reset_def)
    then show ?thesis
      using 1(3) run Exhausted shr.keeps_trans [OF s] by (auto simp: restore_loop.simps [of ev prompt b session r])
  qed (use 1(3) run s in \<open>auto simp: restore_loop.simps [of ev prompt b session r]\<close>)
qed

lemma restore_prefix_shrinks:
  "clean ev \<Longrightarrow> restore_reusable_prefix ev prompt b session loaded t = (r, t') \<Longrightarrow> shrinks t t'"
  using restore_loop_shrinks [of ev prompt b session "\<lparr>rs_tiers = t, rs_loaded = loaded, rs_rows_kept = True, rs_load = None\<rparr>"]
  by (auto simp: restore_reusable_prefix_def split: prod.splits sum.splits)

lemma shrinks_sound:
  assumes "shrinks t t'" "sound t" "handed_sound t"
  shows "sound t'" "handed_sound t'"
proof -
  show "handed_sound t'" using assms(1,3) by (simp add: shrinks_def handed_sound_def)
  have "checkpoints_named t'" "sessions_sound t'"
    using assms(1,2) by (auto simp: shrinks_def sound_def checkpoints_named_def sessions_sound_def)
  moreover have "rows_sound t'" using assms(1,2) by (auto simp: shrinks_def sound_def rows_sound_def)
  ultimately show "sound t'" by (simp add: sound_def)
qed

lemma persist_owed_resident:
  assumes "persist_owed_checkpoints ev prompt t = (r, t')" "sound t" "handed_sound t"
  shows "t_device t' = t_device t" "t_cache_state t' = t_cache_state t"
proof -
  have "t_device t' = t_device t \<and> t_cache_state t' = t_cache_state t"
  proof (cases "t_cache_state t = dv_id (t_device t)")
    case True
    then have run: "persist_owed_loop ev prompt [] (t_checkpoints t) t = (r, t')"
      using assms(1) by (simp add: persist_owed_checkpoints_def)
    have "owing ([] @ t_checkpoints t) t" using assms(2,3) True by (simp add: owing_def sound_def tier_defs)
    from persist_owed_loop_keeps [OF run this] show ?thesis by (simp add: same_resident_def)
  qed (use assms(1) in \<open>auto simp: persist_owed_checkpoints_def\<close>)
  then show "t_device t' = t_device t" "t_cache_state t' = t_cache_state t" by simp_all
qed

text \<open>Beginning a prompt keeps the tiers sound, whether it returns or fails.\<close>

lemma begin_prompt_keeps:
  assumes "clean ev" "sound t" "handed_sound t" "begin_prompt ev eos_ids prompt session loaded t = (r, t')"
  shows "sound t'" "handed_sound t'" "dv_id (t_device t') = dv_id (t_device t)" "t_cache_state t' = t_cache_state t"
proof -
  define c where "c = collect_disk_writes t"
  have "sound c" "handed_sound c" using assms(2,3) by (simp_all add: c_def collect_keeps)
  moreover have "t_device c = t_device t" "t_cache_state c = t_cache_state t"
    by (simp_all add: c_def collect_disk_writes_def Let_def split: option.splits prod.splits)
  ultimately have c: "sound c" "handed_sound c" "t_device c = t_device t" "t_cache_state c = t_cache_state t"
    by simp_all
  obtain u t1 where owed: "persist_owed_checkpoints ev prompt c = (u, t1)" by fastforce
  have t1: "sound t1" "handed_sound t1" "t_device t1 = t_device t" "t_cache_state t1 = t_cache_state t"
    using persist_owed_keeps [OF owed c(1,2)] persist_owed_resident [OF owed c(1,2)] c(3,4) by auto
  have "sound t' \<and> handed_sound t' \<and> dv_id (t_device t') = dv_id (t_device t) \<and> t_cache_state t' = t_cache_state t"
  proof (cases u)
    case (Inl er)
    then show ?thesis using assms(4) owed t1 by (simp add: begin_prompt_def c_def)
  next
    case (Inr x)
    obtain v t2 where res: "restore_reusable_prefix ev prompt (make_reuse_bounds prompt t1) session loaded t1 = (v, t2)"
      by fastforce
    have "t' = t2"
      using assms(4) owed Inr res by (cases v) (auto simp: begin_prompt_def c_def Let_def)
    then show ?thesis
      using restore_prefix_shrinks [OF assms(1) res] shrinks_sound [of t1 t2] t1 by (simp add: shrinks_def)
  qed
  then show "sound t'" "handed_sound t'" "dv_id (t_device t') = dv_id (t_device t)" "t_cache_state t' = t_cache_state t"
    by simp_all
qed

end
