(* ===== verification/Scheduler.thy ===== *)
theory Scheduler
  imports Upkeep
begin

text \<open>
  Who owns which buffer set (\<^verbatim>\<open>local-engine/src/bonsai_model/scheduler.rs\<close> and the prompt-cache part
  of \<^verbatim>\<open>generation.rs\<close>).  Every active generation owns one set of sequence buffers: one set is
  resident in the model, the others are parked with their generations or free in the pool, and the
  GPU tier of the prompt cache describes one of them.  The engine is the prompt-cache state with the
  active generations, the resident's owner and the pool; what a round samples is not modelled, only
  what it leaves in a set.
\<close>

section \<open>State\<close>

definition MAX_BATCH_SEQUENCES :: nat where "MAX_BATCH_SEQUENCES = 8"
definition POOLED_SEQUENCES :: nat where "POOLED_SEQUENCES = 1"

text \<open>\<open>gn_cancelled\<close> says that the stop reason is \<^verbatim>\<open>Cancelled\<close>; \<open>gn_load\<close> is the path of a disk
  snapshot still being read for it.\<close>

record generation =
  gn_id :: nat
  gn_prompt :: "u32 list"
  gn_session :: "string option"
  gn_max_tokens :: nat
  gn_token_ids :: "u32 list"
  gn_cancelled :: bool
  gn_done :: bool
  gn_prefill :: "prompt_prefill option"
  gn_snapshot :: "prompt_checkpoint option"
  gn_persisted :: bool
  gn_defer :: bool
  gn_load :: "string option"
  gn_state :: "device option"

record engine =
  en_tiers :: tiers
  en_active :: "generation list"
  en_resident :: "nat option"
  en_pool :: "device list"
  en_next :: nat
  en_next_state_id :: nat

definition owns :: "nat \<Rightarrow> generation \<Rightarrow> bool" where
  "owns i g \<longleftrightarrow> gn_id g = i"

section \<open>Swapping sets\<close>

text \<open>
  All sets of a model have one shape, so exchanging their handles fails only in growing the
  attention workspace, after the exchange: the model then holds the incoming set, and the outgoing
  one goes with the error.
\<close>

definition swap_sequence :: "bool \<Rightarrow> device \<Rightarrow> tiers \<Rightarrow> (engine_error + device) \<times> tiers" where
  "swap_sequence workspace_ok parked t =
     (if workspace_ok then Inr (t_device t) else Inl EngineError, set_device parked t)"

definition swap_remove :: "nat \<Rightarrow> 'a list \<Rightarrow> 'a list" where
  "swap_remove i xs = butlast (xs[i := last xs])"

definition new_sequence :: "bool \<Rightarrow> engine \<Rightarrow> (engine_error + device) \<times> engine" where
  "new_sequence alloc_ok e =
     (if alloc_ok
      then (Inr \<lparr>dv_id = en_next_state_id e, dv_rows = (\<lambda>_. []), dv_seq = []\<rparr>,
            e\<lparr>en_next_state_id := Suc (en_next_state_id e)\<rparr>)
      else (Inl EngineError, e))"

lemma length_swap_remove [simp]: "length (swap_remove i xs) = length xs - 1"
  by (simp add: swap_remove_def)

function release_loop :: "nat \<Rightarrow> device list \<Rightarrow> device list" where
  "release_loop cache_state pool =
     (if length pool > POOLED_SEQUENCES
      then release_loop cache_state
             (swap_remove (case position (\<lambda>d. dv_id d \<noteq> cache_state) pool of Some i \<Rightarrow> i | None \<Rightarrow> 0) pool)
      else pool)"
  by pat_completeness auto
termination
  by (relation "measure (\<lambda>(_, pool). length pool)") (auto simp: POOLED_SEQUENCES_def)

declare release_loop.simps [simp del]

definition release :: "device \<Rightarrow> engine \<Rightarrow> engine" where
  "release state e = e\<lparr>en_pool := release_loop (t_cache_state (en_tiers e)) (en_pool e @ [state])\<rparr>"

fun set_state :: "nat \<Rightarrow> device option \<Rightarrow> generation list \<Rightarrow> generation list" where
  "set_state i s [] = []"
| "set_state i s (g # gs) = (if gn_id g = i then g\<lparr>gn_state := s\<rparr> # gs else g # set_state i s gs)"

definition park_outgoing :: "device \<Rightarrow> engine \<Rightarrow> engine" where
  "park_outgoing slot e =
     (case en_resident e of
        Some owner \<Rightarrow>
          if list_ex (owns owner) (en_active e)
          then e\<lparr>en_active := set_state owner (Some slot) (en_active e)\<rparr>
          else release slot e
      | None \<Rightarrow> release slot e)"

text \<open>An index past the active generations would panic.\<close>

definition make_resident :: "bool \<Rightarrow> nat \<Rightarrow> engine \<Rightarrow> (engine_error + unit) \<times> engine" where
  "make_resident workspace_ok index e =
     (if length (en_active e) \<le> index then (Inl EngineError, e)
      else
        let g = en_active e ! index; gid = gn_id g in
        if en_resident e = Some gid then (Inr (), e)
        else
          case gn_state g of
            None \<Rightarrow> (Inl EngineError, e)
          | Some slot \<Rightarrow>
              let e1 = e\<lparr>en_active := (en_active e)[index := g\<lparr>gn_state := None\<rparr>]\<rparr> in
              (case swap_sequence workspace_ok slot (en_tiers e1) of
                 (Inl er, t) \<Rightarrow> (Inl er, e1\<lparr>en_tiers := t\<rparr>)
               | (Inr out, t) \<Rightarrow>
                   (Inr (), (park_outgoing out (e1\<lparr>en_tiers := t\<rparr>))\<lparr>en_resident := Some gid\<rparr>)))"

text \<open>The set a new generation takes when the resident one is owned: the pooled set the tier
  describes, else the last pooled one, else a fresh one.\<close>

definition cached_in_pool :: "engine \<Rightarrow> nat option" where
  "cached_in_pool e = position (\<lambda>d. dv_id d = t_cache_state (en_tiers e)) (en_pool e)"

definition take_free_set :: "bool \<Rightarrow> engine \<Rightarrow> (engine_error + device) \<times> engine" where
  "take_free_set alloc_ok e =
     (case (case cached_in_pool e of
              Some i \<Rightarrow> Some i
            | None \<Rightarrow> if en_pool e = [] then None else Some (length (en_pool e) - 1)) of
        Some i \<Rightarrow> (Inr (en_pool e ! i), e\<lparr>en_pool := swap_remove i (en_pool e)\<rparr>)
      | None \<Rightarrow> new_sequence alloc_ok e)"

definition resident_owned :: "engine \<Rightarrow> bool" where
  "resident_owned e \<longleftrightarrow>
     (case en_resident e of Some owner \<Rightarrow> list_ex (owns owner) (en_active e) | None \<Rightarrow> False)"

definition make_room_for :: "bool \<Rightarrow> bool \<Rightarrow> nat \<Rightarrow> engine \<Rightarrow> (engine_error + unit) \<times> engine" where
  "make_room_for alloc_ok workspace_ok gid e =
     tbind
       (if resident_owned e then
          tbind (take_free_set alloc_ok e) (\<lambda>slot e1.
            case swap_sequence workspace_ok slot (en_tiers e1) of
              (Inl er, t) \<Rightarrow> (Inl er, e1\<lparr>en_tiers := t\<rparr>)
            | (Inr out, t) \<Rightarrow> (Inr (), park_outgoing out (e1\<lparr>en_tiers := t\<rparr>)))
        else if t_cache_state (en_tiers e) \<noteq> dv_id (t_device (en_tiers e)) then
          (case cached_in_pool e of
             None \<Rightarrow> (Inr (), e)
           | Some i \<Rightarrow>
               let e1 = e\<lparr>en_pool := swap_remove i (en_pool e)\<rparr> in
               (case swap_sequence workspace_ok (en_pool e ! i) (en_tiers e1) of
                  (Inl er, t) \<Rightarrow> (Inl er, e1\<lparr>en_tiers := t\<rparr>)
                | (Inr out, t) \<Rightarrow> (Inr (), release out (e1\<lparr>en_tiers := t\<rparr>))))
        else (Inr (), e))
       (\<lambda>_ e2. (Inr (), e2\<lparr>en_resident := Some gid\<rparr>))"

section \<open>A generation's life\<close>

text \<open>\<open>valid\<close> is what validating the request says.\<close>

definition begin_generation ::
  "env \<Rightarrow> u32 list \<Rightarrow> bool \<Rightarrow> nat \<Rightarrow> u32 list \<Rightarrow> string option \<Rightarrow> nat \<Rightarrow> tiers
   \<Rightarrow> (engine_error + generation) \<times> tiers" where
  "begin_generation ev eos_ids valid gid prompt session max_tokens t =
     (let g = \<lparr>gn_id = gid, gn_prompt = prompt, gn_session = session, gn_max_tokens = max_tokens,
               gn_token_ids = [], gn_cancelled = False, gn_done = False, gn_prefill = None,
               gn_snapshot = None, gn_persisted = False, gn_defer = False, gn_load = None,
               gn_state = None\<rparr> in
      if \<not> valid then (Inl EngineError, t)
      else if max_tokens = 0 then (Inr (g\<lparr>gn_done := True\<rparr>), t)
      else
        tbind (begin_prompt ev eos_ids prompt session None t) (\<lambda>(plan, source, load) t1.
          (Inr (g\<lparr>gn_prefill := Some plan, gn_load := load\<rparr>), t1)))"

definition admit ::
  "env \<Rightarrow> bool \<Rightarrow> bool \<Rightarrow> u32 list \<Rightarrow> bool \<Rightarrow> u32 list \<Rightarrow> string option \<Rightarrow> nat \<Rightarrow> engine
   \<Rightarrow> (engine_error + nat) \<times> engine" where
  "admit ev alloc_ok workspace_ok eos_ids valid prompt session max_tokens e =
     (if MAX_BATCH_SEQUENCES \<le> length (en_active e) then (Inl EngineError, e)
      else
        let gid = Suc (en_next e) in
        tbind (make_room_for alloc_ok workspace_ok gid (e\<lparr>en_next := gid\<rparr>)) (\<lambda>_ e1.
          case begin_generation ev eos_ids valid gid prompt session max_tokens (claim_gpu_cache (en_tiers e1)) of
            (Inr g, t) \<Rightarrow> (Inr gid, e1\<lparr>en_tiers := t, en_active := en_active e1 @ [g]\<rparr>)
          | (Inl er, t) \<Rightarrow> (Inl er, e1\<lparr>en_tiers := clear_gpu_cache t, en_resident := None\<rparr>)))"

definition restart_prompt ::
  "env \<Rightarrow> u32 list \<Rightarrow> loaded option \<Rightarrow> generation \<Rightarrow> tiers \<Rightarrow> (engine_error + generation) \<times> tiers" where
  "restart_prompt ev eos_ids loaded g t =
     tbind (begin_prompt ev eos_ids (gn_prompt g) (gn_session g) loaded (claim_gpu_cache t))
       (\<lambda>(plan, source, load) t1. (Inr (g\<lparr>gn_prefill := Some plan, gn_load := load\<rparr>), t1))"

text \<open>\<open>cancel_observed\<close> is what the model reports after the pass; the first sample of a complete
  prompt may fail.\<close>

definition prefill_round ::
  "env \<Rightarrow> pass \<Rightarrow> bool \<Rightarrow> bool \<Rightarrow> nat \<Rightarrow> generation \<Rightarrow> tiers \<Rightarrow> (engine_error + unit) \<times> generation \<times> tiers" where
  "prefill_round ev pass cancel_observed sample_ok budget g t =
     (if gn_defer g then (Inr (), g\<lparr>gn_defer := False\<rparr>, t)
      else
        case gn_prefill g of
          None \<Rightarrow> (Inr (), g, t)
        | Some plan \<Rightarrow>
            (case advance_prompt ev pass (gn_prompt g) (gn_session g) plan budget t of
               (Inl er, _, t1) \<Rightarrow> (Inl er, g\<lparr>gn_prefill := None\<rparr>, t1)
             | (Inr complete, plan1, t1) \<Rightarrow>
                 if cancel_observed
                 then (Inr (), g\<lparr>gn_prefill := None, gn_cancelled := True, gn_done := True\<rparr>, t1)
                 else if \<not> complete then (Inr (), g\<lparr>gn_prefill := Some plan1\<rparr>, t1)
                 else
                   let g1 = g\<lparr>gn_prefill := None, gn_snapshot := pf_snapshot plan1, gn_persisted := pf_persisted plan1\<rparr>
                   in (if sample_ok then Inr () else Inl EngineError, g1, t1)))"

definition mark_cancelled :: "generation \<Rightarrow> generation" where
  "mark_cancelled g = (if gn_done g then g else g\<lparr>gn_cancelled := True, gn_done := True\<rparr>)"

section \<open>The end of a generation\<close>

definition read_pinned :: "env \<Rightarrow> prompt_checkpoint \<Rightarrow> tiers \<Rightarrow> (engine_error + snapshot option) \<times> tiers" where
  "read_pinned ev c t =
     (if dv_position (t_device t) < ck_position c then (Inl EngineError, t)
      else if ev_purged_pinned ev c then (Inr None, t)
      else (Inr (prompt_snapshot_at (ev_section_bytes ev) c (t_device t)), t))"

definition would_keep_tail :: "env \<Rightarrow> u32 list \<Rightarrow> bool \<Rightarrow> tiers \<Rightarrow> bool \<times> tiers" where
  "would_keep_tail ev tail to_disk t =
     (if host_would_keep ev (length tail) t then (True, t)
      else if to_disk then disk_would_keep ev tail False t else (False, t))"

text \<open>The finished sequence is recorded: \<open>others\<close> says whether another generation is active.\<close>

definition record_finished :: "env \<Rightarrow> bool \<Rightarrow> generation \<Rightarrow> tiers \<Rightarrow> (engine_error + unit) \<times> tiers" where
  "record_finished ev others g t0 =
     (let tokens = gn_prompt g @ gn_token_ids g;
          tail = take (length (gn_prompt g) - 1) (gn_prompt g);
          session = gn_session g;
          t1 = t0\<lparr>t_cached_tokens := tokens\<rparr>;
          to_disk = (\<not> gn_persisted g \<or> \<not> holds_checkpoint tail t1 \<or> others)
      in
      case would_keep_tail ev tail to_disk t1 of
        (keep, t2) \<Rightarrow>
          tbind (case gn_snapshot g of
                   Some c \<Rightarrow> if keep then read_pinned ev c t2 else (Inr None, t2)
                 | None \<Rightarrow> (Inr None, t2)) (\<lambda>snap t3.
          tbind (save_prompt_checkpoint ev tokens False t3) (\<lambda>_ t4.
          tbind (case snap of
                   Some s \<Rightarrow> save_session_snapshot ev tail session (Some s) to_disk False t4
                 | None \<Rightarrow> (Inr (), t4)) (\<lambda>_ t5.
            let t6 = (if \<not> to_disk \<and> \<not> host_would_keep ev (length tail) t5
                      then owe_to_disk tail session t5 else t5)
            in save_session_snapshot ev tokens session None False False t6))))"

text \<open>The last emitted token is decoded into the set when only it is missing.\<close>

definition decode_last :: "bool \<Rightarrow> generation \<Rightarrow> tiers \<Rightarrow> (engine_error + unit) \<times> tiers" where
  "decode_last decode_ok g t =
     (if dv_position (t_device t) + 1 = length (gn_prompt g) + length (gn_token_ids g) \<and> gn_token_ids g \<noteq> []
      then if decode_ok then (Inr (), set_device (dv_append (last (gn_token_ids g)) (t_device t)) t)
           else (Inl EngineError, t)
      else (Inr (), t))"

definition finish_generation ::
  "env \<Rightarrow> bool \<Rightarrow> bool \<Rightarrow> bool \<Rightarrow> generation \<Rightarrow> tiers \<Rightarrow> (engine_error + unit) \<times> tiers" where
  "finish_generation ev head_ok decode_ok others g t =
     (if gn_max_tokens g = 0 then (Inr (), t)
      else if gn_cancelled g then (Inr (), keep_reached_prompt (gn_prompt g) t)
      else if \<not> head_ok then (Inl EngineError, t)
      else
        tbind (decode_last decode_ok g (claim_gpu_cache t)) (\<lambda>_ t1.
          if dv_position (t_device t1) = length (gn_prompt g) + length (gn_token_ids g)
          then record_finished ev others g t1
          else (Inr (), keep_reached_prompt (gn_prompt g) t1)))"

text \<open>\<open>close\<close> and \<open>discard\<close> of a generation already taken from the active ones.\<close>

definition close ::
  "env \<Rightarrow> bool \<Rightarrow> bool \<Rightarrow> bool \<Rightarrow> generation \<Rightarrow> engine \<Rightarrow> (engine_error + unit) \<times> engine" where
  "close ev workspace_ok head_ok decode_ok g e =
     (let index = length (en_active e) in
      case make_resident workspace_ok index (e\<lparr>en_active := en_active e @ [g]\<rparr>) of
        (r, e1) \<Rightarrow>
          let e2 = e1\<lparr>en_active := vec_remove index (en_active e1)\<rparr> in
          (case r of
             Inl er \<Rightarrow> (Inl er, e2)
           | Inr _ \<Rightarrow>
               (case finish_generation ev head_ok decode_ok (en_active e2 \<noteq> []) g (en_tiers e2) of
                  (result, t) \<Rightarrow>
                    (result, e2\<lparr>en_tiers := t,
                                en_resident := (if en_resident e2 = Some (gn_id g) then None else en_resident e2)\<rparr>))))"

definition discard :: "generation \<Rightarrow> engine \<Rightarrow> engine" where
  "discard g e =
     (if en_resident e = Some (gn_id g)
      then e\<lparr>en_resident := None, en_tiers := clear_gpu_cache (en_tiers e)\<rparr>
      else case gn_state g of Some state \<Rightarrow> release state e | None \<Rightarrow> e)"

text \<open>A failure no sequence owns drops every generation.\<close>

fun release_all :: "generation list \<Rightarrow> engine \<Rightarrow> engine" where
  "release_all [] e = e"
| "release_all (g # gs) e =
     release_all gs (case gn_state g of Some state \<Rightarrow> release state e | None \<Rightarrow> e)"

definition drop_all :: "engine \<Rightarrow> engine" where
  "drop_all e =
     (let e1 = release_all (en_active e) (e\<lparr>en_active := []\<rparr>)
      in e1\<lparr>en_resident := None, en_tiers := clear_gpu_cache (en_tiers e1)\<rparr>)"

section \<open>Which prompt prefills next\<close>

definition awaiting_disk :: "(string \<Rightarrow> bool) \<Rightarrow> generation \<Rightarrow> bool" where
  "awaiting_disk finished g \<longleftrightarrow> (case gn_load g of Some path \<Rightarrow> \<not> finished path | None \<Rightarrow> False)"

definition prefill_remaining :: "generation \<Rightarrow> nat option" where
  "prefill_remaining g = map_option (\<lambda>plan. pf_remaining plan (length (gn_prompt g))) (gn_prefill g)"

definition prefill_total :: "generation \<Rightarrow> nat" where
  "prefill_total g = (case gn_prefill g of Some plan \<Rightarrow> length (gn_prompt g) - pf_reused plan | None \<Rightarrow> 0)"

definition decoding :: "generation \<Rightarrow> bool" where
  "decoding g \<longleftrightarrow> \<not> gn_done g \<and> gn_prefill g = None"

definition next_prefill :: "(string \<Rightarrow> bool) \<Rightarrow> engine \<Rightarrow> (nat \<times> nat) option" where
  "next_prefill finished e =
     map_option (\<lambda>(index, remaining, _). (index, remaining))
       (min_by_key (\<lambda>(_, remaining, loading). (loading, remaining))
         (List.map_filter
           (\<lambda>(index, g). map_option (\<lambda>remaining. (index, remaining, awaiting_disk finished g)) (prefill_remaining g))
           (filter (\<lambda>(_, g). \<not> gn_done g) (enumerate 0 (en_active e)))))"

definition reserved_tokens :: "generation \<Rightarrow> nat" where
  "reserved_tokens g = length (gn_prompt g) + gn_max_tokens g"

text \<open>\<open>usize\<close> has 64 bits and the sums saturate.\<close>

definition sat_add :: "nat \<Rightarrow> nat \<Rightarrow> nat" where
  "sat_add a b = min (a + b) (2 ^ 64 - 1)"

definition sat_mul :: "nat \<Rightarrow> nat \<Rightarrow> nat" where
  "sat_mul a b = min (a * b) (2 ^ 64 - 1)"

definition can_admit :: "nat \<Rightarrow> nat \<Rightarrow> nat \<Rightarrow> nat \<Rightarrow> engine \<Rightarrow> bool" where
  "can_admit state_tokens context prompt_tokens max_tokens e \<longleftrightarrow>
     (if en_active e = [] then True
      else if MAX_BATCH_SEQUENCES \<le> length (en_active e) then False
      else
        sat_add (sat_add (sat_add (foldl sat_add 0 (map reserved_tokens (en_active e))) prompt_tokens) max_tokens)
          (sat_mul (length (en_active e)) state_tokens) \<le> context)"

section \<open>Ownership\<close>

text \<open>
  Every active generation with the set it owns, and the sets no generation owns.  Swapping and
  parking keep the first and lose at most sets of the second.
\<close>

definition device_of :: "engine \<Rightarrow> generation \<Rightarrow> device" where
  "device_of e g = (case gn_state g of Some d \<Rightarrow> d | None \<Rightarrow> t_device (en_tiers e))"

definition unparked :: "generation \<Rightarrow> generation" where
  "unparked g = g\<lparr>gn_state := None\<rparr>"

definition owned :: "engine \<Rightarrow> (generation \<times> device) list" where
  "owned e = map (\<lambda>g. (unparked g, device_of e g)) (en_active e)"

definition free :: "engine \<Rightarrow> device list" where
  "free e = (if resident_owned e then [] else [t_device (en_tiers e)]) @ en_pool e"

text \<open>A generation is parked exactly when it is not the resident, generations and sets have their
  own identities, and identities are never given out twice.\<close>

definition placed :: "engine \<Rightarrow> bool" where
  "placed e \<longleftrightarrow>
     distinct (map gn_id (en_active e)) \<and>
     (\<forall>g\<in>set (en_active e). gn_id g \<le> en_next e \<and> (gn_state g = None \<longleftrightarrow> en_resident e = Some (gn_id g))) \<and>
     (\<forall>i. en_resident e = Some i \<longrightarrow> i \<le> en_next e) \<and>
     length (en_pool e) \<le> POOLED_SEQUENCES"

definition all_sets :: "engine \<Rightarrow> device list" where
  "all_sets e = map snd (owned e) @ free e"

definition separate :: "engine \<Rightarrow> bool" where
  "separate e \<longleftrightarrow>
     distinct (map dv_id (all_sets e)) \<and> (\<forall>d\<in>set (all_sets e). dv_id d < en_next_state_id e) \<and>
     t_cache_state (en_tiers e) < en_next_state_id e"

lemma resident_owned_iff: "resident_owned e \<longleftrightarrow> (\<exists>g\<in>set (en_active e). en_resident e = Some (gn_id g))"
  by (auto simp: resident_owned_def list_ex_iff owns_def split: option.splits)

lemma set_state_map:
  "distinct (map gn_id gs) \<Longrightarrow> set_state i s gs = map (\<lambda>g. if gn_id g = i then g\<lparr>gn_state := s\<rparr> else g) gs"
  by (induction gs) (auto intro!: map_idI [symmetric] simp: image_iff)

lemma update_map:
  "distinct (map gn_id gs) \<Longrightarrow> k < length gs \<Longrightarrow>
   gs[k := f (gs ! k)] = map (\<lambda>g. if gn_id g = gn_id (gs ! k) then f g else g) gs"
  by (rule nth_equalityI) (auto simp: nth_list_update distinct_conv_nth)

lemma mset_swap_remove: "i < length xs \<Longrightarrow> mset xs = add_mset (xs ! i) (mset (swap_remove i xs))"
proof -
  assume i: "i < length xs"
  then have ne: "xs \<noteq> []" by auto
  define ys where "ys = xs[i := last xs]"
  have "last ys = last xs" using i ne by (simp add: ys_def last_list_update)
  then have "mset ys = add_mset (last xs) (mset (butlast ys))"
    using i ne append_butlast_last_id [of ys] by (metis list_update_nonempty mset.simps(2) mset_append
        union_mset_add_mset_right add.right_neutral mset.simps(1) ys_def)
  moreover have "mset ys = mset xs - {#xs ! i#} + {#last xs#}"
    using i by (simp add: ys_def mset_update)
  ultimately show ?thesis
    using insert_DiffM [OF nth_mem_mset [OF i]] by (simp add: swap_remove_def ys_def [symmetric])
qed

lemma release_loop_sub: "mset (release_loop c pool) \<subseteq># mset pool \<and> length (release_loop c pool) \<le> POOLED_SEQUENCES"
proof (induction c pool rule: release_loop.induct)
  case (1 c pool)
  show ?case
  proof (cases "length pool > POOLED_SEQUENCES")
    case True
    define i where "i = (case position (\<lambda>d. dv_id d \<noteq> c) pool of Some i \<Rightarrow> i | None \<Rightarrow> 0)"
    have "i < length pool" using True by (auto simp: i_def dest: position_SomeD split: option.splits)
    then have "mset (swap_remove i pool) \<subseteq># mset pool" using mset_swap_remove [of i pool] by simp
    then show ?thesis
      using 1 [OF True] True subset_mset.order_trans
      by (subst (1 2) release_loop.simps) (auto simp: i_def [symmetric])
  qed (simp add: release_loop.simps)
qed

lemma distinct_sub:
  assumes "mset xs \<subseteq># mset ys" "distinct (map f ys)"
  shows "distinct (map f xs)"
proof -
  have "image_mset f (mset xs) \<subseteq># image_mset f (mset ys)" using assms(1) by (rule image_mset_subseteq_mono)
  then have "count (mset (map f xs)) y \<le> count (mset (map f ys)) y" for y
    by (simp add: mset_subset_eq_count)
  moreover have "count (mset (map f ys)) y \<le> 1" for y
    using assms(2) distinct_count_atmost_1 [of "map f ys"] by (simp split: if_splits)
  ultimately have le: "count (mset (map f xs)) y \<le> 1" for y using le_trans by blast
  show ?thesis unfolding distinct_count_atmost_1
  proof
    fix a
    show "count (mset (map f xs)) a = (if a \<in> set (map f xs) then 1 else 0)"
      using le [of a] count_greater_zero_iff [of "mset (map f xs)" a] unfolding set_mset_mset
      by (cases "count (mset (map f xs)) a") (auto simp del: mset_map)
  qed
qed

text \<open>What moving sets around keeps.\<close>

definition moved :: "engine \<Rightarrow> engine \<Rightarrow> bool" where
  "moved e e' \<longleftrightarrow>
     owned e' = owned e \<and> mset (free e') \<subseteq># mset (free e) \<and>
     en_tiers e' = set_device (t_device (en_tiers e')) (en_tiers e) \<and>
     en_next e' = en_next e \<and> en_next_state_id e' = en_next_state_id e"

lemma moved_refl [simp]: "moved e e"
  by (simp add: moved_def)

lemma moved_cache_state: "moved e e' \<Longrightarrow> t_cache_state (en_tiers e') = t_cache_state (en_tiers e)"
  unfolding moved_def by (metis tiers.select_convs(13) tiers.surjective tiers.update_convs(1))

lemma moved_separate:
  assumes "moved e e'" "separate e"
  shows "separate e'"
proof -
  have sub: "mset (all_sets e') \<subseteq># mset (all_sets e)" using assms(1) by (simp add: all_sets_def moved_def)
  have "distinct (map dv_id (all_sets e'))"
    by (rule distinct_sub [OF sub]) (use assms(2) in \<open>simp add: separate_def\<close>)
  moreover have "set (all_sets e') \<subseteq> set (all_sets e)" using set_mset_mono [OF sub] by simp
  moreover have "en_next_state_id e' = en_next_state_id e" using assms(1) by (simp add: moved_def)
  ultimately show ?thesis using assms(2) moved_cache_state [OF assms(1)] by (auto simp: separate_def)
qed

lemma owned_ids: "map gn_id (en_active e) = map (gn_id \<circ> fst) (owned e)"
  by (simp add: owned_def unparked_def)

lemma release_frame:
  "en_active (release d e) = en_active e" "en_tiers (release d e) = en_tiers e" "en_resident (release d e) = en_resident e"
  "en_next (release d e) = en_next e" "en_next_state_id (release d e) = en_next_state_id e"
  "mset (en_pool (release d e)) \<subseteq># add_mset d (mset (en_pool e))" "length (en_pool (release d e)) \<le> POOLED_SEQUENCES"
  using release_loop_sub [of "t_cache_state (en_tiers e)" "en_pool e @ [d]"] by (simp_all add: release_def)

lemma placed_resident:
  assumes "placed e" "map gn_id (en_active e') = map gn_id (en_active e)" "en_next e' = en_next e"
    and "en_resident e' = Some i" "i \<in> gn_id ` set (en_active e)" "length (en_pool e') \<le> POOLED_SEQUENCES"
    and "\<And>h. h \<in> set (en_active e') \<Longrightarrow> gn_state h = None \<longleftrightarrow> gn_id h = i"
  shows "placed e'"
proof -
  have "gn_id ` set (en_active e') = gn_id ` set (en_active e)"
    using arg_cong [OF assms(2), of set] by simp
  moreover have "j \<le> en_next e" if "j \<in> gn_id ` set (en_active e)" for j
    using assms(1) that by (auto simp: placed_def)
  ultimately have "gn_id h \<le> en_next e'" if "h \<in> set (en_active e')" for h
    using that assms(3) by (metis image_eqI)
  moreover have "i \<le> en_next e'" using assms(1,3,5) by (auto simp: placed_def)
  ultimately show ?thesis
    using assms(1,2,4,6,7) unfolding placed_def by auto
qed

lemma placed_new:
  assumes "placed e" "map gn_id (en_active e') = map gn_id (en_active e)" "en_next e' = en_next e"
    and "en_resident e' = Some j" "j \<le> en_next e" "\<And>g. g \<in> set (en_active e) \<Longrightarrow> gn_id g < j"
    and "length (en_pool e') \<le> POOLED_SEQUENCES" "\<And>h. h \<in> set (en_active e') \<Longrightarrow> gn_state h \<noteq> None"
  shows "placed e'"
proof -
  have ids: "gn_id ` set (en_active e') = gn_id ` set (en_active e)"
    using arg_cong [OF assms(2), of set] by simp
  have "gn_id h \<le> en_next e' \<and> (gn_state h = None \<longleftrightarrow> en_resident e' = Some (gn_id h))"
    if "h \<in> set (en_active e')" for h
  proof -
    have "gn_id h \<in> gn_id ` set (en_active e)" using that ids by blast
    then have "gn_id h < j" using assms(6) by auto
    then show ?thesis using assms(3-5) assms(8) [OF that] by simp
  qed
  moreover have "distinct (map gn_id (en_active e'))" using assms(1,2) by (simp add: placed_def)
  ultimately show ?thesis using assms(3-5,7) unfolding placed_def by simp
qed

text \<open>The generation \<open>g\<close> comes in from its slot; the resident set goes to the generation that owns it,
  or is free.\<close>

definition swapped_in :: "generation \<Rightarrow> device \<Rightarrow> engine \<Rightarrow> engine \<Rightarrow> bool" where
  "swapped_in g slot e e' \<longleftrightarrow> en_tiers e' = set_device slot (en_tiers e) \<and> en_resident e' = Some (gn_id g) \<and>
     en_next e' = en_next e \<and> en_next_state_id e' = en_next_state_id e \<and> length (en_pool e') \<le> POOLED_SEQUENCES"

lemma same_slot:
  assumes "placed e" "g \<in> set (en_active e)" "h \<in> set (en_active e)" "gn_id h = gn_id g"
  shows "h = g"
  using assms by (metis placed_def distinct_map inj_onD)

lemma swap_in_moves:
  assumes p: "placed e" and g: "g \<in> set (en_active e)" "gn_state g = Some slot" and s: "swapped_in g slot e e'"
    and act: "en_active e' = map put (en_active e)" and free: "mset (free e') \<subseteq># mset (free e)"
    and put: "\<And>h. h \<in> set (en_active e) \<Longrightarrow> gn_id (put h) = gn_id h \<and> unparked (put h) = unparked h \<and>
        device_of e' (put h) = device_of e h \<and> (gn_state (put h) = None \<longleftrightarrow> gn_id h = gn_id g)"
  shows "moved e e'" "placed e'"
proof -
  have "owned e' = owned e" using put by (simp add: owned_def act)
  then show "moved e e'" using s free by (simp add: moved_def swapped_in_def)
  have "map gn_id (en_active e') = map gn_id (en_active e)" using put by (simp add: act)
  moreover have "gn_state h = None \<longleftrightarrow> gn_id h = gn_id g" if h: "h \<in> set (en_active e')" for h
  proof -
    obtain x where "x \<in> set (en_active e)" "h = put x" using h by (auto simp: act)
    then show ?thesis using put [of x] by simp
  qed
  ultimately show "placed e'"
    using placed_resident [OF p, of e' "gn_id g"] s g(1) by (simp add: swapped_in_def)
qed

lemma resident_owned_swap:
  assumes "g \<in> set (en_active e)" "swapped_in g slot e e'" "en_active e' = map put (en_active e)" "gn_id (put g) = gn_id g"
  shows "resident_owned e'"
  using assms(1,2,4) unfolding resident_owned_iff assms(3) swapped_in_def by (intro bexI [of _ "put g"]) auto

lemma swap_in_owned:
  assumes p: "placed e" and g: "g \<in> set (en_active e)" "gn_state g = Some slot" and s: "swapped_in g slot e e'"
    and o: "o' \<in> set (en_active e)" "en_resident e = Some (gn_id o')" "en_pool e' = en_pool e"
    and act: "en_active e' = map (\<lambda>h. if gn_id h = gn_id o' then h\<lparr>gn_state := Some (t_device (en_tiers e))\<rparr>
        else if gn_id h = gn_id g then h\<lparr>gn_state := None\<rparr> else h) (en_active e)"
  shows "moved e e'" "placed e'"
proof -
  have "gn_state h = None \<longleftrightarrow> en_resident e = Some (gn_id h)" if "h \<in> set (en_active e)" for h
    using p that by (simp add: placed_def)
  then have state: "gn_state h = None \<longleftrightarrow> gn_id h = gn_id o'" if "h \<in> set (en_active e)" for h
    using that o(2) by auto
  have ne: "gn_id o' \<noteq> gn_id g" using state [OF g(1)] g(2) by auto
  have "resident_owned e'" by (rule resident_owned_swap [OF g(1) s act]) (use ne in simp)
  moreover have "resident_owned e" using o by (auto simp: resident_owned_iff)
  ultimately have free: "mset (free e') \<subseteq># mset (free e)" using o(3) by (simp add: free_def)
  let ?put = "\<lambda>h. if gn_id h = gn_id o' then h\<lparr>gn_state := Some (t_device (en_tiers e))\<rparr>
      else if gn_id h = gn_id g then h\<lparr>gn_state := None\<rparr> else h"
  have put: "gn_id (?put h) = gn_id h \<and> unparked (?put h) = unparked h \<and> device_of e' (?put h) = device_of e h \<and>
      (gn_state (?put h) = None \<longleftrightarrow> gn_id h = gn_id g)" if h: "h \<in> set (en_active e)" for h
  proof (cases "gn_id h = gn_id o'")
    case True
    then show ?thesis using state [OF h] ne by (simp add: unparked_def device_of_def)
  next
    case False
    then show ?thesis
      using state [OF h] same_slot [OF p g(1) h] g(2) s
      by (cases "gn_id h = gn_id g") (auto simp: unparked_def device_of_def swapped_in_def)
  qed
  show "moved e e'" "placed e'" by (rule swap_in_moves [OF p g s act free put], assumption)+
qed

lemma swap_in_free:
  assumes p: "placed e" and g: "g \<in> set (en_active e)" "gn_state g = Some slot" and s: "swapped_in g slot e e'"
    and un: "\<not> resident_owned e" "mset (en_pool e') \<subseteq># add_mset (t_device (en_tiers e)) (mset (en_pool e))"
    and act: "en_active e' = map (\<lambda>h. if gn_id h = gn_id g then h\<lparr>gn_state := None\<rparr> else h) (en_active e)"
  shows "moved e e'" "placed e'"
proof -
  have state: "gn_state h \<noteq> None" if "h \<in> set (en_active e)" for h
    using p un(1) that by (auto simp: placed_def resident_owned_iff)
  have "resident_owned e'" by (rule resident_owned_swap [OF g(1) s act]) simp
  then have free: "mset (free e') \<subseteq># mset (free e)" using un by (simp add: free_def)
  let ?put = "\<lambda>h. if gn_id h = gn_id g then h\<lparr>gn_state := None\<rparr> else h"
  have put: "gn_id (?put h) = gn_id h \<and> unparked (?put h) = unparked h \<and> device_of e' (?put h) = device_of e h \<and>
      (gn_state (?put h) = None \<longleftrightarrow> gn_id h = gn_id g)" if h: "h \<in> set (en_active e)" for h
    using state [OF h] same_slot [OF p g(1) h] g(2) s
    by (cases "gn_id h = gn_id g") (auto simp: unparked_def device_of_def swapped_in_def)
  show "moved e e'" "placed e'" by (rule swap_in_moves [OF p g s act free put], assumption)+
qed

lemma make_resident_moves:
  assumes run: "make_resident True k e = (r, e')" and p: "placed e" and k: "k < length (en_active e)"
  shows "r = Inr ()" "moved e e'" "placed e'" "en_resident e' = Some (gn_id (en_active e ! k))"
proof -
  define g where "g = en_active e ! k"
  have g: "g \<in> set (en_active e)" using k by (simp add: g_def)
  have ids: "distinct (map gn_id (en_active e))" using p by (simp add: placed_def)
  have "r = Inr () \<and> moved e e' \<and> placed e' \<and> en_resident e' = Some (gn_id g)"
  proof (cases "en_resident e = Some (gn_id g)")
    case True
    then show ?thesis using run k p by (simp add: make_resident_def g_def [symmetric] Let_def)
  next
    case False
    then obtain slot where slot: "gn_state g = Some slot" using p g by (auto simp: placed_def)
    define as where "as = map (\<lambda>h. if gn_id h = gn_id g then h\<lparr>gn_state := None\<rparr> else h) (en_active e)"
    define out where "out = t_device (en_tiers e)"
    define e1 where "e1 = e\<lparr>en_active := as, en_tiers := set_device slot (en_tiers e)\<rparr>"
    have as: "(en_active e)[k := g\<lparr>gn_state := None\<rparr>] = as"
      using update_map [OF ids k, of "\<lambda>h. h\<lparr>gn_state := None\<rparr>"] by (simp add: as_def g_def)
    have res: "r = Inr ()" and e': "e' = (park_outgoing out e1)\<lparr>en_resident := Some (gn_id g)\<rparr>"
      using run k False slot
      by (simp_all add: make_resident_def g_def [symmetric] Let_def as swap_sequence_def e1_def out_def)
    show ?thesis
    proof (cases "resident_owned e")
      case True
      then obtain o' where o: "o' \<in> set (en_active e)" "en_resident e = Some (gn_id o')"
        by (auto simp: resident_owned_iff)
      have "list_ex (owns (gn_id o')) as"
        using o False by (auto simp: as_def list_ex_iff owns_def intro!: bexI [of _ o'])
      then have e2: "park_outgoing out e1 = e1\<lparr>en_active := set_state (gn_id o') (Some out) as\<rparr>"
        using o(2) by (simp add: park_outgoing_def e1_def)
      have "set_state (gn_id o') (Some out) as = map (\<lambda>h. if gn_id h = gn_id o' then h\<lparr>gn_state := Some out\<rparr>
          else if gn_id h = gn_id g then h\<lparr>gn_state := None\<rparr> else h) (en_active e)"
      proof -
        have "map gn_id as = map gn_id (en_active e)" by (simp add: as_def)
        then have "set_state (gn_id o') (Some out) as =
            map (\<lambda>h. if gn_id h = gn_id o' then h\<lparr>gn_state := Some out\<rparr> else h) as"
          using set_state_map [of as] ids by simp
        then show ?thesis using o(2) False by (auto simp: as_def)
      qed
      then have act: "en_active e' = map (\<lambda>h. if gn_id h = gn_id o' then h\<lparr>gn_state := Some (t_device (en_tiers e))\<rparr>
          else if gn_id h = gn_id g then h\<lparr>gn_state := None\<rparr> else h) (en_active e)"
        by (simp add: e' e2) (simp add: out_def)
      have "swapped_in g slot e e'" "en_pool e' = en_pool e"
        using p unfolding e' e2 by (simp_all add: e1_def swapped_in_def placed_def)
      then show ?thesis using swap_in_owned [OF p g slot _ o _ act] res by (simp add: e')
    next
      case un: False
      have "park_outgoing out e1 = release out e1"
        using un by (auto simp: park_outgoing_def e1_def as_def resident_owned_def list_ex_iff owns_def split: option.splits)
      then show ?thesis
        using swap_in_free [OF p g slot _ un, of e'] release_frame [of out e1] res
        by (simp add: e' swapped_in_def) (simp add: e1_def as_def out_def)
    qed
  qed
  then show "r = Inr ()" "moved e e'" "placed e'" "en_resident e' = Some (gn_id (en_active e ! k))"
    by (simp_all add: g_def)
qed

text \<open>A fresh set is a free one more.\<close>

definition grown :: "engine \<Rightarrow> engine" where
  "grown e = e\<lparr>en_pool := [\<lparr>dv_id = en_next_state_id e, dv_rows = (\<lambda>_. []), dv_seq = []\<rparr>],
               en_next_state_id := Suc (en_next_state_id e)\<rparr>"

lemma grown_frame:
  "owned (grown e) = owned e" "resident_owned (grown e) = resident_owned e" "en_tiers (grown e) = en_tiers e"
  "en_active (grown e) = en_active e" "en_resident (grown e) = en_resident e" "en_next (grown e) = en_next e"
  by (simp_all add: grown_def owned_def device_of_def resident_owned_def cong: option.case_cong)

lemma grown_placed: "placed e \<Longrightarrow> placed (grown e)"
  by (simp add: placed_def grown_def POOLED_SEQUENCES_def)

lemma grown_separate:
  assumes "separate e" "en_pool e = []"
  shows "separate (grown e)"
proof -
  define d where "d = \<lparr>dv_id = en_next_state_id e, dv_rows = (\<lambda>_. [] :: u32 list), dv_seq = [] :: u32 list\<rparr>"
  have "all_sets (grown e) = all_sets e @ [d]"
    using assms(2) by (simp add: all_sets_def free_def grown_frame d_def) (simp add: grown_def)
  moreover have "en_next_state_id (grown e) = Suc (en_next_state_id e)" by (simp add: grown_def)
  ultimately show ?thesis using assms(1) by (auto simp: separate_def grown_frame d_def)
qed

lemma take_free_set_pool:
  assumes "take_free_set alloc e = (Inr slot, e1)" "separate e"
  obtains e0 i where "e0 = e \<or> en_pool e = [] \<and> e0 = grown e" "i < length (en_pool e0)" "slot = en_pool e0 ! i"
    "e1 = e0\<lparr>en_pool := swap_remove i (en_pool e0)\<rparr>"
proof (cases "en_pool e = []")
  case True
  then have "cached_in_pool e = None" by (simp add: cached_in_pool_def)
  then have "slot = en_pool (grown e) ! 0" "e1 = (grown e)\<lparr>en_pool := swap_remove 0 (en_pool (grown e))\<rparr>"
    using assms(1) True
    by (auto simp: take_free_set_def new_sequence_def grown_def swap_remove_def split: if_splits)
  then show thesis using that [of "grown e" 0] True by (simp add: grown_def)
next
  case False
  define i where "i = (case cached_in_pool e of Some i \<Rightarrow> i | None \<Rightarrow> length (en_pool e) - 1)"
  have "i < length (en_pool e)"
    using False by (auto simp: i_def cached_in_pool_def dest: position_SomeD split: option.splits)
  moreover have "slot = en_pool e ! i" "e1 = e\<lparr>en_pool := swap_remove i (en_pool e)\<rparr>"
    using assms(1) False by (cases "cached_in_pool e"; simp add: take_free_set_def i_def)+
  ultimately show thesis using that [of e i] by simp
qed

text \<open>Room for a new generation: the resident set is then free, and everyone else's set is parked.\<close>

lemma park_for_room:
  assumes placed: "placed e" and own: "resident_owned e" and i: "i < length (en_pool e)"
    and new: "\<And>g. g \<in> set (en_active e) \<Longrightarrow> gn_id g < j" "j \<le> en_next e"
    and e': "e' = (park_outgoing (t_device (en_tiers e))
      (e\<lparr>en_pool := swap_remove i (en_pool e), en_tiers := set_device (en_pool e ! i) (en_tiers e)\<rparr>))\<lparr>en_resident := Some j\<rparr>"
  shows "moved e e'" "placed e'" "\<not> resident_owned e'"
proof -
  obtain h where h: "h \<in> set (en_active e)" "en_resident e = Some (gn_id h)"
    using own by (auto simp: resident_owned_iff)
  define put where "put g = (if gn_id g = gn_id h then g\<lparr>gn_state := Some (t_device (en_tiers e))\<rparr> else g)" for g :: generation
  have ids: "distinct (map gn_id (en_active e))" using placed by (simp add: placed_def)
  have park: "gn_state g = None \<longleftrightarrow> gn_id g = gn_id h" if "g \<in> set (en_active e)" for g
    using placed h(2) that unfolding placed_def by (metis option.inject)
  have "list_ex (owns (gn_id h)) (en_active e)" using h(1) by (auto simp: list_ex_iff owns_def)
  then have fields: "en_active e' = map put (en_active e)" "en_pool e' = swap_remove i (en_pool e)"
      "en_tiers e' = set_device (en_pool e ! i) (en_tiers e)" "en_resident e' = Some j"
      "en_next e' = en_next e" "en_next_state_id e' = en_next_state_id e"
    using set_state_map [OF ids] h(2) by (simp_all add: e' park_outgoing_def put_def)
  have put: "gn_state (put g) \<noteq> None \<and> (unparked (put g), device_of e' (put g)) = (unparked g, device_of e g)"
    if g: "g \<in> set (en_active e)" for g
  proof (cases "gn_id g = gn_id h")
    case True
    then show ?thesis using park [OF g] by (simp add: put_def unparked_def device_of_def)
  next
    case False
    then obtain d where "gn_state g = Some d" using park [OF g] by blast
    then show ?thesis using False by (simp add: put_def unparked_def device_of_def)
  qed
  then have "owned e' = owned e" by (simp add: owned_def fields(1))
  have newid: "gn_id (put g) \<noteq> j" if "g \<in> set (en_active e)" for g using new(1) [OF that] by (simp add: put_def)
  then show un: "\<not> resident_owned e'" by (auto simp: resident_owned_iff fields)
  have "mset (free e') = mset (free e)"
    using un own mset_swap_remove [OF i] by (simp add: free_def fields)
  then show "moved e e'" using \<open>owned e' = owned e\<close> by (simp add: moved_def fields)
  have "map gn_id (map put (en_active e)) = map gn_id (en_active e)" by (simp add: put_def)
  moreover have "gn_state h \<noteq> None" if "h \<in> set (en_active e')" for h
    using that put fields(1) by auto
  moreover have "length (en_pool e') \<le> POOLED_SEQUENCES" using placed by (auto simp: fields placed_def)
  ultimately show "placed e'"
    using placed_new [OF placed, of e' j] fields(1,4,5) new by simp
qed

text \<open>The set a new generation gets: a free or a fresh one for an owned resident set, the set the cache
  describes when it is in the pool, and otherwise the resident set as it is.\<close>

definition room_made :: "nat \<Rightarrow> engine \<Rightarrow> engine \<Rightarrow> bool" where
  "room_made j e e' \<longleftrightarrow>
     en_resident e' = Some j \<and> placed e' \<and> \<not> resident_owned e' \<and>
     (moved e e' \<or> en_pool e = [] \<and> moved (grown e) e')"

lemma room_from_pool:
  assumes run: "make_room_for alloc True j e = (r, e')" and placed: "placed e" and sep: "separate e"
    and new: "\<And>g. g \<in> set (en_active e) \<Longrightarrow> gn_id g < j" "j \<le> en_next e"
    and own: "resident_owned e"
  shows "r = Inl EngineError \<and> e' = e \<or> r = Inr () \<and> room_made j e e'"
proof (cases "take_free_set alloc e")
  case (Pair a e1)
  show ?thesis
  proof (cases a)
    case (Inl x)
    then have "e1 = e"
      using Pair by (auto simp: take_free_set_def new_sequence_def split: option.splits if_splits)
    then show ?thesis using run own Pair Inl by (cases x) (simp add: make_room_for_def)
  next
    case (Inr slot)
    obtain e0 i where e0: "e0 = e \<or> en_pool e = [] \<and> e0 = grown e" "i < length (en_pool e0)" "slot = en_pool e0 ! i"
      "e1 = e0\<lparr>en_pool := swap_remove i (en_pool e0)\<rparr>"
      using take_free_set_pool [OF Pair [unfolded Inr] sep] .
    have "placed e0" "resident_owned e0" "en_active e0 = en_active e" "en_next e0 = en_next e"
      using e0(1) placed own grown_placed [OF placed] by (auto simp: grown_frame)
    moreover have "r = Inr ()" and e': "e' = (park_outgoing (t_device (en_tiers e0))
        (e0\<lparr>en_pool := swap_remove i (en_pool e0), en_tiers := set_device (en_pool e0 ! i) (en_tiers e0)\<rparr>))\<lparr>en_resident := Some j\<rparr>"
      using run own Pair Inr by (auto simp: make_room_for_def swap_sequence_def e0(3,4))
    ultimately show ?thesis
      using park_for_room [OF _ _ e0(2) _ _ e', of] new e0(1) by (auto simp: room_made_def e')
  qed
qed

lemma room_cached:
  assumes placed: "placed e" and un: "\<not> resident_owned e" and i: "i < length (en_pool e)"
    and new: "\<And>g. g \<in> set (en_active e) \<Longrightarrow> gn_id g < j" "j \<le> en_next e"
    and e1: "e1 = e\<lparr>en_pool := swap_remove i (en_pool e), en_tiers := set_device (en_pool e ! i) (en_tiers e)\<rparr>"
    and e': "e' = (release (t_device (en_tiers e)) e1)\<lparr>en_resident := Some j\<rparr>"
  shows "room_made j e e'"
proof -
  note rel = release_frame [of "t_device (en_tiers e)" e1]
  have fields: "en_active e' = en_active e" "en_tiers e' = set_device (en_pool e ! i) (en_tiers e)"
      "en_next e' = en_next e" "en_next_state_id e' = en_next_state_id e" "en_resident e' = Some j"
    using rel by (simp_all add: e' e1)
  have parked: "gn_state g \<noteq> None" if "g \<in> set (en_active e)" for g
    using placed un that by (auto simp: placed_def resident_owned_iff)
  have own: "owned e' = owned e" using parked by (force simp: owned_def fields device_of_def)
  have un': "\<not> resident_owned e'" using new(1) by (auto simp: resident_owned_iff fields)
  have "mset (free e') \<subseteq># mset (free e)"
    using un un' rel(6) mset_swap_remove [OF i] by (simp add: free_def fields) (simp add: e' e1)
  then have "moved e e'" using own by (simp add: moved_def fields)
  moreover have "placed e'"
    using placed_new [OF placed, of e' j] parked new rel(7) by (simp add: fields) (simp add: e')
  ultimately show ?thesis using un' fields by (simp add: room_made_def)
qed

lemma room_resident:
  assumes placed: "placed e" and un: "\<not> resident_owned e"
    and new: "\<And>g. g \<in> set (en_active e) \<Longrightarrow> gn_id g < j" "j \<le> en_next e"
  shows "room_made j e (e\<lparr>en_resident := Some j\<rparr>)"
proof -
  let ?e = "e\<lparr>en_resident := Some j\<rparr>"
  have parked: "gn_state g \<noteq> None" if "g \<in> set (en_active e)" for g
    using placed un that by (auto simp: placed_def resident_owned_iff)
  have un': "\<not> resident_owned ?e" using new(1) by (auto simp: resident_owned_iff)
  have "moved e ?e"
    using un un' by (simp add: moved_def owned_def free_def device_of_def cong: option.case_cong)
  moreover have "placed ?e"
    using placed_new [OF placed, of ?e j] placed parked new by (simp add: placed_def)
  ultimately show ?thesis using un' by (simp add: room_made_def)
qed

lemma make_room_moves:
  assumes run: "make_room_for alloc True j e = (r, e')" and placed: "placed e" and sep: "separate e"
    and new: "\<And>g. g \<in> set (en_active e) \<Longrightarrow> gn_id g < j" "j \<le> en_next e"
  shows "r = Inl EngineError \<and> e' = e \<or> r = Inr () \<and> room_made j e e'"
proof (cases "resident_owned e")
  case True
  show ?thesis by (rule room_from_pool [OF run placed sep new True])
next
  case un: False
  show ?thesis
  proof (cases "t_cache_state (en_tiers e) \<noteq> dv_id (t_device (en_tiers e)) \<and> cached_in_pool e \<noteq> None")
    case True
    then obtain i where c: "cached_in_pool e = Some i" by blast
    then have i: "i < length (en_pool e)" by (auto simp: cached_in_pool_def dest: position_SomeD)
    have "r = Inr ()" and e': "e' = (release (t_device (en_tiers e))
        (e\<lparr>en_pool := swap_remove i (en_pool e), en_tiers := set_device (en_pool e ! i) (en_tiers e)\<rparr>))\<lparr>en_resident := Some j\<rparr>"
      using run un True c by (auto simp: make_room_for_def swap_sequence_def Let_def)
    then show ?thesis using room_cached [OF placed un i new refl e'] by simp
  next
    case False
    then have "r = Inr ()" "e' = e\<lparr>en_resident := Some j\<rparr>"
      using run un by (auto simp: make_room_for_def Let_def split: option.splits if_splits)
    then show ?thesis using room_resident [OF placed un new] by simp
  qed
qed

section \<open>The tier and the sets\<close>

text \<open>Nothing was prefilled or decoded over the rows the set held at admission.\<close>

definition untouched :: "generation \<Rightarrow> bool" where
  "untouched g \<longleftrightarrow> gn_max_tokens g = 0 \<or>
     (case gn_prefill g of Some plan \<Rightarrow> pf_done plan = pf_reused plan | None \<Rightarrow> False)"

definition compatible :: "u32 list \<Rightarrow> u32 list \<Rightarrow> bool" where
  "compatible xs ys \<longleftrightarrow> prefix xs ys \<or> prefix ys xs"

text \<open>What a generation's set holds: its prompt up to where it was prefilled, then its prompt and
  answer.\<close>

definition generation_ok :: "generation \<Rightarrow> device \<Rightarrow> bool" where
  "generation_ok g d \<longleftrightarrow>
     (if gn_max_tokens g = 0 then gn_prefill g = None
      else
        gn_prompt g \<noteq> [] \<and> coherent d \<and>
        (case gn_prefill g of
           Some plan \<Rightarrow>
             pf_reused plan \<le> pf_done plan \<and> pf_done plan \<le> length (gn_prompt g) \<and>
             pf_penultimate plan = length (gn_prompt g) - 1 \<and>
             dv_seq d = take (pf_done plan) (gn_prompt g) \<and> boundary_inside (gn_prompt g) plan \<and>
             (\<forall>c. pf_snapshot plan = Some c \<longrightarrow> ck_seq c = take (length (gn_prompt g) - 1) (gn_prompt g)) \<and>
             gn_snapshot g = None \<and> gn_token_ids g = [] \<and> (gn_done g \<longrightarrow> gn_cancelled g)
         | None \<Rightarrow>
             compatible (gn_prompt g @ gn_token_ids g) (dv_seq d) \<and>
             (\<forall>c. gn_snapshot g = Some c \<longrightarrow> ck_seq c = take (length (gn_prompt g) - 1) (gn_prompt g))))"

definition rows_hold :: "cached_checkpoint list \<Rightarrow> device \<Rightarrow> bool" where
  "rows_hold cps d \<longleftrightarrow> (\<forall>c\<in>set cps. rows_of (dv_rows d) (cc_tokens c))"

text \<open>What the tier may say of a generation's set: everything while it is untouched, prefixes of what
  it holds once its prompt is complete.\<close>

definition described :: "cached_checkpoint list \<Rightarrow> generation \<Rightarrow> device \<Rightarrow> bool" where
  "described cps g d \<longleftrightarrow> (untouched g \<longrightarrow> rows_hold cps d) \<and>
     (gn_prefill g = None \<and> \<not> gn_cancelled g \<and> gn_max_tokens g \<noteq> 0 \<longrightarrow>
        (\<forall>c\<in>set cps. prefix (cc_tokens c) (dv_seq d)))"

abbreviation tier_state :: "engine \<Rightarrow> nat" where
  "tier_state e \<equiv> t_cache_state (en_tiers e)"

abbreviation tier_cps :: "engine \<Rightarrow> cached_checkpoint list" where
  "tier_cps e \<equiv> t_checkpoints (en_tiers e)"

definition tier_ok :: "engine \<Rightarrow> bool" where
  "tier_ok e \<longleftrightarrow> books (en_tiers e) \<and>
     (\<forall>d\<in>set (free e). dv_id d = tier_state e \<longrightarrow> rows_hold (tier_cps e) d) \<and>
     (\<forall>(g, d)\<in>set (owned e). generation_ok g d \<and> (dv_id d = tier_state e \<longrightarrow> described (tier_cps e) g d))"

lemma moved_tier:
  assumes "moved e e'" "tier_ok e"
  shows "tier_ok e'"
proof -
  have t: "en_tiers e' = set_device (t_device (en_tiers e')) (en_tiers e)" using assms(1) by (simp add: moved_def)
  have eqs: "tier_state e' = tier_state e" "tier_cps e' = tier_cps e" "books (en_tiers e') = books (en_tiers e)"
    using arg_cong [OF t, of t_cache_state] arg_cong [OF t, of t_checkpoints] arg_cong [OF t, of books] by simp_all
  have "set (free e') \<subseteq> set (free e)" using assms(1) set_mset_mono by (fastforce simp: moved_def)
  then show ?thesis using assms unfolding tier_ok_def eqs by (auto simp: moved_def)
qed

lemma grown_tier:
  assumes "tier_ok e" "separate e" "en_pool e = []"
  shows "tier_ok (grown e)"
proof -
  have "free (grown e) = free e @ [\<lparr>dv_id = en_next_state_id e, dv_rows = (\<lambda>_. []), dv_seq = []\<rparr>]"
    using assms(3) by (simp add: free_def grown_frame) (simp add: grown_def)
  moreover have "tier_state e \<noteq> en_next_state_id e" using assms(2) by (simp add: separate_def)
  ultimately show ?thesis using assms(1) unfolding tier_ok_def grown_frame by auto
qed

text \<open>The resident set and the others apart.\<close>

definition parked_ok :: "nat \<Rightarrow> cached_checkpoint list \<Rightarrow> device list \<Rightarrow> generation list \<Rightarrow> bool" where
  "parked_ok cs cps pool gs \<longleftrightarrow>
     (\<forall>d\<in>set pool. dv_id d = cs \<longrightarrow> rows_hold cps d) \<and>
     (\<forall>g\<in>set gs. \<forall>d. gn_state g = Some d \<longrightarrow>
        generation_ok (unparked g) d \<and> (dv_id d = cs \<longrightarrow> described cps (unparked g) d))"

lemma tier_ok_split:
  assumes "placed e"
  shows "tier_ok e \<longleftrightarrow>
    books (en_tiers e) \<and> parked_ok (tier_state e) (tier_cps e) (en_pool e) (en_active e) \<and>
    (\<forall>g\<in>set (en_active e). gn_state g = None \<longrightarrow>
       generation_ok (unparked g) (t_device (en_tiers e)) \<and>
       (dv_id (t_device (en_tiers e)) = tier_state e \<longrightarrow> described (tier_cps e) (unparked g) (t_device (en_tiers e)))) \<and>
    (\<not> resident_owned e \<longrightarrow> dv_id (t_device (en_tiers e)) = tier_state e \<longrightarrow> rows_hold (tier_cps e) (t_device (en_tiers e)))"
proof -
  have owned: "(\<forall>(g, d)\<in>set (owned e). P g d) \<longleftrightarrow>
      (\<forall>g\<in>set (en_active e). (\<forall>d. gn_state g = Some d \<longrightarrow> P (unparked g) d) \<and>
         (gn_state g = None \<longrightarrow> P (unparked g) (t_device (en_tiers e))))" for P
    by (auto simp: owned_def device_of_def split: option.splits)
  have free: "(\<forall>d\<in>set (free e). P d) \<longleftrightarrow> (\<forall>d\<in>set (en_pool e). P d) \<and> (\<not> resident_owned e \<longrightarrow> P (t_device (en_tiers e)))" for P
    by (auto simp: free_def)
  show ?thesis unfolding tier_ok_def parked_ok_def owned free by blast
qed

text \<open>The identities of all sets, the resident one first.\<close>

definition set_ids :: "engine \<Rightarrow> nat list" where
  "set_ids e = dv_id (t_device (en_tiers e)) # map dv_id (en_pool e @ List.map_filter gn_state (en_active e))"

lemma mset_devices:
  assumes "distinct (map gn_id gs)" "\<forall>g\<in>set gs. gn_state g = None \<longleftrightarrow> gn_id g = i"
  shows "mset (map (\<lambda>g. case gn_state g of Some d \<Rightarrow> d | None \<Rightarrow> x) gs) =
    mset (List.map_filter gn_state gs) + (if i \<in> gn_id ` set gs then {#x#} else {#})"
  using assms
proof (induction gs)
  case (Cons g gs)
  then have tl: "mset (map (\<lambda>g. case gn_state g of Some d \<Rightarrow> d | None \<Rightarrow> x) gs) =
    mset (List.map_filter gn_state gs) + (if i \<in> gn_id ` set gs then {#x#} else {#})" by simp
  show ?case
  proof (cases "gn_state g")
    case None
    then have "i = gn_id g" "i \<notin> gn_id ` set gs" using Cons.prems by auto
    then show ?thesis using tl None by simp
  next
    case (Some d)
    then have "gn_id g \<noteq> i" using Cons.prems(2) by auto
    then show ?thesis using tl Some by simp
  qed
qed simp

lemma all_sets_mset:
  assumes "placed e"
  shows "mset (map dv_id (all_sets e)) = mset (set_ids e)"
proof -
  have park: "gn_state g = None \<longleftrightarrow> en_resident e = Some (gn_id g)" if "g \<in> set (en_active e)" for g
    using assms that by (auto simp: placed_def)
  have ids: "distinct (map gn_id (en_active e))" using assms by (simp add: placed_def)
  let ?dev = "t_device (en_tiers e)"
  have "mset (map snd (owned e)) = mset (List.map_filter gn_state (en_active e)) + (if resident_owned e then {#?dev#} else {#})"
  proof (cases "en_resident e")
    case None
    then have "\<forall>g\<in>set (en_active e). gn_state g \<noteq> None" using park by simp
    then have "\<forall>g\<in>set (en_active e). gn_state g = None \<longleftrightarrow> gn_id g = Suc (en_next e)"
      using assms by (fastforce simp: placed_def)
    note devices = mset_devices [OF ids this, of ?dev]
    have "Suc (en_next e) \<notin> gn_id ` set (en_active e)" using assms by (fastforce simp: placed_def)
    then show ?thesis
      using devices None by (simp add: owned_def device_of_def [abs_def] comp_def resident_owned_iff)
  next
    case (Some i)
    then have "\<forall>g\<in>set (en_active e). gn_state g = None \<longleftrightarrow> gn_id g = i" using park by auto
    from mset_devices [OF ids this, of ?dev] show ?thesis
      using Some by (auto simp: owned_def device_of_def [abs_def] comp_def resident_owned_iff)
  qed
  then have "mset (all_sets e) = mset (?dev # en_pool e @ List.map_filter gn_state (en_active e))"
    by (simp add: all_sets_def free_def)
  then have "image_mset dv_id (mset (all_sets e)) = image_mset dv_id (mset (?dev # en_pool e @ List.map_filter gn_state (en_active e)))"
    by simp
  then show ?thesis by (simp add: set_ids_def)
qed

lemma separate_iff:
  assumes "placed e"
  shows "separate e \<longleftrightarrow> distinct (set_ids e) \<and> (\<forall>i\<in>set (set_ids e). i < en_next_state_id e) \<and> tier_state e < en_next_state_id e"
proof -
  note m = all_sets_mset [OF assms]
  have "set (set_ids e) = dv_id ` set (all_sets e)" using arg_cong [OF m, of set_mset] by simp
  moreover have "distinct (map dv_id (all_sets e)) = distinct (set_ids e)" by (rule mset_eq_imp_distinct_iff [OF m])
  ultimately show ?thesis by (auto simp: separate_def)
qed

section \<open>Changing the resident set\<close>

text \<open>The tier is claimed for the resident set, or describes the set it described.\<close>

definition retier :: "tiers \<Rightarrow> tiers \<Rightarrow> bool" where
  "retier t t' \<longleftrightarrow> dv_id (t_device t') = dv_id (t_device t) \<and>
     (t_cache_state t' = dv_id (t_device t) \<or>
      t_cache_state t' = t_cache_state t \<and> (\<forall>c\<in>set (t_checkpoints t'). taken_over (t_checkpoints t) c))"

lemma own_tier_retier: "own_tier t t' \<Longrightarrow> retier t t'"
  by (auto simp: own_tier_def retier_def)

lemma rows_hold_mono: "rows_hold cps d \<Longrightarrow> \<forall>c\<in>set cps'. taken_over cps c \<Longrightarrow> rows_hold cps' d"
  by (fastforce simp: rows_hold_def taken_over_def)

lemma described_mono: "described cps g d \<Longrightarrow> \<forall>c\<in>set cps'. taken_over cps c \<Longrightarrow> described cps' g d"
  using rows_hold_mono [of cps d cps'] by (fastforce simp: described_def taken_over_def)

lemma parked_ok_retier:
  assumes "parked_ok (t_cache_state t) (t_checkpoints t) pool gs" "retier t t'"
    and "\<forall>i\<in>dv_id ` (set pool \<union> set (List.map_filter gn_state gs)). i \<noteq> dv_id (t_device t)"
  shows "parked_ok (t_cache_state t') (t_checkpoints t') pool gs"
proof -
  have ne: "dv_id d \<noteq> dv_id (t_device t)" if "d \<in> set pool \<or> (\<exists>g\<in>set gs. gn_state g = Some d)" for d
    using assms(3) that by (auto simp: set_map_filter)
  have same: "t_cache_state t' = t_cache_state t \<and> (\<forall>c\<in>set (t_checkpoints t'). taken_over (t_checkpoints t) c)"
    if "t_cache_state t' \<noteq> dv_id (t_device t)" using assms(2) that by (auto simp: retier_def)
  show ?thesis
  proof (cases "t_cache_state t' = dv_id (t_device t)")
    case True
    then show ?thesis using assms(1) ne by (fastforce simp: parked_ok_def)
  next
    case False
    note same = same [OF False]
    then show ?thesis
      using assms(1) rows_hold_mono [of "t_checkpoints t" _ "t_checkpoints t'"]
        described_mono [of "t_checkpoints t" _ _ "t_checkpoints t'"]
      unfolding parked_ok_def by (metis (no_types, lifting))
  qed
qed

definition engine_ok :: "engine \<Rightarrow> bool" where
  "engine_ok e \<longleftrightarrow> placed e \<and> separate e \<and> tier_ok e"

lemma moved_ok: "moved e e' \<Longrightarrow> placed e' \<Longrightarrow> engine_ok e \<Longrightarrow> engine_ok e'"
  using moved_separate moved_tier by (simp add: engine_ok_def)

lemma mset_map_filter: "mset (List.map_filter f xs) = image_mset (the \<circ> f) (filter_mset (\<lambda>x. f x \<noteq> None) (mset xs))"
  by (simp add: List.map_filter_def)

text \<open>The generation \<open>g\<close> taken from the active ones, and what the engine then consists of.\<close>

lemma take_generation:
  assumes "engine_ok e" "mset (en_active e) = add_mset g (mset rest)" "gn_state g = None"
  shows "set rest \<subseteq> set (en_active e)" "g \<in> set (en_active e)" "en_resident e = Some (gn_id g)"
    "distinct (gn_id g # map gn_id rest)" "\<And>h. h \<in> set rest \<Longrightarrow> gn_state h \<noteq> None \<and> gn_id h \<le> en_next e"
    "gn_id g \<le> en_next e" "length (en_pool e) \<le> POOLED_SEQUENCES"
    "mset (set_ids e) = mset (dv_id (t_device (en_tiers e)) # map dv_id (en_pool e @ List.map_filter gn_state rest))"
    "\<forall>i\<in>dv_id ` (set (en_pool e) \<union> set (List.map_filter gn_state rest)). i \<noteq> dv_id (t_device (en_tiers e))"
    "parked_ok (tier_state e) (tier_cps e) (en_pool e) rest"
    "generation_ok (unparked g) (t_device (en_tiers e))"
    "dv_id (t_device (en_tiers e)) = tier_state e \<Longrightarrow> described (tier_cps e) (unparked g) (t_device (en_tiers e))"
    "books (en_tiers e)"
proof -
  have p: "placed e" and s: "separate e" and t: "tier_ok e" using assms(1) by (auto simp: engine_ok_def)
  have sets: "set (en_active e) = insert g (set rest)" using arg_cong [OF assms(2), of set_mset] by simp
  then show sub: "set rest \<subseteq> set (en_active e)" and g: "g \<in> set (en_active e)" by auto
  show res: "en_resident e = Some (gn_id g)" using p g assms(3) by (auto simp: placed_def)
  have "mset (map gn_id (en_active e)) = mset (gn_id g # map gn_id rest)" by (simp add: assms(2))
  moreover have "distinct (map gn_id (en_active e))" using p by (simp add: placed_def)
  ultimately show dist: "distinct (gn_id g # map gn_id rest)" using mset_eq_imp_distinct_iff by blast
  show "gn_state h \<noteq> None \<and> gn_id h \<le> en_next e" if "h \<in> set rest" for h
    using p res sub that dist by (auto simp: placed_def image_iff)
  show "gn_id g \<le> en_next e" "length (en_pool e) \<le> POOLED_SEQUENCES" using p g by (auto simp: placed_def)
  show ids: "mset (set_ids e) = mset (dv_id (t_device (en_tiers e)) # map dv_id (en_pool e @ List.map_filter gn_state rest))"
    using assms(2,3) by (simp add: set_ids_def mset_map_filter)
  have "distinct (set_ids e)" using s p separate_iff by blast
  then have "distinct (dv_id (t_device (en_tiers e)) # map dv_id (en_pool e @ List.map_filter gn_state rest))"
    using mset_eq_imp_distinct_iff [OF ids] by blast
  then have "dv_id (t_device (en_tiers e)) \<notin> dv_id ` (set (en_pool e) \<union> set (List.map_filter gn_state rest))"
    by (simp add: image_Un)
  then show "\<forall>i\<in>dv_id ` (set (en_pool e) \<union> set (List.map_filter gn_state rest)). i \<noteq> dv_id (t_device (en_tiers e))"
    by metis
  note tier = t [unfolded tier_ok_split [OF p]]
  then show "parked_ok (tier_state e) (tier_cps e) (en_pool e) rest" using sub by (auto simp: parked_ok_def)
  show "generation_ok (unparked g) (t_device (en_tiers e))" "books (en_tiers e)"
    "dv_id (t_device (en_tiers e)) = tier_state e \<Longrightarrow> described (tier_cps e) (unparked g) (t_device (en_tiers e))"
    using tier g assms(3) by auto
qed

text \<open>The engine apart from its resident set, which no generation in \<open>rest\<close> owns.\<close>

definition detached :: "engine \<Rightarrow> generation list \<Rightarrow> bool" where
  "detached e rest \<longleftrightarrow>
     distinct (map gn_id rest) \<and> (\<forall>h\<in>set rest. gn_state h \<noteq> None \<and> gn_id h \<le> en_next e) \<and>
     length (en_pool e) \<le> POOLED_SEQUENCES \<and>
     distinct (dv_id (t_device (en_tiers e)) # map dv_id (en_pool e @ List.map_filter gn_state rest)) \<and>
     (\<forall>i\<in>set (dv_id (t_device (en_tiers e)) # map dv_id (en_pool e @ List.map_filter gn_state rest)). i < en_next_state_id e) \<and>
     tier_state e < en_next_state_id e \<and> parked_ok (tier_state e) (tier_cps e) (en_pool e) rest"

lemma detached_taken:
  assumes "engine_ok e" "mset (en_active e) = add_mset g (mset rest)" "gn_state g = None"
  shows "detached e rest"
proof -
  note tg = take_generation [OF assms]
  have p: "placed e" and s: "separate e" using assms(1) by (auto simp: engine_ok_def)
  have "\<forall>i\<in>set (set_ids e). i < en_next_state_id e" "distinct (set_ids e)" "tier_state e < en_next_state_id e"
    using s separate_iff [OF p] by auto
  then show ?thesis
    using tg(4,5,7,10) mset_eq_imp_distinct_iff [OF tg(8)] arg_cong [OF tg(8), of set_mset]
    unfolding detached_def by simp
qed

lemma detached_free:
  assumes "engine_ok e" "\<not> resident_owned e"
  shows "detached e (en_active e)"
proof -
  have p: "placed e" and s: "separate e" and t: "tier_ok e" using assms(1) by (auto simp: engine_ok_def)
  have "gn_state h \<noteq> None \<and> gn_id h \<le> en_next e" if "h \<in> set (en_active e)" for h
    using p assms(2) that by (auto simp: placed_def resident_owned_iff)
  then show ?thesis
    using p s t separate_iff [OF p] tier_ok_split [OF p] unfolding detached_def set_ids_def placed_def by blast
qed

text \<open>The resident set given to a generation, or left free.\<close>

lemma detached_parked:
  assumes d: "detached e rest" and t': "retier (en_tiers e) t'"
  shows "parked_ok (t_cache_state t') (t_checkpoints t') (en_pool e) rest" "dv_id (t_device t') = dv_id (t_device (en_tiers e))"
    "t_cache_state t' < en_next_state_id e"
proof -
  have "dv_id (t_device (en_tiers e)) \<notin> dv_id ` (set (en_pool e) \<union> set (List.map_filter gn_state rest))"
    using d by (simp add: detached_def image_Un)
  then have "\<forall>i\<in>dv_id ` (set (en_pool e) \<union> set (List.map_filter gn_state rest)). i \<noteq> dv_id (t_device (en_tiers e))"
    by metis
  then show "parked_ok (t_cache_state t') (t_checkpoints t') (en_pool e) rest"
    using parked_ok_retier [OF _ t'] d by (simp add: detached_def)
  show "dv_id (t_device t') = dv_id (t_device (en_tiers e))" "t_cache_state t' < en_next_state_id e"
    using d t' by (auto simp: detached_def retier_def)
qed

lemma attach:
  assumes d: "detached e rest" and t': "retier (en_tiers e) t'" "books t'"
    and g': "gn_id g' \<notin> gn_id ` set rest" "gn_id g' \<le> en_next e" "gn_state g' = None" "generation_ok g' (t_device t')"
      "dv_id (t_device t') = t_cache_state t' \<Longrightarrow> described (t_checkpoints t') g' (t_device t')"
  shows "engine_ok (e\<lparr>en_tiers := t', en_active := rest @ [g'], en_resident := Some (gn_id g')\<rparr>)"
proof -
  define e' where "e' = e\<lparr>en_tiers := t', en_active := rest @ [g'], en_resident := Some (gn_id g')\<rparr>"
  note dp = detached_parked [OF d t'(1)]
  have "gn_id h \<le> en_next e \<and> (gn_state h = None \<longleftrightarrow> gn_id g' = gn_id h)" if "h \<in> set (rest @ [g'])" for h
  proof (cases "h = g'")
    case False
    then have "gn_id h \<in> gn_id ` set rest" "h \<in> set rest" using that by auto
    then show ?thesis using d g'(1) by (auto simp: detached_def)
  qed (use g' in simp)
  then have p: "placed e'" using d g'(1,2) by (simp add: placed_def e'_def detached_def)
  have "set_ids e' = dv_id (t_device (en_tiers e)) # map dv_id (en_pool e @ List.map_filter gn_state rest)"
    using g'(3) dp(2) by (simp add: set_ids_def e'_def List.map_filter_def)
  then have "separate e'" using d dp(3) unfolding separate_iff [OF p] detached_def by (simp add: e'_def)
  moreover have "parked_ok (t_cache_state t') (t_checkpoints t') (en_pool e) (rest @ [g'])"
    using dp(1) g'(3) by (auto simp: parked_ok_def)
  moreover have "resident_owned e'" by (auto simp: resident_owned_iff e'_def)
  moreover have "unparked h = g' \<and> h = g'" if "h \<in> set (rest @ [g'])" "gn_state h = None" for h
    using that d g'(3) by (auto simp: detached_def unparked_def)
  ultimately show ?thesis
    using p t'(2) g'(4,5) unfolding e'_def [symmetric] engine_ok_def tier_ok_split [OF p]
    by (simp add: e'_def)
qed

lemma leave_free:
  assumes d: "detached e rest" and t': "retier (en_tiers e) t'" "books t'"
      "dv_id (t_device t') = t_cache_state t' \<Longrightarrow> rows_hold (t_checkpoints t') (t_device t')"
  shows "engine_ok (e\<lparr>en_tiers := t', en_active := rest, en_resident := None\<rparr>)"
proof -
  define e' where "e' = e\<lparr>en_tiers := t', en_active := rest, en_resident := None\<rparr>"
  note dp = detached_parked [OF d t'(1)]
  have p: "placed e'" using d by (simp add: placed_def e'_def detached_def)
  have "set_ids e' = dv_id (t_device (en_tiers e)) # map dv_id (en_pool e @ List.map_filter gn_state rest)"
    using dp(2) by (simp add: set_ids_def e'_def)
  then have "separate e'" using d dp(3) unfolding separate_iff [OF p] detached_def by (simp add: e'_def)
  moreover have "\<forall>h\<in>set rest. gn_state h = None \<longrightarrow> Q h" for Q using d unfolding detached_def by blast
  ultimately show ?thesis
    using p t'(2,3) dp(1) unfolding e'_def [symmetric] engine_ok_def tier_ok_split [OF p]
    by (simp add: e'_def)
qed

text \<open>The resident generation's set and the tiers change, or it leaves.\<close>

lemma resident_update:
  assumes ok: "engine_ok e" and split: "mset (en_active e) = add_mset g (mset rest)" "gn_state g = None"
    and t': "retier (en_tiers e) t'" "books t'"
    and g': "gn_id g' = gn_id g" "gn_state g' = None" "generation_ok g' (t_device t')"
      "dv_id (t_device t') = t_cache_state t' \<Longrightarrow> described (t_checkpoints t') g' (t_device t')"
  shows "engine_ok (e\<lparr>en_tiers := t', en_active := rest @ [g']\<rparr>)"
proof -
  note tg = take_generation [OF ok split]
  have "e\<lparr>en_tiers := t', en_active := rest @ [g']\<rparr> =
      e\<lparr>en_tiers := t', en_active := rest @ [g'], en_resident := Some (gn_id g')\<rparr>"
    using tg(3) g'(1) by simp
  then show ?thesis
    using attach [OF detached_taken [OF ok split] t', of g'] tg(4,6) g' by simp
qed

lemma resident_leave:
  assumes ok: "engine_ok e" and split: "mset (en_active e) = add_mset g (mset rest)" "gn_state g = None"
    and t': "retier (en_tiers e) t'" "books t'"
      "dv_id (t_device t') = t_cache_state t' \<Longrightarrow> rows_hold (t_checkpoints t') (t_device t')"
  shows "engine_ok (e\<lparr>en_tiers := t', en_active := rest, en_resident := None\<rparr>)"
  by (rule leave_free [OF detached_taken [OF ok split] t'])

end
