(* ===== verification/Engine_Steps.thy ===== *)
theory Engine_Steps
  imports Scheduler
begin

text \<open>
  The engine as a state machine: admitting, prefilling, decoding, cancelling, closing and discarding
  generations in any order (\<^verbatim>\<open>BonsaiEngine::step\<close> and what it calls in
  \<^verbatim>\<open>local-engine/src/bonsai_model/scheduler.rs\<close>).  In every reachable state each set of buffers has one
  owner, holds what its owner prefilled and decoded, and the GPU tier's checkpoints can be restored
  from the set they describe.
\<close>

section \<open>Rounds\<close>

text \<open>A generation that fails is taken out and discarded.\<close>

definition fail_generation :: "nat \<Rightarrow> engine \<Rightarrow> engine" where
  "fail_generation gid e =
     (case position (owns gid) (en_active e) of
        Some i \<Rightarrow> discard (en_active e ! i) (e\<lparr>en_active := vec_remove i (en_active e)\<rparr>)
      | None \<Rightarrow> e)"

definition PREFILL_CHUNK_DECODING :: nat where "PREFILL_CHUNK_DECODING = 32"
definition PREFILL_WHOLE_DECODING :: nat where "PREFILL_WHOLE_DECODING = 128"

definition prefill_budget :: "nat \<Rightarrow> nat \<Rightarrow> nat \<Rightarrow> generation \<Rightarrow> nat" where
  "prefill_budget chunk_size running remaining g =
     (if running = 0 then chunk_size
      else if prefill_total g \<le> PREFILL_WHOLE_DECODING then remaining
      else PREFILL_CHUNK_DECODING)"

text \<open>The prompt whose next chunk a batched pass prefills beside \<open>seeds\<close> decoding rows; \<open>max_rows\<close> is
  the lesser of what a pass and a folded chunk may have.\<close>

definition PREFILL_FOLD_MIN :: nat where "PREFILL_FOLD_MIN = 24"

definition next_multiple_of_8 :: "nat \<Rightarrow> nat" where
  "next_multiple_of_8 n = (n + 7) div 8 * 8"

definition fold_candidate ::
  "(string \<Rightarrow> bool) \<Rightarrow> (nat \<Rightarrow> bool) \<Rightarrow> nat \<Rightarrow> nat \<Rightarrow> engine \<Rightarrow> (nat \<times> nat) option" where
  "fold_candidate finished cancelled max_rows seeds e =
     (case next_prefill finished e of
        None \<Rightarrow> None
      | Some (index, _) \<Rightarrow>
          let g = en_active e ! index in
          if prefill_total g \<le> PREFILL_WHOLE_DECODING \<or> cancelled (gn_id g) then None
          else
            case gn_prefill g of
              None \<Rightarrow> None
            | Some plan \<Rightarrow>
                if pf_done plan = pf_reused plan then None
                else
                  let run = plain_run plan (length (gn_prompt g));
                      chunk = next_multiple_of_8 (seeds + PREFILL_FOLD_MIN) - seeds;
                      rows = min (min chunk run) (max_rows - seeds)
                  in if rows > 0 then Some (index, rows) else None)"

text \<open>The resident generation at \<open>index\<close> restores its prefix again, or prefills.\<close>

definition restart_at :: "env \<Rightarrow> u32 list \<Rightarrow> loaded option \<Rightarrow> nat \<Rightarrow> engine \<Rightarrow> engine" where
  "restart_at ev eos_ids loaded index e =
     (let g = en_active e ! index; rest = swap_remove index (en_active e) in
      case restart_prompt ev eos_ids loaded g (en_tiers e) of
        (Inr g1, t) \<Rightarrow> e\<lparr>en_tiers := t, en_active := rest @ [g1]\<rparr>
      | (Inl _, t) \<Rightarrow> fail_generation (gn_id g) (e\<lparr>en_tiers := t, en_active := rest @ [g]\<rparr>))"

definition prefill_at :: "env \<Rightarrow> pass \<Rightarrow> bool \<Rightarrow> bool \<Rightarrow> nat \<Rightarrow> nat \<Rightarrow> engine \<Rightarrow> engine" where
  "prefill_at ev pass cancel_observed sample_ok budget index e =
     (let g = en_active e ! index; rest = swap_remove index (en_active e) in
      case prefill_round ev pass cancel_observed sample_ok budget g (en_tiers e) of
        (r, g1, t) \<Rightarrow>
          let e1 = e\<lparr>en_tiers := t, en_active := rest @ [g1]\<rparr>
          in (case r of Inr _ \<Rightarrow> e1 | Inl _ \<Rightarrow> fail_generation (gn_id g) e1))"

text \<open>A pass commits the tokens \<open>ts\<close> to a generation's set, resident or parked.\<close>

definition pass_at :: "u32 list \<Rightarrow> (generation \<Rightarrow> generation) \<Rightarrow> nat \<Rightarrow> engine \<Rightarrow> engine" where
  "pass_at ts f index e =
     (let g = en_active e ! index in
      case gn_state g of
        Some d \<Rightarrow> e\<lparr>en_active := (en_active e)[index := (f g)\<lparr>gn_state := Some (prefill_blocks ts d)\<rparr>]\<rparr>
      | None \<Rightarrow>
          e\<lparr>en_active := (en_active e)[index := f g],
            en_tiers := set_device (prefill_blocks ts (t_device (en_tiers e))) (en_tiers e)\<rparr>)"

definition folded :: "nat \<Rightarrow> generation \<Rightarrow> generation" where
  "folded n g = g\<lparr>gn_prefill := map_option (pf_advance n) (gn_prefill g)\<rparr>"

definition decoded :: "u32 list \<Rightarrow> bool \<Rightarrow> generation \<Rightarrow> generation" where
  "decoded emitted stop g = g\<lparr>gn_token_ids := gn_token_ids g @ emitted, gn_done := gn_done g \<or> stop\<rparr>"

definition close_at :: "env \<Rightarrow> bool \<Rightarrow> bool \<Rightarrow> nat \<Rightarrow> engine \<Rightarrow> (engine_error + unit) \<times> engine" where
  "close_at ev head_ok decode_ok index e =
     close ev True head_ok decode_ok (en_active e ! index) (e\<lparr>en_active := vec_remove index (en_active e)\<rparr>)"

section \<open>The order of the generations\<close>

lemma resident_owned_set: "resident_owned (e\<lparr>en_active := gs\<rparr>) \<longleftrightarrow> (\<exists>g\<in>set gs. en_resident e = Some (gn_id g))"
  by (simp add: resident_owned_iff)

lemma resident_owned_ids: "resident_owned e \<longleftrightarrow> en_resident e \<in> Some ` gn_id ` set (en_active e)"
  by (auto simp: resident_owned_iff)

lemma engine_ok_perm:
  assumes ok: "engine_ok e" and perm: "mset gs = mset (en_active e)"
  shows "engine_ok (e\<lparr>en_active := gs\<rparr>)"
proof -
  have set: "set gs = set (en_active e)" using arg_cong [OF perm, of set_mset] by simp
  have "mset (map gn_id gs) = mset (map gn_id (en_active e))" using perm by simp
  then have p: "placed (e\<lparr>en_active := gs\<rparr>)"
    using ok set mset_eq_imp_distinct_iff [of "map gn_id gs" "map gn_id (en_active e)"]
    by (auto simp: engine_ok_def placed_def)
  have ids: "mset (set_ids (e\<lparr>en_active := gs\<rparr>)) = mset (set_ids e)"
    using perm by (simp add: set_ids_def mset_map_filter)
  have "separate (e\<lparr>en_active := gs\<rparr>)"
    using ok separate_iff [OF p] separate_iff [of e] mset_eq_imp_distinct_iff [OF ids] arg_cong [OF ids, of set_mset]
    by (simp add: engine_ok_def)
  moreover have "tier_ok (e\<lparr>en_active := gs\<rparr>)"
    using ok tier_ok_split [of e] tier_ok_split [OF p] set
    by (simp add: engine_ok_def parked_ok_def resident_owned_set resident_owned_iff [of e])
  ultimately show ?thesis using p by (simp add: engine_ok_def)
qed

lemma mset_at:
  assumes "k < length xs"
  shows "mset xs = add_mset (xs ! k) (mset (swap_remove k xs))" "mset (xs[k := y]) = mset (swap_remove k xs @ [y])"
  using mset_swap_remove [OF assms] assms by (simp_all add: mset_update)

text \<open>The resident generation at \<open>k\<close> changes in place.\<close>

lemma resident_update_at:
  assumes ok: "engine_ok e" and k: "k < length (en_active e)" "gn_state (en_active e ! k) = None"
    and t': "retier (en_tiers e) t'" "books t'"
    and g': "gn_id g' = gn_id (en_active e ! k)" "gn_state g' = None" "generation_ok g' (t_device t')"
      "dv_id (t_device t') = t_cache_state t' \<Longrightarrow> described (t_checkpoints t') g' (t_device t')"
  shows "engine_ok (e\<lparr>en_tiers := t', en_active := (en_active e)[k := g']\<rparr>)"
proof -
  have "engine_ok (e\<lparr>en_tiers := t', en_active := swap_remove k (en_active e) @ [g']\<rparr>)"
    by (rule resident_update [OF ok mset_at(1) [OF k(1)] k(2) t' g'])
  from engine_ok_perm [OF this, of "(en_active e)[k := g']"] mset_at(2) [OF k(1)] show ?thesis by simp
qed

lemma map_filter_update:
  "k < length xs \<Longrightarrow> f (xs ! k) = Some d \<Longrightarrow> f y = Some d' \<Longrightarrow> h d' = h d \<Longrightarrow>
   map h (List.map_filter f (xs[k := y])) = map h (List.map_filter f xs)"
  by (induction xs arbitrary: k) (auto simp: map_filter_simps nth_Cons split: nat.splits option.splits)

lemma parked_update_at:
  assumes ok: "engine_ok e" and k: "k < length (en_active e)" "gn_state (en_active e ! k) = Some d"
    and g': "gn_id g' = gn_id (en_active e ! k)" "gn_state g' = Some d'" "dv_id d' = dv_id d" "generation_ok (unparked g') d'"
      "dv_id d = tier_state e \<Longrightarrow> described (tier_cps e) (unparked g') d'"
  shows "engine_ok (e\<lparr>en_active := (en_active e)[k := g']\<rparr>)"
proof -
  define gs where "gs = (en_active e)[k := g']"
  have p: "placed e" and s: "separate e" and t: "tier_ok e" using ok by (auto simp: engine_ok_def)
  have ids: "map gn_id gs = map gn_id (en_active e)" using g'(1) k(1) by (simp add: gs_def map_update list_update_same_conv)
  have mem: "h = g' \<or> h \<in> set (en_active e)" if "h \<in> set gs" for h
    using that set_update_subset_insert [of "en_active e" k g'] by (auto simp: gs_def)
  have "gn_id g' \<le> en_next e \<and> en_resident e \<noteq> Some (gn_id g')"
    using p nth_mem [OF k(1)] k(2) g'(1) by (auto simp: placed_def)
  then have "gn_id h \<le> en_next e \<and> (gn_state h = None \<longleftrightarrow> en_resident e = Some (gn_id h))" if "h \<in> set gs" for h
    using p mem [OF that] g'(2) by (auto simp: placed_def)
  then have p': "placed (e\<lparr>en_active := gs\<rparr>)" using p ids by (simp add: placed_def)
  have "map dv_id (List.map_filter gn_state gs) = map dv_id (List.map_filter gn_state (en_active e))"
    unfolding gs_def by (rule map_filter_update [OF k g'(2,3)])
  then have "set_ids (e\<lparr>en_active := gs\<rparr>) = set_ids e" by (simp add: set_ids_def)
  then have sep: "separate (e\<lparr>en_active := gs\<rparr>)" using s separate_iff [OF p] separate_iff [OF p'] by simp
  have "resident_owned (e\<lparr>en_active := gs\<rparr>) = resident_owned e"
  proof -
    have "gn_id ` set gs = gn_id ` set (en_active e)" using arg_cong [OF ids, of set] by simp
    then show ?thesis by (simp add: resident_owned_ids)
  qed
  moreover have "generation_ok (unparked h) d1 \<and> (dv_id d1 = tier_state e \<longrightarrow> described (tier_cps e) (unparked h) d1)"
    if "h \<in> set gs" "gn_state h = Some d1" for h d1
    using mem [OF that(1)] that(2) g'(2-5) t unfolding tier_ok_split [OF p] parked_ok_def by auto
  then have "parked_ok (tier_state e) (tier_cps e) (en_pool e) gs"
    using t unfolding tier_ok_split [OF p] parked_ok_def by blast
  moreover have "h \<in> set (en_active e)" if "h \<in> set gs" "gn_state h = None" for h
    using mem [OF that(1)] that(2) g'(2) by auto
  ultimately have "tier_ok (e\<lparr>en_active := gs\<rparr>)"
    using t unfolding tier_ok_split [OF p] tier_ok_split [OF p'] by simp
  then show ?thesis using p' sep by (simp add: engine_ok_def gs_def)
qed

section \<open>The tier after a round\<close>









section \<open>Rounds keep the engine in order\<close>

text \<open>The resident generation at an index.\<close>

lemma resident_at:
  assumes ok: "engine_ok e" and k: "k < length (en_active e)" "en_resident e = Some (gn_id (en_active e ! k))"
  shows "gn_state (en_active e ! k) = None" "unparked (en_active e ! k) = en_active e ! k"
    "generation_ok (en_active e ! k) (t_device (en_tiers e))" "books (en_tiers e)"
    "dv_id (t_device (en_tiers e)) = tier_state e \<Longrightarrow> described (tier_cps e) (en_active e ! k) (t_device (en_tiers e))"
proof -
  have "placed e" using ok by (simp add: engine_ok_def)
  then show none: "gn_state (en_active e ! k) = None" using k by (simp add: placed_def)
  then show same: "unparked (en_active e ! k) = en_active e ! k" by (simp add: unparked_def)
  note tg = take_generation [OF ok mset_at(1) [OF k(1)] none, unfolded same]
  then show "generation_ok (en_active e ! k) (t_device (en_tiers e))" "books (en_tiers e)"
    "dv_id (t_device (en_tiers e)) = tier_state e \<Longrightarrow> described (tier_cps e) (en_active e ! k) (t_device (en_tiers e))"
    by blast+
qed


lemma defer_irrelevant [simp]:
  "generation_ok (g\<lparr>gn_defer := b\<rparr>) d = generation_ok g d" "described cps (g\<lparr>gn_defer := b\<rparr>) d = described cps g d"
  by (simp_all add: generation_ok_def described_def untouched_def cong: option.case_cong)








text \<open>A pass over any set, resident or parked: the rows below stay, the set's sequence grows.\<close>

lemma described_grows:
  assumes "described cps g d" "gn_prefill g = None" "gn_prefill g' = None" "gn_cancelled g' = gn_cancelled g"
    "gn_max_tokens g' = gn_max_tokens g" "gn_max_tokens g \<noteq> 0"
  shows "described cps g' (prefill_blocks ts d)"
  using assms by (auto simp: described_def untouched_def)

lemma pass_ok:
  assumes ok: "engine_ok e" and k: "k < length (en_active e)"
    and f: "\<And>g. gn_id (f g) = gn_id g" "\<And>g. gn_state (f g) = gn_state g" "\<And>g. unparked (f g) = f (unparked g)"
    and grows: "\<And>d cps. generation_ok (unparked (en_active e ! k)) d \<Longrightarrow>
        device_of e (en_active e ! k) = d \<Longrightarrow> generation_ok (f (unparked (en_active e ! k))) (prefill_blocks ts d) \<and>
        (described cps (unparked (en_active e ! k)) d \<longrightarrow> described cps (f (unparked (en_active e ! k))) (prefill_blocks ts d))"
  shows "engine_ok (pass_at ts f k e)"
proof -
  define g where "g = en_active e ! k"
  have p: "placed e" and t: "tier_ok e" using ok by (auto simp: engine_ok_def)
  show ?thesis
  proof (cases "gn_state g")
    case None
    have res: "en_resident e = Some (gn_id g)" using p k None by (auto simp: placed_def g_def)
    note at = resident_at [OF ok k res [unfolded g_def], folded g_def]
    have d: "device_of e g = t_device (en_tiers e)" by (simp add: device_of_def None)
    note gr = grows [folded g_def, unfolded at(2), OF at(3) d]
    define t' where "t' = set_device (prefill_blocks ts (t_device (en_tiers e))) (en_tiers e)"
    have "pass_at ts f k e = e\<lparr>en_tiers := t', en_active := (en_active e)[k := f g]\<rparr>"
      using None by (simp add: pass_at_def t'_def Let_def flip: g_def)
    moreover have "retier (en_tiers e) t'" by (auto simp: retier_def t'_def intro: taken_over_mem)
    moreover have "engine_ok (e\<lparr>en_tiers := t', en_active := (en_active e)[k := f g]\<rparr>)"
      by (rule resident_update_at [OF ok k])
        (use None f gr at(4,5) \<open>retier (en_tiers e) t'\<close> in \<open>simp_all add: t'_def flip: g_def\<close>)
    ultimately show ?thesis by simp
  next
    case (Some d)
    have gok: "generation_ok (unparked g) d" "dv_id d = tier_state e \<Longrightarrow> described (tier_cps e) (unparked g) d"
      using t k Some unfolding tier_ok_split [OF p] parked_ok_def g_def by auto
    have d: "device_of e g = d" by (simp add: device_of_def Some)
    note gr = grows [folded g_def, OF gok(1) d]
    define g' where "g' = (f g)\<lparr>gn_state := Some (prefill_blocks ts d)\<rparr>"
    have "unparked g' = f (unparked g)" using f(3) [of g] by (simp add: unparked_def g'_def)
    then have "engine_ok (e\<lparr>en_active := (en_active e)[k := g']\<rparr>)"
      using parked_update_at [OF ok k Some [unfolded g_def], of g' "prefill_blocks ts d"] f(1) gr gok(2)
      by (simp add: g'_def g_def)
    then show ?thesis using Some by (simp add: pass_at_def g'_def Let_def flip: g_def)
  qed
qed


text \<open>What a decoding generation emits and what its set gains agree.\<close>

definition commits :: "u32 list \<Rightarrow> u32 list \<Rightarrow> generation \<Rightarrow> device \<Rightarrow> bool" where
  "commits ts emitted g d \<longleftrightarrow> compatible (gn_prompt g @ gn_token_ids g @ emitted) (dv_seq d @ ts)"

lemma decode_ok:
  assumes ok: "engine_ok e" and k: "k < length (en_active e)"
    and g: "decoding (en_active e ! k)" "gn_max_tokens (en_active e ! k) \<noteq> 0"
    and commits: "commits ts emitted (en_active e ! k) (device_of e (en_active e ! k))"
  shows "engine_ok (pass_at ts (decoded emitted stop) k e)"
proof (rule pass_ok [OF ok k])
  fix d cps
  assume "generation_ok (unparked (en_active e ! k)) d" "device_of e (en_active e ! k) = d"
  then show "generation_ok (decoded emitted stop (unparked (en_active e ! k))) (prefill_blocks ts d) \<and>
      (described cps (unparked (en_active e ! k)) d \<longrightarrow>
       described cps (decoded emitted stop (unparked (en_active e ! k))) (prefill_blocks ts d))"
    using g commits coherent_prefill [of d ts] described_grows [of cps "unparked (en_active e ! k)" d]
    by (auto simp: generation_ok_def decoded_def unparked_def decoding_def commits_def)
qed (simp_all add: decoded_def unparked_def)

definition cancel_at :: "nat \<Rightarrow> engine \<Rightarrow> engine" where
  "cancel_at k e = e\<lparr>en_active := (en_active e)[k := mark_cancelled (en_active e ! k)]\<rparr>"


section \<open>The end of a generation\<close>

text \<open>The tier describes the resident set, by prefixes of what it holds.\<close>

definition tier_prefixes :: "tiers \<Rightarrow> bool" where
  "tier_prefixes t \<longleftrightarrow> t_cache_state t = dv_id (t_device t) \<and> coherent (t_device t) \<and> books t \<and>
     (\<forall>c\<in>set (t_checkpoints t). prefix (cc_tokens c) (dv_seq (t_device t)))"


lemma tier_prefixes_upkeep: "upkeep t t' \<Longrightarrow> tier_prefixes t \<Longrightarrow> tier_prefixes t'"
  by (fastforce simp: tier_prefixes_def upkeep_def own_tier_def taken_over_def)







text \<open>Every stage keeps \<open>tier_prefixes\<close>, on which the next one relies.\<close>

definition recorded :: "tiers \<Rightarrow> tiers \<Rightarrow> bool" where
  "recorded t t' \<longleftrightarrow> (tier_prefixes t \<longrightarrow> upkeep t t')"


lemma recorded_device: "recorded t t' \<Longrightarrow> tier_prefixes t \<Longrightarrow> t_device t' = t_device t \<and> tier_prefixes t'"
  using tier_prefixes_upkeep by (auto simp: recorded_def upkeep_def)













section \<open>Admission\<close>

section \<open>Admission\<close>









section \<open>Generations dropped\<close>





section \<open>The machine\<close>

text \<open>
  The steps of an engine whose swaps succeed and whose snapshot files hold what they are indexed
  under.  A parked generation that fails in the middle of its prompt must not own the set the GPU
  tier describes (\<open>discards_safely\<close>).
\<close>

definition discards_safely :: "nat \<Rightarrow> engine \<Rightarrow> bool" where
  "discards_safely k e \<longleftrightarrow>
     (case gn_state (en_active e ! k) of
        None \<Rightarrow> True
      | Some d \<Rightarrow>
          dv_id d \<noteq> tier_state e \<or> untouched (en_active e ! k) \<or>
          gn_prefill (en_active e ! k) = None \<and> \<not> gn_cancelled (en_active e ! k))"

inductive engine_step :: "engine \<Rightarrow> engine \<Rightarrow> bool" where
  es_admit: "clean ev \<Longrightarrow> files_faithful ev None (t_disk (collect_disk_writes (en_tiers e))) \<Longrightarrow> valid \<longrightarrow> prompt \<noteq> [] \<Longrightarrow>
     engine_step e (snd (admit ev alloc_ok True eos_ids valid prompt session max_tokens e))"
| es_resident: "k < length (en_active e) \<Longrightarrow> engine_step e (snd (make_resident True k e))"
| es_restart: "k < length (en_active e) \<Longrightarrow> en_resident e = Some (gn_id (en_active e ! k)) \<Longrightarrow>
     gn_prefill (en_active e ! k) = Some plan \<Longrightarrow> pf_done plan = pf_reused plan \<Longrightarrow>
     clean ev \<Longrightarrow> files_faithful ev loaded (t_disk (collect_disk_writes (en_tiers e))) \<Longrightarrow>
     engine_step e (restart_at ev eos_ids loaded k e)"
| es_prefill: "k < length (en_active e) \<Longrightarrow> en_resident e = Some (gn_id (en_active e ! k)) \<Longrightarrow>
     \<not> gn_done (en_active e ! k) \<Longrightarrow> engine_step e (prefill_at ev pass cancel_observed sample_ok budget k e)"
| es_fold: "k < length (en_active e) \<Longrightarrow> gn_prefill (en_active e ! k) = Some plan \<Longrightarrow> 0 < n \<Longrightarrow>
     n \<le> plain_run plan (length (gn_prompt (en_active e ! k))) \<Longrightarrow>
     engine_step e (pass_at (take n (drop (pf_done plan) (gn_prompt (en_active e ! k)))) (folded n) k e)"
| es_decode: "k < length (en_active e) \<Longrightarrow> decoding (en_active e ! k) \<Longrightarrow> gn_max_tokens (en_active e ! k) \<noteq> 0 \<Longrightarrow>
     commits ts emitted (en_active e ! k) (device_of e (en_active e ! k)) \<Longrightarrow>
     engine_step e (pass_at ts (decoded emitted stop) k e)"
| es_cancel: "k < length (en_active e) \<Longrightarrow> engine_step e (cancel_at k e)"
| es_close: "k < length (en_active e) \<Longrightarrow> gn_done (en_active e ! k) \<Longrightarrow>
     engine_step e (snd (close_at ev head_ok decode_ok k e))"
| es_fail: "k < length (en_active e) \<Longrightarrow> discards_safely k e \<Longrightarrow>
     engine_step e (fail_generation (gn_id (en_active e ! k)) e)"
| es_drop: "engine_step e (drop_all e)"








section \<open>What a step chooses\<close>

text \<open>The prompt a step prefills is active and has the fewest tokens left of those whose disk
  snapshot is not still being read, or of all when every one is.\<close>

lemma next_prefill_chosen:
  assumes "next_prefill finished e = Some (k, remaining)"
  shows "k < length (en_active e)" "\<not> gn_done (en_active e ! k)" "prefill_remaining (en_active e ! k) = Some remaining"
    "\<And>j r. j < length (en_active e) \<Longrightarrow> \<not> gn_done (en_active e ! j) \<Longrightarrow> prefill_remaining (en_active e ! j) = Some r \<Longrightarrow>
       (awaiting_disk finished (en_active e ! k), remaining) \<le> (awaiting_disk finished (en_active e ! j), r)"
proof -
  define cs where "cs = List.map_filter
      (\<lambda>(index, g). map_option (\<lambda>remaining. (index, remaining, awaiting_disk finished g)) (prefill_remaining g))
      (filter (\<lambda>(_, g). \<not> gn_done g) (enumerate 0 (en_active e)))"
  have mem: "(j, r, l) \<in> set cs \<longleftrightarrow> j < length (en_active e) \<and> \<not> gn_done (en_active e ! j) \<and>
      prefill_remaining (en_active e ! j) = Some r \<and> l = awaiting_disk finished (en_active e ! j)" for j r l
    by (auto simp: cs_def set_map_filter in_set_enumerate_eq)
  obtain l where m: "min_by_key (\<lambda>(_, remaining, loading). (loading, remaining)) cs = Some (k, remaining, l)"
    using assms by (auto simp: next_prefill_def cs_def)
  note least = min_by_key_SomeD [OF m]
  show "k < length (en_active e)" "\<not> gn_done (en_active e ! k)" "prefill_remaining (en_active e ! k) = Some remaining"
    using least(1) mem by auto
  show "(awaiting_disk finished (en_active e ! k), remaining) \<le> (awaiting_disk finished (en_active e ! j), r)"
    if "j < length (en_active e)" "\<not> gn_done (en_active e ! j)" "prefill_remaining (en_active e ! j) = Some r" for j r
    using least(2) [of "(j, r, awaiting_disk finished (en_active e ! j))"] least(1) that mem by auto
qed

text \<open>A folded chunk is a step of the machine: it is not empty and reaches no milestone.\<close>

lemma fold_candidate_steps:
  assumes "fold_candidate finished cancelled max_rows seeds e = Some (k, n)" "gn_prefill (en_active e ! k) = Some plan"
  shows "engine_step e (pass_at (take n (drop (pf_done plan) (gn_prompt (en_active e ! k)))) (folded n) k e)"
proof (rule es_fold)
  show "k < length (en_active e)"
    using assms(1) next_prefill_chosen(1) by (auto simp: fold_candidate_def Let_def split: option.splits prod.splits if_splits)
  show "0 < n" "n \<le> plain_run plan (length (gn_prompt (en_active e ! k)))"
    using assms by (auto simp: fold_candidate_def Let_def split: option.splits prod.splits if_splits)
qed (rule assms(2))

text \<open>A request admitted beside others fits: the sums do not wrap.\<close>

lemma sat_add_le: "sat_add a b + c \<le> n \<Longrightarrow> n < 2 ^ 64 - 1 \<Longrightarrow> a + b + c \<le> n"
  by (auto simp: sat_add_def min_def split: if_splits)

lemma sat_mul_le: "c + sat_mul a b \<le> n \<Longrightarrow> n < 2 ^ 64 - 1 \<Longrightarrow> c + a * b \<le> n"
  by (auto simp: sat_mul_def min_def split: if_splits)

lemma sat_sum_le: "foldl sat_add a xs \<le> n \<Longrightarrow> n < 2 ^ 64 - 1 \<Longrightarrow> a + sum_list xs \<le> n"
proof (induction xs arbitrary: a)
  case (Cons x xs)
  then have "sat_add a x + sum_list xs \<le> n" by simp
  then show ?case using Cons.prems(2) by (auto simp: sat_add_def min_def split: if_splits)
qed simp

lemma can_admit_fits:
  assumes "can_admit state_tokens context prompt_tokens max_tokens e" "en_active e \<noteq> []" "context < 2 ^ 64 - 1"
  shows "length (en_active e) < MAX_BATCH_SEQUENCES"
    "sum_list (map reserved_tokens (en_active e)) + prompt_tokens + max_tokens + length (en_active e) * state_tokens \<le> context"
proof -
  let ?r = "foldl sat_add 0 (map reserved_tokens (en_active e))" and ?s = "sat_mul (length (en_active e)) state_tokens"
  show "length (en_active e) < MAX_BATCH_SEQUENCES" using assms(1,2) by (simp add: can_admit_def split: if_splits)
  have "sat_add (sat_add (sat_add ?r prompt_tokens) max_tokens) ?s \<le> context"
    using assms(1,2) by (simp add: can_admit_def split: if_splits)
  then have "sat_add (sat_add ?r prompt_tokens) max_tokens + ?s \<le> context"
    using sat_add_le [of _ ?s 0] assms(3) by fastforce
  then have "?r + prompt_tokens + max_tokens + ?s \<le> context"
    using sat_add_le [of "sat_add ?r prompt_tokens" max_tokens ?s] sat_add_le [of ?r prompt_tokens "max_tokens + ?s"] assms(3)
    by (simp add: add.assoc)
  then have fits: "?r + prompt_tokens + max_tokens + length (en_active e) * state_tokens \<le> context"
    using sat_mul_le assms(3) by blast
  then have "sum_list (map reserved_tokens (en_active e)) \<le> ?r"
    using sat_sum_le [of 0 "map reserved_tokens (en_active e)" ?r] assms(3) by simp
  then show "sum_list (map reserved_tokens (en_active e)) + prompt_tokens + max_tokens + length (en_active e) * state_tokens \<le> context"
    using fits by simp
qed

section \<open>A run\<close>
















end
